(* ===== verification/Prelude.thy ===== *)
theory Prelude
  imports Main "HOL-Library.Word" "HOL-Library.Monad_Syntax" "HOL-Library.Code_Target_Nat"
begin

text \<open>
  Shared vocabulary of the development: machine integers and byte strings, computations
  that may panic, checked indexing and slicing, big-endian encoding of 16 and 32 bit
  integers, and the interface of a byte codec with its two interpretations on those
  integers.

  A Rust expression that can panic (an index or a slice out of range, an \<open>expect\<close>, an
  \<open>unwrap\<close>) has the type \<open>'a exec\<close>: \<open>ret x\<close> is a normal result, \<open>panic\<close> an abort of the
  thread.  A Rust \<open>Option\<close> stays an \<open>option\<close>, so a function that may panic and returns an
  \<open>Option\<close> has the type \<open>'a option exec\<close>.
\<close>

unbundle bit_operations_syntax

named_theorems exec_simps \<open>closed forms of computations that do not panic\<close>
named_theorems wire_simps \<open>lengths and shapes of encoded data\<close>

type_synonym byte = "8 word"
type_synonym bytes = "byte list"
type_synonym u16 = "16 word"
type_synonym u32 = "32 word"

type_synonym 'a exec = "'a option"

abbreviation (input) ret :: "'a \<Rightarrow> 'a exec" where
  "ret x \<equiv> Some x"

abbreviation (input) panic :: "'a exec" where
  "panic \<equiv> None"

section \<open>Checked indexing and slicing\<close>

text \<open>\<open>xs[i]\<close>, \<open>&xs[a..b]\<close> and \<open>xs[i] = v\<close> of Rust: out of range is a panic.\<close>

definition idx :: "'a list \<Rightarrow> nat \<Rightarrow> 'a exec" where
  "idx xs i = (if i < length xs then ret (xs ! i) else panic)"

definition subslice :: "'a list \<Rightarrow> nat \<Rightarrow> nat \<Rightarrow> 'a list exec" where
  "subslice xs a b = (if a \<le> b \<and> b \<le> length xs then ret (take (b - a) (drop a xs)) else panic)"

definition upd :: "'a list \<Rightarrow> nat \<Rightarrow> 'a \<Rightarrow> 'a list exec" where
  "upd xs i v = (if i < length xs then ret (xs[i := v]) else panic)"

lemma idx_ret [exec_simps]: "i < length xs \<Longrightarrow> idx xs i = ret (xs ! i)"
  by (simp add: idx_def)

lemma subslice_ret [exec_simps]:
  "a \<le> b \<Longrightarrow> b \<le> length xs \<Longrightarrow> subslice xs a b = ret (take (b - a) (drop a xs))"
  by (simp add: subslice_def)

lemma upd_ret [exec_simps]: "i < length xs \<Longrightarrow> upd xs i v = ret (xs[i := v])"
  by (simp add: upd_def)

lemma subslice_append: "subslice (xs @ ys @ zs) (length xs) (length xs + length ys) = ret ys"
  by (simp add: subslice_def)

text \<open>Running a computation over a list, left to right.\<close>

fun fold_exec :: "('s \<Rightarrow> 'a \<Rightarrow> 's exec) \<Rightarrow> 's \<Rightarrow> 'a list \<Rightarrow> 's exec" where
  "fold_exec f s [] = ret s"
| "fold_exec f s (x # xs) = do { s' \<leftarrow> f s x; fold_exec f s' xs }"

lemma fold_exec_append:
  "fold_exec f s (xs @ ys) = do { s' \<leftarrow> fold_exec f s xs; fold_exec f s' ys }"
  by (induction xs arbitrary: s) (auto split: Option.bind_splits)

lemma fold_exec_ret:
  assumes "\<And>s x. I s \<Longrightarrow> x \<in> set xs \<Longrightarrow> f s x = ret (g s x) \<and> I (g s x)"
    and "I s"
  shows "fold_exec f s xs = ret (foldl g s xs) \<and> I (foldl g s xs)"
  using assms by (induction xs arbitrary: s) auto

text \<open>
  A loop that returns at the first element for which \<open>f\<close> gives a value, over computations
  that may panic, and over plain functions.
\<close>

fun first_exec :: "('a \<Rightarrow> 'b option exec) \<Rightarrow> 'a list \<Rightarrow> 'b option exec" where
  "first_exec f [] = ret None"
| "first_exec f (x # xs) = do {
     r \<leftarrow> f x;
     (case r of Some y \<Rightarrow> ret (Some y) | None \<Rightarrow> first_exec f xs)
   }"

fun first_some :: "('a \<Rightarrow> 'b option) \<Rightarrow> 'a list \<Rightarrow> 'b option" where
  "first_some f [] = None"
| "first_some f (x # xs) = (case f x of Some y \<Rightarrow> Some y | None \<Rightarrow> first_some f xs)"

lemma first_exec_ret:
  "(\<And>x. x \<in> set xs \<Longrightarrow> f x = ret (g x)) \<Longrightarrow> first_exec f xs = ret (first_some g xs)"
  by (induction xs) (auto split: option.splits)

text \<open>
  The interface of a search step that never panics and meets a plain specification: a loop over
  it does not panic either, and returns the first value of the specification.
\<close>

locale total_search =
  fixes f :: "'a \<Rightarrow> 'b option exec"
    and spec :: "'a \<Rightarrow> 'b option"
  assumes meets: "f x = ret (spec x)"
begin

lemma no_panic: "f x \<noteq> panic"
  by (simp add: meets)

lemma search: "first_exec f xs = ret (first_some spec xs)"
  by (rule first_exec_ret) (rule meets)

lemma search_None: "first_exec f xs = ret None \<longleftrightarrow> (\<forall>x \<in> set xs. f x = ret None)"
  by (induction xs) (auto simp: meets split: option.splits)

end

lemma first_some_append:
  "first_some f (xs @ ys) = (case first_some f xs of Some y \<Rightarrow> Some y | None \<Rightarrow> first_some f ys)"
  by (induction xs) (auto split: option.splits)

lemma first_some_None_iff: "first_some f xs = None \<longleftrightarrow> (\<forall>x \<in> set xs. f x = None)"
  by (induction xs) (auto split: option.splits)

lemma first_some_SomeD: "first_some f xs = Some y \<Longrightarrow> \<exists>x \<in> set xs. f x = Some y"
  by (induction xs) (auto split: option.splits)

lemma first_some_map: "first_some f (map g xs) = first_some (\<lambda>x. f (g x)) xs"
  by (induction xs) (auto split: option.splits)

lemma first_some_skip: "\<forall>x \<in> set xs. f x = None \<Longrightarrow> first_some f (xs @ ys) = first_some f ys"
  by (simp add: first_some_append first_some_None_iff [THEN iffD2])

lemma first_some_earliest:
  "i < length xs \<Longrightarrow> f (xs ! i) \<noteq> None \<Longrightarrow>
     \<exists>j y. j \<le> i \<and> f (xs ! j) = Some y \<and> first_some f xs = Some y"
proof (induction xs arbitrary: i)
  case (Cons x xs)
  show ?case
  proof (cases "f x")
    case None
    then obtain k where k: "i = Suc k" using Cons.prems by (cases i) auto
    then obtain j y where "j \<le> k" "f (xs ! j) = Some y" "first_some f xs = Some y"
      using Cons.IH [of k] Cons.prems by auto
    with None k show ?thesis by (intro exI [of _ "Suc j"] exI [of _ y]) simp
  next
    case (Some y)
    then show ?thesis by (intro exI [of _ 0] exI [of _ y]) simp
  qed
qed simp

lemma first_some_cong: "(\<And>x. x \<in> set xs \<Longrightarrow> f x = g x) \<Longrightarrow> first_some f xs = first_some g xs"
  by (induction xs) (auto split: option.splits)

section \<open>Big-endian integers\<close>

text \<open>\<open>u16::to_be_bytes\<close>, \<open>u32::to_be_bytes\<close> and \<open>u16::from_be_bytes\<close>.\<close>

definition be16 :: "u16 \<Rightarrow> bytes" where
  "be16 w = [ucast (drop_bit 8 w), ucast w]"

definition be32 :: "u32 \<Rightarrow> bytes" where
  "be32 w = [ucast (drop_bit 24 w), ucast (drop_bit 16 w), ucast (drop_bit 8 w), ucast w]"

definition of_be16 :: "byte \<Rightarrow> byte \<Rightarrow> u16" where
  "of_be16 a b = push_bit 8 (ucast a) OR ucast b"

definition of_be32 :: "byte \<Rightarrow> byte \<Rightarrow> byte \<Rightarrow> byte \<Rightarrow> u32" where
  "of_be32 a b c d =
     push_bit 24 (ucast a) OR push_bit 16 (ucast b) OR push_bit 8 (ucast c) OR ucast d"

lemma length_be16 [simp]: "length (be16 w) = 2"
  by (simp add: be16_def)

lemma length_be32 [simp]: "length (be32 w) = 4"
  by (simp add: be32_def)

lemma of_be16_be16 [simp]: "of_be16 (ucast (drop_bit 8 w)) (ucast w) = w"
  unfolding of_be16_def
  by (rule bit_word_eqI) (auto simp: bit_simps)

lemma of_be32_be32 [simp]:
  "of_be32 (ucast (drop_bit 24 w)) (ucast (drop_bit 16 w)) (ucast (drop_bit 8 w)) (ucast w) = w"
proof (rule bit_word_eqI)
  fix n :: nat
  assume "n < LENGTH(32)"
  then consider "n < 8" | "8 \<le> n" "n < 16" | "16 \<le> n" "n < 24" | "24 \<le> n" "n < 32"
    by fastforce
  then show "bit (of_be32 (ucast (drop_bit 24 w)) (ucast (drop_bit 16 w)) (ucast (drop_bit 8 w))
      (ucast w)) n = bit w n"
    by cases (auto simp: of_be32_def bit_simps)
qed

lemma not_bit_byte_ge8 [simp]: "\<not> bit (b :: byte) (8 + n)"
  by (auto dest: bit_imp_le_length)

lemma be16_of_be16 [simp]: "be16 (of_be16 a b) = [a, b]"
  unfolding be16_def of_be16_def
  by (auto intro!: bit_word_eqI simp: bit_simps)

lemma be16_inj: "be16 v = be16 w \<longleftrightarrow> v = w"
  by (metis be16_def list.inject of_be16_be16)

lemma unat_byte_less [simp]: "unat (b :: byte) < 256"
  using unsigned_less [of b] by simp

lemma unat_byte_le [simp]: "unat (b :: byte) \<le> 255"
  using unat_byte_less [of b] by linarith

lemma unat_u16_less [simp]: "unat (w :: u16) < 65536"
  using unsigned_less [of w] by simp

lemma unat_u16_le [simp]: "unat (w :: u16) \<le> 65535"
  using unat_u16_less [of w] by linarith

section \<open>Saturating arithmetic\<close>

definition sat_add :: "'a::len word \<Rightarrow> 'a word \<Rightarrow> 'a word" where
  "sat_add a b = (if unat a + unat b < 2 ^ LENGTH('a) then a + b else - 1)"

definition sat_sub :: "'a::len word \<Rightarrow> 'a word \<Rightarrow> 'a word" where
  "sat_sub a b = (if b \<le> a then a - b else 0)"

lemma unat_sat_add: "unat (sat_add a b :: 'a::len word) = min (unat a + unat b) (2 ^ LENGTH('a) - 1)"
  by (auto simp: sat_add_def unat_word_ariths unsigned_minus_1_eq_mask mask_eq_exp_minus_1)

lemma unat_sat_sub: "unat (sat_sub a b) = unat a - unat b"
  by (auto simp: sat_sub_def unat_sub word_le_nat_alt)

section \<open>Codecs\<close>

text \<open>
  The interface of a byte codec: a decoder that, given the encoding of a well-formed value
  followed by anything, returns the value and the rest.  A run of codec values is itself
  decodable once its length is known.
\<close>

fun decode_many :: "(bytes \<Rightarrow> ('a \<times> bytes) option) \<Rightarrow> nat \<Rightarrow> bytes \<Rightarrow> ('a list \<times> bytes) option" where
  "decode_many dec 0 bs = Some ([], bs)"
| "decode_many dec (Suc n) bs =
     (case dec bs of
        None \<Rightarrow> None
      | Some (x, bs') \<Rightarrow>
          (case decode_many dec n bs' of
             None \<Rightarrow> None
           | Some (xs, bs'') \<Rightarrow> Some (x # xs, bs'')))"

locale codec =
  fixes enc :: "'a \<Rightarrow> bytes"
    and dec :: "bytes \<Rightarrow> ('a \<times> bytes) option"
    and wf :: "'a \<Rightarrow> bool"
  assumes dec_enc: "wf x \<Longrightarrow> dec (enc x @ rest) = Some (x, rest)"
begin

lemma enc_inject: "wf x \<Longrightarrow> wf y \<Longrightarrow> enc x = enc y \<Longrightarrow> x = y"
  by (metis append.right_neutral dec_enc option.inject prod.inject)

lemma enc_prefix_free: "wf x \<Longrightarrow> wf y \<Longrightarrow> enc x @ r = enc y @ s \<Longrightarrow> x = y \<and> r = s"
  by (metis dec_enc option.inject prod.inject)

lemma decode_many_concat:
  "\<forall>x \<in> set xs. wf x \<Longrightarrow> decode_many dec (length xs) (concat (map enc xs) @ rest) = Some (xs, rest)"
  by (induction xs) (auto simp: dec_enc)

end

fun dec16 :: "bytes \<Rightarrow> (u16 \<times> bytes) option" where
  "dec16 (a # b # rest) = Some (of_be16 a b, rest)"
| "dec16 _ = None"

fun dec32 :: "bytes \<Rightarrow> (u32 \<times> bytes) option" where
  "dec32 (a # b # c # d # rest) = Some (of_be32 a b c d, rest)"
| "dec32 _ = None"

interpretation u16: codec be16 dec16 "\<lambda>_. True"
  by unfold_locales (simp add: be16_def)

interpretation u32: codec be32 dec32 "\<lambda>_. True"
  by unfold_locales (simp add: be32_def)

lemma dec16_be16 [simp]: "dec16 (be16 w @ rest) = Some (w, rest)"
  by (rule u16.dec_enc) simp

lemma dec32_be32 [simp]: "dec32 (be32 w @ rest) = Some (w, rest)"
  by (rule u32.dec_enc) simp

lemma dec16_enc: "dec16 bs = Some (w, rest) \<Longrightarrow> bs = be16 w @ rest"
  by (cases bs rule: dec16.cases) auto

lemma dec16_rest: "dec16 bs = Some (w, rest) \<Longrightarrow> rest = drop 2 bs"
  by (cases bs rule: dec16.cases) auto

end
