(* ===== verification/Rust_Str.thy ===== *)
theory Rust_Str
  imports Prelude
begin

text \<open>
  The string operations of Rust's standard library that the program calls.  A \<open>&str\<close> or
  \<open>String\<close> is its UTF-8 encoding, a list of bytes; \<open>len\<close>, \<open>split\<close>, \<open>join\<close>, \<open>replace\<close>,
  \<open>trim_end_matches\<close>, the ASCII case operations, integer parsing and formatting all work on
  the bytes, as they do in the library.  Slicing a \<open>&str\<close> inside a character is a panic.
\<close>

type_synonym rstr = bytes

text \<open>A string literal.\<close>

definition lit :: "string \<Rightarrow> rstr" where
  "lit s = map of_char s"

text \<open>The same, evaluated faster: the numeral of a byte is put together from the bits of the character.\<close>

primrec add_bit :: "num option \<Rightarrow> bool \<Rightarrow> num option" where
  "add_bit None b = (if b then Some num.One else None)"
| "add_bit (Some n) b = Some (if b then num.Bit1 n else num.Bit0 n)"

fun byte_of_num :: "num option \<Rightarrow> byte" where
  "byte_of_num None = 0"
| "byte_of_num (Some n) = numeral n"

fun byte_of_char :: "char \<Rightarrow> byte" where
  "byte_of_char (Char b0 b1 b2 b3 b4 b5 b6 b7) =
     byte_of_num (foldl add_bit None [b7, b6, b5, b4, b3, b2, b1, b0])"

lemma byte_of_char_eq: "byte_of_char c = of_char c"
proof (cases c)
  case (Char b0 b1 b2 b3 b4 b5 b6 b7)
  then show ?thesis
    by (cases b0; cases b1; cases b2; cases b3; cases b4; cases b5; cases b6; cases b7) (simp_all add: of_char_Char)
qed

lemma lit_code [code]: "lit s = map byte_of_char s"
  by (simp add: lit_def byte_of_char_eq)

abbreviation DOT :: byte where "DOT \<equiv> 46"
abbreviation HYPHEN :: byte where "HYPHEN \<equiv> 45"
abbreviation COLON :: byte where "COLON \<equiv> 58"
abbreviation PLUS :: byte where "PLUS \<equiv> 43"
abbreviation COMMA :: byte where "COMMA \<equiv> 44"

section \<open>UTF-8\<close>

text \<open>\<open>core::str::from_utf8\<close> accepts exactly these byte lists.\<close>

definition is_cont :: "byte \<Rightarrow> bool" where
  "is_cont b \<longleftrightarrow> 0x80 \<le> b \<and> b < 0xC0"

definition utf8_second3 :: "byte \<Rightarrow> byte \<Rightarrow> bool" where
  "utf8_second3 a b \<longleftrightarrow>
     (if a = 0xE0 then 0xA0 \<le> b \<and> b < 0xC0
      else if a = 0xED then 0x80 \<le> b \<and> b < 0xA0
      else is_cont b)"

definition utf8_second4 :: "byte \<Rightarrow> byte \<Rightarrow> bool" where
  "utf8_second4 a b \<longleftrightarrow>
     (if a = 0xF0 then 0x90 \<le> b \<and> b < 0xC0
      else if a = 0xF4 then 0x80 \<le> b \<and> b < 0x90
      else is_cont b)"

text \<open>The length of the character the bytes start with, 0 where there is none.\<close>

fun utf8_first :: "bytes \<Rightarrow> nat" where
  "utf8_first [] = 0"
| "utf8_first (a # s) =
     (if a < 0x80 then 1
      else if 0xC2 \<le> a \<and> a < 0xE0 then
        (case s of b # _ \<Rightarrow> if is_cont b then 2 else 0 | _ \<Rightarrow> 0)
      else if 0xE0 \<le> a \<and> a < 0xF0 then
        (case s of b # c # _ \<Rightarrow> if utf8_second3 a b \<and> is_cont c then 3 else 0 | _ \<Rightarrow> 0)
      else if 0xF0 \<le> a \<and> a < 0xF5 then
        (case s of b # c # d # _ \<Rightarrow>
           if utf8_second4 a b \<and> is_cont c \<and> is_cont d then 4 else 0 | _ \<Rightarrow> 0)
      else 0)"

function utf8_valid :: "bytes \<Rightarrow> bool" where
  "utf8_valid [] = True"
| "utf8_valid (a # s) =
     (if 0 < utf8_first (a # s) then utf8_valid (drop (utf8_first (a # s)) (a # s)) else False)"
  by pat_completeness auto
termination
  by (relation "measure length") (simp_all del: utf8_first.simps)

declare utf8_first.simps(2) [simp del]

lemmas word_order_nat = word_le_nat_alt word_less_nat_alt

lemma second3_cont: "utf8_second3 a b \<Longrightarrow> is_cont b"
  by (auto simp: utf8_second3_def is_cont_def word_order_nat split: if_splits)

lemma second4_cont: "utf8_second4 a b \<Longrightarrow> is_cont b"
  by (auto simp: utf8_second4_def is_cont_def word_order_nat split: if_splits)

lemma cont_not_ascii: "is_cont b \<Longrightarrow> \<not> b < 0x80"
  by (auto simp: is_cont_def)

lemma utf8_first_append: "0 < utf8_first s \<Longrightarrow> utf8_first (s @ t) = utf8_first s"
  by (cases s) (auto simp: utf8_first.simps(2) split: if_splits list.splits)

lemma utf8_first_prefix:
  assumes "xs \<noteq> []" and "utf8_first (xs @ t) \<le> length xs"
  shows "utf8_first (xs @ t) = utf8_first xs"
proof -
  consider h where "xs = [h]" | h b where "xs = [h, b]" | h b c where "xs = [h, b, c]"
    | h b c d r where "xs = h # b # c # d # r"
    using assms(1) by (metis list.exhaust)
  then show ?thesis
    using assms(2) by cases (auto simp: utf8_first.simps(2) split: if_splits list.splits)
qed

lemma utf8_first_le: "utf8_first s \<le> length s"
  by (cases s) (auto simp: utf8_first.simps(2) split: list.splits)

lemma utf8_first_head: "0 < utf8_first (a # s) \<Longrightarrow> \<not> is_cont a"
  by (auto simp: utf8_first.simps(2) is_cont_def word_order_nat split: if_splits)

lemma utf8_first_tail:
  "0 < i \<Longrightarrow> i < utf8_first s \<Longrightarrow> is_cont (s ! i)"
  by (cases s)
    (auto simp: utf8_first.simps(2) less_Suc_eq numeral_eq_Suc dest: second3_cont second4_cont
      split: if_splits list.splits)

lemma utf8_valid_rest: "s \<noteq> [] \<Longrightarrow> utf8_valid s \<longleftrightarrow> 0 < utf8_first s \<and> utf8_valid (drop (utf8_first s) s)"
  by (cases s) auto

declare utf8_valid.simps(2) [simp del]

lemma utf8_valid_Cons_ascii [simp]: "a < 0x80 \<Longrightarrow> utf8_valid (a # s) = utf8_valid s"
  by (simp add: utf8_valid.simps(2) utf8_first.simps(2))

lemma utf8_valid_append: "utf8_valid xs \<Longrightarrow> utf8_valid (xs @ ys) = utf8_valid ys"
proof (induction xs rule: utf8_valid.induct)
  case 1
  then show ?case by simp
next
  case (2 a s)
  let ?n = "utf8_first (a # s)"
  from "2.prems" have n: "0 < ?n" and v: "utf8_valid (drop ?n (a # s))"
    by (simp_all add: utf8_valid.simps(2) split: if_splits)
  have "utf8_valid ((a # s) @ ys) = utf8_valid (drop ?n ((a # s) @ ys))"
    using utf8_valid_rest [of "(a # s) @ ys"] utf8_first_append [OF n, of ys] n by simp
  also have "drop ?n ((a # s) @ ys) = drop ?n (a # s) @ ys"
    using utf8_first_le [of "a # s"] by (simp del: append_Cons drop_append add: drop_append [of _ "a # s"])
  finally show ?case using "2.IH" [OF n v] by simp
qed

text \<open>An ASCII byte is a character by itself: the text can be cut before and after it.\<close>

lemma utf8_valid_ascii_split:
  "utf8_valid (xs @ a # ys) \<Longrightarrow> a < 0x80 \<Longrightarrow> utf8_valid xs \<and> utf8_valid ys"
proof (induction "length xs" arbitrary: xs rule: less_induct)
  case less
  show ?case
  proof (cases xs)
    case Nil
    with less.prems show ?thesis by simp
  next
    case (Cons h s)
    let ?n = "utf8_first (xs @ a # ys)"
    from less.prems Cons have n: "0 < ?n" and v: "utf8_valid (drop ?n (xs @ a # ys))"
      using utf8_valid_rest [of "xs @ a # ys"] by auto
    have le: "?n \<le> length xs"
    proof (rule ccontr)
      assume "\<not> ?n \<le> length xs"
      then have "is_cont ((xs @ a # ys) ! length xs)"
        using utf8_first_tail [of "length xs" "xs @ a # ys"] Cons by simp
      with less.prems(2) show False using cont_not_ascii by simp
    qed
    then have "drop ?n (xs @ a # ys) = drop ?n xs @ a # ys" by simp
    moreover have "length (drop ?n xs) < length xs" using n Cons by simp
    ultimately have *: "utf8_valid (drop ?n xs) \<and> utf8_valid ys"
      using less.hyps [of "drop ?n xs"] v less.prems(2) by simp
    have "utf8_first xs = ?n"
      using utf8_first_prefix [of xs "a # ys"] le Cons by simp
    with * n Cons show ?thesis using utf8_valid_rest [of xs] by simp
  qed
qed

lemma utf8_valid_hd_not_cont: "utf8_valid (b # s) \<Longrightarrow> \<not> is_cont b"
  using utf8_first_head by (auto simp: utf8_valid.simps(2) split: if_splits)

lemma utf8_no_C0: "utf8_valid s \<Longrightarrow> 0xC0 \<notin> set s"
proof (induction s rule: utf8_valid.induct)
  case (2 a s)
  let ?s = "a # s" and ?n = "utf8_first (a # s)"
  have n: "0 < ?n" and v: "utf8_valid (drop ?n ?s)"
    using "2.prems" by (simp_all add: utf8_valid.simps(2) split: if_splits)
  have "?s ! i \<noteq> 0xC0" if i: "i < ?n" for i
  proof (cases "i = 0")
    case True
    then show ?thesis using n by (auto simp: utf8_first.simps(2))
  next
    case False
    then have "is_cont (?s ! i)" using utf8_first_tail [of i ?s] i by blast
    then show ?thesis by (auto simp: is_cont_def)
  qed
  then have "0xC0 \<notin> set (take ?n ?s)" by (auto simp: in_set_conv_nth)
  with "2.IH" [OF n v] have "0xC0 \<notin> set (take ?n ?s @ drop ?n ?s)"
    unfolding set_append by blast
  then show ?case unfolding append_take_drop_id .
qed simp

lemma utf8_valid_ascii: "list_all (\<lambda>b. b < 0x80) s \<Longrightarrow> utf8_valid s"
  by (induction s) auto

text \<open>\<open>str::is_char_boundary\<close> and \<open>&s[i..]\<close>.\<close>

definition is_char_boundary :: "rstr \<Rightarrow> nat \<Rightarrow> bool" where
  "is_char_boundary s i \<longleftrightarrow> i = 0 \<or> i = length s \<or> i < length s \<and> \<not> is_cont (s ! i)"

definition str_from :: "rstr \<Rightarrow> nat \<Rightarrow> rstr exec" where
  "str_from s i = (if is_char_boundary s i then ret (drop i s) else panic)"

definition str_slice :: "rstr \<Rightarrow> nat \<Rightarrow> nat \<Rightarrow> rstr exec" where
  "str_slice s a b =
     (if a \<le> b \<and> is_char_boundary s a \<and> is_char_boundary s b
      then ret (take (b - a) (drop a s)) else panic)"

lemma str_from_after_ascii:
  assumes "utf8_valid s" and "i < length s" and "s ! i < 0x80"
  shows "str_from s (Suc i) = ret (drop (Suc i) s)"
proof -
  have "s = take i s @ s ! i # drop (Suc i) s"
    using assms(2) by (rule id_take_nth_drop)
  then have v: "utf8_valid (drop (Suc i) s)"
    using utf8_valid_ascii_split assms(1,3) by metis
  have "is_char_boundary s (Suc i)"
  proof (cases "Suc i < length s")
    case True
    then have "drop (Suc i) s = s ! Suc i # drop (Suc (Suc i)) s"
      by (simp add: Cons_nth_drop_Suc)
    with v have "\<not> is_cont (s ! Suc i)"
      using utf8_valid_hd_not_cont by metis
    with True show ?thesis by (simp add: is_char_boundary_def)
  next
    case False
    with assms(2) show ?thesis by (simp add: is_char_boundary_def)
  qed
  then show ?thesis by (simp add: str_from_def)
qed

section \<open>ASCII case\<close>

text \<open>\<open>make_ascii_lowercase\<close>, \<open>to_ascii_lowercase\<close> and \<open>eq_ignore_ascii_case\<close>.\<close>

definition ascii_lower :: "byte \<Rightarrow> byte" where
  "ascii_lower b = (if 65 \<le> b \<and> b \<le> 90 then b + 32 else b)"

definition to_lower :: "rstr \<Rightarrow> rstr" where
  "to_lower s = map ascii_lower s"

definition eq_ignore_ascii_case :: "rstr \<Rightarrow> rstr \<Rightarrow> bool" where
  "eq_ignore_ascii_case a b \<longleftrightarrow>
     length a = length b \<and> list_all (\<lambda>(x, y). ascii_lower x = ascii_lower y) (zip a b)"

lemma ascii_lower_idem [simp]: "ascii_lower (ascii_lower b) = ascii_lower b"
  by (auto simp: ascii_lower_def word_order_nat unat_word_ariths)

lemma ascii_lower_eq_DOT [simp]: "ascii_lower b = DOT \<longleftrightarrow> b = DOT"
proof -
  have "ascii_lower b \<noteq> DOT" if "65 \<le> b" "b \<le> 90"
    using that by (auto simp: ascii_lower_def word_order_nat word_unat_eq_iff unat_word_ariths)
  moreover have "65 \<le> b \<Longrightarrow> b \<noteq> DOT"
    by (auto simp: word_order_nat)
  ultimately show ?thesis by (auto simp: ascii_lower_def)
qed

lemma ascii_lower_zero [simp]: "ascii_lower b = 0 \<longleftrightarrow> b = 0"
  by (auto simp: ascii_lower_def word_order_nat word_unat_eq_iff unat_word_ariths)

lemma length_to_lower [simp]: "length (to_lower s) = length s"
  by (simp add: to_lower_def)

lemma to_lower_idem [simp]: "to_lower (to_lower s) = to_lower s"
  by (simp add: to_lower_def)

lemma to_lower_append [simp]: "to_lower (s @ t) = to_lower s @ to_lower t"
  by (simp add: to_lower_def)

lemma to_lower_Nil [simp]: "to_lower [] = []"
  by (simp add: to_lower_def)

lemma to_lower_Nil_iff [simp]: "to_lower s = [] \<longleftrightarrow> s = []"
  by (simp add: to_lower_def)

lemma to_lower_Cons [simp]: "to_lower (b # s) = ascii_lower b # to_lower s"
  by (simp add: to_lower_def)

lemma eq_ignore_ascii_case_iff: "eq_ignore_ascii_case a b \<longleftrightarrow> to_lower a = to_lower b"
  unfolding eq_ignore_ascii_case_def to_lower_def
  by (auto simp: list_eq_iff_nth_eq list_all_length)

section \<open>Trimming, splitting, joining, replacing\<close>

text \<open>\<open>trim_end_matches(c)\<close>, \<open>split(c)\<close>, \<open>[..].join(sep)\<close> and \<open>contains(c)\<close> for an ASCII \<open>c\<close>.\<close>

definition trim_end :: "byte \<Rightarrow> rstr \<Rightarrow> rstr" where
  "trim_end c s = rev (dropWhile (\<lambda>b. b = c) (rev s))"

fun split_on :: "byte \<Rightarrow> rstr \<Rightarrow> rstr list" where
  "split_on c [] = [[]]"
| "split_on c (x # s) =
     (if x = c then [] # split_on c s
      else (case split_on c s of p # ps \<Rightarrow> (x # p) # ps | [] \<Rightarrow> [[x]]))"

fun join_with :: "rstr \<Rightarrow> rstr list \<Rightarrow> rstr" where
  "join_with sep [] = []"
| "join_with sep [p] = p"
| "join_with sep (p # q # ps) = p @ sep @ join_with sep (q # ps)"

text \<open>\<open>replace\<close> with a pattern of one byte and of two: matches are taken from the left and do
  not overlap.\<close>

fun replace1 :: "byte \<Rightarrow> rstr \<Rightarrow> rstr \<Rightarrow> rstr" where
  "replace1 a r [] = []"
| "replace1 a r (x # s) = (if x = a then r @ replace1 a r s else x # replace1 a r s)"

fun replace2 :: "byte \<Rightarrow> byte \<Rightarrow> rstr \<Rightarrow> rstr \<Rightarrow> rstr" where
  "replace2 a b r (x # y # s) =
     (if x = a \<and> y = b then r @ replace2 a b r s else x # replace2 a b r (y # s))"
| "replace2 a b r s = s"

lemma split_on_not_Nil [simp]: "split_on c s \<noteq> []"
  by (induction s) (auto split: list.splits)

lemma split_on_no_sep: "c \<notin> set s \<Longrightarrow> split_on c s = [s]"
  by (induction s) auto

lemma split_on_append: "c \<notin> set p \<Longrightarrow> split_on c (p @ c # s) = p # split_on c s"
  by (induction p) auto

lemma join_with_Cons: "ps \<noteq> [] \<Longrightarrow> join_with sep (p # ps) = p @ sep @ join_with sep ps"
  by (cases ps) auto

lemma join_split: "join_with [c] (split_on c s) = s"
proof (induction s)
  case (Cons x s)
  then show ?case
    by (cases "split_on c s"; cases "tl (split_on c s)") (auto simp: join_with_Cons)
qed simp

lemma split_on_inject: "split_on c s = split_on c t \<longleftrightarrow> s = t"
  by (metis join_split)

lemma split_join:
  assumes "ps \<noteq> []" and "\<forall>p \<in> set ps. c \<notin> set p"
  shows "split_on c (join_with [c] ps) = ps"
  using assms
proof (induction ps)
  case (Cons p ps)
  then show ?case
    by (cases "ps = []") (auto simp: split_on_no_sep split_on_append join_with_Cons)
qed simp

lemma split_on_sep_free: "p \<in> set (split_on c s) \<Longrightarrow> c \<notin> set p"
  by (induction s arbitrary: p) (auto split: list.splits if_splits)

lemma trim_end_id: "s = [] \<or> last s \<noteq> c \<Longrightarrow> trim_end c s = s"
  by (cases s rule: rev_cases) (auto simp: trim_end_def)

lemma trim_end_snoc [simp]: "trim_end c (s @ [c]) = trim_end c s"
  by (simp add: trim_end_def)

lemma trim_end_last: "trim_end c s = [] \<or> last (trim_end c s) \<noteq> c"
  by (induction s rule: rev_induct) (auto simp: trim_end_def)

lemma trim_end_idem [simp]: "trim_end c (trim_end c s) = trim_end c s"
  using trim_end_last by (rule trim_end_id)

lemma trim_end_prefix: "\<exists>n. s = trim_end c s @ replicate n c"
proof (induction s rule: rev_induct)
  case Nil
  show ?case by (simp add: trim_end_def)
next
  case (snoc x s)
  then obtain n where n: "s = trim_end c s @ replicate n c" ..
  show ?case
  proof (cases "x = c")
    case True
    with n have "s @ [x] = trim_end c (s @ [x]) @ replicate (Suc n) c"
      by (metis append_assoc replicate_Suc replicate_append_same trim_end_snoc)
    then show ?thesis ..
  next
    case False
    then have "s @ [x] = trim_end c (s @ [x]) @ replicate 0 c"
      by (simp add: trim_end_id)
    then show ?thesis ..
  qed
qed

lemma to_lower_trim_end: "to_lower (trim_end DOT s) = trim_end DOT (to_lower s)"
  by (induction s rule: rev_induct) (auto simp: trim_end_def)

lemma utf8_valid_trim_end: "utf8_valid s \<Longrightarrow> c < 0x80 \<Longrightarrow> utf8_valid (trim_end c s)"
proof -
  assume v: "utf8_valid s" and c: "c < 0x80"
  obtain n where n: "s = trim_end c s @ replicate n c"
    using trim_end_prefix by blast
  show ?thesis
  proof (cases n)
    case 0
    with n v show ?thesis by simp
  next
    case (Suc m)
    with n have "s = trim_end c s @ c # replicate m c" by simp
    with v c show ?thesis using utf8_valid_ascii_split by metis
  qed
qed

section \<open>White space\<close>

text \<open>
  \<open>char::is_whitespace\<close> is the Unicode property White_Space: the length of the white-space
  character the text starts with, 0 if it starts with another one or is empty.
\<close>

fun ws_prefix :: "rstr \<Rightarrow> nat" where
  "ws_prefix [] = 0"
| "ws_prefix (a # s) =
     (if 9 \<le> a \<and> a \<le> 13 \<or> a = 32 then 1
      else if a = 0xC2 then
        (case s of b # _ \<Rightarrow> if b = 0x85 \<or> b = 0xA0 then 2 else 0 | _ \<Rightarrow> 0)
      else if a = 0xE1 then
        (case s of b # c # _ \<Rightarrow> if b = 0x9A \<and> c = 0x80 then 3 else 0 | _ \<Rightarrow> 0)
      else if a = 0xE2 then
        (case s of b # c # _ \<Rightarrow>
           if b = 0x80 \<and> (0x80 \<le> c \<and> c \<le> 0x8A \<or> c = 0xA8 \<or> c = 0xA9 \<or> c = 0xAF) \<or>
              b = 0x81 \<and> c = 0x9F then 3 else 0 | _ \<Rightarrow> 0)
      else if a = 0xE3 then
        (case s of b # c # _ \<Rightarrow> if b = 0x80 \<and> c = 0x80 then 3 else 0 | _ \<Rightarrow> 0)
      else 0)"

declare ws_prefix.simps(2) [simp del]

definition ws_suffix :: "rstr \<Rightarrow> nat" where
  "ws_suffix s =
     (if 1 \<le> length s \<and> ws_prefix (drop (length s - 1) s) = 1 then 1
      else if 2 \<le> length s \<and> ws_prefix (drop (length s - 2) s) = 2 then 2
      else if 3 \<le> length s \<and> ws_prefix (drop (length s - 3) s) = 3 then 3
      else 0)"

text \<open>\<open>str::trim\<close>, and \<open>chars().filter(|c| !c.is_whitespace()).collect()\<close>.\<close>

function trim_start_ws :: "rstr \<Rightarrow> rstr" where
  "trim_start_ws s = (if 0 < ws_prefix s \<and> s \<noteq> [] then trim_start_ws (drop (ws_prefix s) s) else s)"
  by pat_completeness auto
termination
  by (relation "measure length") auto

function trim_end_ws :: "rstr \<Rightarrow> rstr" where
  "trim_end_ws s =
     (if 0 < ws_suffix s \<and> s \<noteq> [] then trim_end_ws (take (length s - ws_suffix s) s) else s)"
  by pat_completeness auto
termination
  by (relation "measure length") auto

declare trim_start_ws.simps [simp del] trim_end_ws.simps [simp del]

definition trim :: "rstr \<Rightarrow> rstr" where
  "trim s = trim_end_ws (trim_start_ws s)"

function remove_ws :: "rstr \<Rightarrow> rstr" where
  "remove_ws [] = []"
| "remove_ws (a # s) =
     (if 0 < ws_prefix (a # s) then remove_ws (drop (ws_prefix (a # s)) (a # s))
      else a # remove_ws s)"
  by pat_completeness auto
termination
  by (relation "measure length") (auto simp: less_Suc_eq_le)

text \<open>\<open>str::contains\<close> with a string pattern.\<close>

fun contains_str :: "rstr \<Rightarrow> rstr \<Rightarrow> bool" where
  "contains_str p [] \<longleftrightarrow> p = []"
| "contains_str p (x # s) \<longleftrightarrow> take (length p) (x # s) = p \<or> contains_str p s"

lemma ws_prefix_graphic: "33 \<le> a \<Longrightarrow> a < 0x80 \<Longrightarrow> ws_prefix (a # s) = 0"
  by (auto simp: ws_prefix.simps(2) word_order_nat)

lemma remove_ws_graphic: "\<forall>b \<in> set s. 33 \<le> b \<and> b < 0x80 \<Longrightarrow> remove_ws s = s"
  by (induction s) (auto simp: ws_prefix_graphic)

lemma trim_start_ws_graphic: "s = [] \<or> 33 \<le> hd s \<and> hd s < 0x80 \<Longrightarrow> trim_start_ws s = s"
  by (cases s) (auto simp: trim_start_ws.simps ws_prefix_graphic)

end
