(* ===== verification/Rust_Trim.thy ===== *)
theory Rust_Trim
  imports Rust_Str
begin

text \<open>
  Trimming and splitting keep texts UTF-8: a slice of a valid text that starts at the start of
  a character leaves two valid texts, and white space consists of whole characters.
\<close>

lemma utf8_valid_split:
  "utf8_valid (xs @ ys) \<Longrightarrow> ys = [] \<or> \<not> is_cont (hd ys) \<Longrightarrow> utf8_valid xs \<and> utf8_valid ys"
proof (induction "length xs" arbitrary: xs rule: less_induct)
  case less
  show ?case
  proof (cases "xs = []")
    case True
    with less.prems show ?thesis by simp
  next
    case False
    let ?n = "utf8_first (xs @ ys)"
    have n: "0 < ?n" and v: "utf8_valid (drop ?n (xs @ ys))"
      using less.prems(1) False utf8_valid_rest [of "xs @ ys"] by auto
    have le: "?n \<le> length xs"
    proof (rule ccontr)
      assume gt: "\<not> ?n \<le> length xs"
      then have "is_cont ((xs @ ys) ! length xs)"
        using utf8_first_tail [of "length xs" "xs @ ys"] False by simp
      moreover have "ys \<noteq> []" using gt utf8_first_le [of "xs @ ys"] by auto
      ultimately show False using less.prems(2) by (simp add: hd_conv_nth nth_append)
    qed
    then have "drop ?n (xs @ ys) = drop ?n xs @ ys" by simp
    moreover have "length (drop ?n xs) < length xs" using n False by simp
    ultimately have *: "utf8_valid (drop ?n xs) \<and> utf8_valid ys"
      using less.hyps [of "drop ?n xs"] v less.prems(2) by simp
    have "utf8_first xs = ?n" using utf8_first_prefix [of xs ys] le False by simp
    with * n False show ?thesis using utf8_valid_rest [of xs] by simp
  qed
qed

text \<open>A white-space prefix is the first character.\<close>

lemma ws_prefix_first:
  assumes "0 < ws_prefix s"
  shows "ws_prefix s = utf8_first s"
proof (cases s)
  case (Cons a t)
  from assms consider (ascii) "9 \<le> a \<and> a \<le> 13 \<or> a = 32"
    | (c2) b u where "a = 0xC2" "t = b # u" "b = 0x85 \<or> b = 0xA0"
    | (e1) u where "a = 0xE1" "t = 0x9A # 0x80 # u"
    | (e2) c u where "a = 0xE2" "t = 0x80 # c # u" "0x80 \<le> c \<and> c \<le> 0x8A \<or> c = 0xA8 \<or> c = 0xA9 \<or> c = 0xAF"
    | (e2') u where "a = 0xE2" "t = 0x81 # 0x9F # u"
    | (e3) u where "a = 0xE3" "t = 0x80 # 0x80 # u"
    unfolding Cons ws_prefix.simps(2) by (auto split: if_splits list.splits)
  then show ?thesis
  proof cases
    case ascii
    then have "a < 0x80" by (auto simp: word_order_nat)
    with ascii show ?thesis by (simp add: Cons ws_prefix.simps(2) utf8_first.simps(2))
  next
    case e2
    then have "is_cont c" by (auto simp: is_cont_def word_order_nat)
    with e2 show ?thesis
      by (simp add: Cons ws_prefix.simps(2) utf8_first.simps(2) utf8_second3_def is_cont_def)
  qed (auto simp: Cons ws_prefix.simps(2) utf8_first.simps(2) utf8_second3_def is_cont_def)
qed simp

lemma ws_prefix_le: "ws_prefix s \<le> length s"
  using ws_prefix_first [of s] utf8_first_le [of s] by (cases "ws_prefix s = 0") simp_all

lemma ws_prefix_hd: "0 < ws_prefix s \<Longrightarrow> s \<noteq> [] \<and> \<not> is_cont (hd s)"
  using ws_prefix_first [of s] utf8_first_head by (cases s) auto

lemma utf8_valid_trim_start: "utf8_valid s \<Longrightarrow> utf8_valid (trim_start_ws s)"
proof (induction s rule: trim_start_ws.induct)
  case (1 s)
  show ?case
  proof (cases "0 < ws_prefix s \<and> s \<noteq> []")
    case True
    then have "utf8_valid (drop (ws_prefix s) s)"
      using 1(2) utf8_valid_rest [of s] ws_prefix_first [of s] by simp
    with 1(1) True show ?thesis by (subst trim_start_ws.simps) simp
  next
    case False
    with 1(2) show ?thesis by (subst trim_start_ws.simps) (simp only: if_False)
  qed
qed

lemma ws_suffix_boundary:
  assumes "0 < ws_suffix s"
  shows "0 < ws_prefix (drop (length s - ws_suffix s) s)"
  using assms by (auto simp: ws_suffix_def split: if_splits)

lemma utf8_valid_trim_end_ws: "utf8_valid s \<Longrightarrow> utf8_valid (trim_end_ws s)"
proof (induction s rule: trim_end_ws.induct)
  case (1 s)
  show ?case
  proof (cases "0 < ws_suffix s \<and> s \<noteq> []")
    case True
    let ?k = "length s - ws_suffix s"
    have "utf8_valid (take ?k s)"
      using utf8_valid_split [of "take ?k s" "drop ?k s"] 1(2) True
        ws_prefix_hd [OF ws_suffix_boundary [of s]] by simp
    with 1(1) True show ?thesis by (subst trim_end_ws.simps) simp
  next
    case False
    with 1(2) show ?thesis by (subst trim_end_ws.simps) (simp only: if_False)
  qed
qed

lemma utf8_valid_trim: "utf8_valid s \<Longrightarrow> utf8_valid (trim s)"
  by (simp add: trim_def utf8_valid_trim_start utf8_valid_trim_end_ws)

lemma utf8_valid_split_on:
  "utf8_valid s \<Longrightarrow> c < 0x80 \<Longrightarrow> p \<in> set (split_on c s) \<Longrightarrow> utf8_valid p"
proof (induction "length s" arbitrary: s rule: less_induct)
  case less
  show ?case
  proof (cases "c \<in> set s")
    case False
    with less.prems show ?thesis by (simp add: split_on_no_sep)
  next
    case True
    then obtain xs ys where s: "s = xs @ c # ys" "c \<notin> set xs" by (metis split_list_first)
    with less.prems have v: "utf8_valid xs" "utf8_valid ys" using utf8_valid_ascii_split by blast+
    have "p = xs \<or> p \<in> set (split_on c ys)" using less.prems(3) s by (simp add: split_on_append)
    with v less.hyps [of ys] s(1) less.prems(2) show ?thesis by auto
  qed
qed

text \<open>Texts of graphic ASCII characters at both ends are not trimmed; blanks are.\<close>

definition graphic :: "byte \<Rightarrow> bool" where
  "graphic b \<longleftrightarrow> 33 \<le> b \<and> b < 0x80"

lemma ws_suffix_graphic:
  assumes "s \<noteq> []" and "graphic (last s)"
  shows "ws_suffix s = 0"
proof -
  obtain p l where s: "s = p @ [l]" using assms(1) by (metis append_butlast_last_id)
  have l: "33 \<le> l" "l < 0x80" using assms(2) by (simp_all add: s graphic_def)
  have 1: "ws_prefix [l] = 0" using l by (rule ws_prefix_graphic)
  have 2: "ws_prefix [a, l] \<noteq> 2" for a
    using l by (auto simp: ws_prefix.simps(2) word_order_nat)
  have 3: "ws_prefix [a, b, l] \<noteq> 3" for a b
    using l by (auto simp: ws_prefix.simps(2) word_order_nat)
  show ?thesis
  proof (rule ccontr)
    assume "ws_suffix s \<noteq> 0"
    then consider "ws_prefix (drop (length s - 1) s) = 1" | "2 \<le> length s" "ws_prefix (drop (length s - 2) s) = 2"
      | "3 \<le> length s" "ws_prefix (drop (length s - 3) s) = 3"
      by (auto simp: ws_suffix_def split: if_splits)
    then show False
    proof cases
      case 1
      with \<open>ws_prefix [l] = 0\<close> show False by (simp add: s)
    next
      case 2
      then obtain q a where "p = q @ [a]" by (cases p rule: rev_cases) (auto simp: s)
      with 2 \<open>\<And>a. ws_prefix [a, l] \<noteq> 2\<close> show False by (simp add: s)
    next
      case 3
      then obtain q a b where "p = q @ [a, b]"
        by (cases p rule: rev_cases; cases "butlast p" rule: rev_cases) (auto simp: s)
      with 3 \<open>\<And>a b. ws_prefix [a, b, l] \<noteq> 3\<close> show False by (simp add: s)
    qed
  qed
qed

lemma trim_graphic:
  assumes "s \<noteq> []" and "graphic (hd s)" and "graphic (last s)"
  shows "trim s = s" and "trim (32 # s) = s"
proof -
  have start: "trim_start_ws s = s"
    using assms(2) by (intro trim_start_ws_graphic) (simp add: graphic_def)
  have "trim_end_ws s = s"
    using ws_suffix_graphic [OF assms(1,3)] by (subst trim_end_ws.simps) simp
  moreover have "ws_prefix (32 # s) = 1" by (simp add: ws_prefix.simps(2))
  then have "trim_start_ws (32 # s) = trim_start_ws s" by (subst trim_start_ws.simps) simp
  ultimately show "trim s = s" and "trim (32 # s) = s" using start by (simp_all add: trim_def)
qed

end
