(* ===== verification/Rust_Num.thy ===== *)
theory Rust_Num
  imports Rust_Str
begin

text \<open>
  Digits and integers of Rust's standard library: \<open>char::to_digit\<close>, \<open>is_ascii_hexdigit\<close>,
  \<open>from_str_radix\<close> and \<open>FromStr\<close> of the unsigned integers (an optional plus sign, then
  digits accumulated with overflow checks), and the decimal \<open>Display\<close> of an integer.
\<close>

definition to_digit :: "nat \<Rightarrow> byte \<Rightarrow> nat option" where
  "to_digit radix c =
     (let n = unat c;
          d = (if 48 \<le> n \<and> n \<le> 57 then n - 48
               else if 97 \<le> n \<and> n \<le> 122 then n - 87
               else if 65 \<le> n \<and> n \<le> 90 then n - 55
               else radix)
      in if d < radix then Some d else None)"

definition is_ascii_hexdigit :: "byte \<Rightarrow> bool" where
  "is_ascii_hexdigit c \<longleftrightarrow>
     48 \<le> c \<and> c \<le> 57 \<or> 97 \<le> c \<and> c \<le> 102 \<or> 65 \<le> c \<and> c \<le> 70"

lemma to_digit_less: "to_digit r c = Some d \<Longrightarrow> d < r"
  by (auto simp: to_digit_def Let_def split: if_splits)

lemma is_ascii_hexdigit_iff: "is_ascii_hexdigit c \<longleftrightarrow> to_digit 16 c \<noteq> None"
  by (auto simp: is_ascii_hexdigit_def to_digit_def Let_def word_order_nat split: if_splits)

lemma is_ascii_hexdigit_ascii: "is_ascii_hexdigit c \<Longrightarrow> c < 0x80"
  by (auto simp: is_ascii_hexdigit_def word_order_nat)

text \<open>The digit loop of \<open>from_str_radix\<close>, for a type with largest value \<open>mx\<close>.\<close>

fun accum_digits :: "nat \<Rightarrow> nat \<Rightarrow> nat \<Rightarrow> rstr \<Rightarrow> nat option" where
  "accum_digits radix mx acc [] = Some acc"
| "accum_digits radix mx acc (c # cs) =
     (case to_digit radix c of
        None \<Rightarrow> None
      | Some d \<Rightarrow>
          if mx < acc * radix then None
          else if mx < acc * radix + d then None
          else accum_digits radix mx (acc * radix + d) cs)"

definition from_str_radix :: "nat \<Rightarrow> nat \<Rightarrow> rstr \<Rightarrow> nat option" where
  "from_str_radix mx radix s =
     (case s of
        [] \<Rightarrow> None
      | c # cs \<Rightarrow>
          if c = PLUS then (if cs = [] then None else accum_digits radix mx 0 cs)
          else accum_digits radix mx 0 (c # cs))"

text \<open>\<open>str::parse::<u8>\<close>, \<open>::<u32>\<close> and \<open>::<u64>\<close>.\<close>

definition parse_u8 :: "rstr \<Rightarrow> nat option" where
  "parse_u8 s = from_str_radix 255 10 s"

definition parse_u32 :: "rstr \<Rightarrow> nat option" where
  "parse_u32 s = from_str_radix (2 ^ 32 - 1) 10 s"

definition parse_u64 :: "rstr \<Rightarrow> nat option" where
  "parse_u64 s = from_str_radix (2 ^ 64 - 1) 10 s"

text \<open>\<open>format!("{n}")\<close> in decimal, and a digit of a radix up to 16 in lower case.\<close>

definition digit_char :: "nat \<Rightarrow> byte" where
  "digit_char d = (if d < 10 then of_nat (48 + d) else of_nat (87 + d))"

fun show_radix :: "nat \<Rightarrow> nat \<Rightarrow> rstr" where
  "show_radix r n =
     (if n < r \<or> r < 2 then [digit_char n] else show_radix r (n div r) @ [digit_char (n mod r)])"

declare show_radix.simps [simp del]

definition show_nat :: "nat \<Rightarrow> rstr" where
  "show_nat n = show_radix 10 n"

lemma unat_digit_char: "d < 16 \<Longrightarrow> unat (digit_char d) = (if d < 10 then 48 + d else 87 + d)"
  by (simp add: digit_char_def unat_of_nat take_bit_nat_eq_self del: of_nat_add)

lemma to_digit_digit_char [simp]: "d < r \<Longrightarrow> r \<le> 16 \<Longrightarrow> to_digit r (digit_char d) = Some d"
  by (simp add: to_digit_def Let_def unat_digit_char)

lemma digit_char_not_sep:
  assumes "d < 16"
  shows "digit_char d \<noteq> DOT" "digit_char d \<noteq> HYPHEN" "digit_char d \<noteq> COLON" "digit_char d \<noteq> PLUS"
    "digit_char d < 0x80"
  using assms by (auto simp: word_unat_eq_iff word_order_nat unat_digit_char)

lemma accum_digits_append:
  "accum_digits r mx a (s @ t) =
     (case accum_digits r mx a s of None \<Rightarrow> None | Some b \<Rightarrow> accum_digits r mx b t)"
  by (induction s arbitrary: a) (auto split: option.splits)

lemma show_radix_not_Nil [simp]: "show_radix r n \<noteq> []"
  by (subst show_radix.simps) simp

lemma show_radix_small: "n < r \<Longrightarrow> show_radix r n = [digit_char n]"
  by (simp add: show_radix.simps)

lemma show_radix_big:
  "2 \<le> r \<Longrightarrow> r \<le> n \<Longrightarrow> show_radix r n = show_radix r (n div r) @ [digit_char (n mod r)]"
  by (subst show_radix.simps) simp

lemma accum_digits_show_radix:
  assumes "2 \<le> r" and "r \<le> 16"
  shows "n \<le> mx \<Longrightarrow> accum_digits r mx 0 (show_radix r n) = Some n"
proof (induction n rule: less_induct)
  case (less n)
  show ?case
  proof (cases "n < r")
    case True
    with less.prems assms show ?thesis by (simp add: show_radix_small)
  next
    case False
    have "n div r < n" using False assms by (simp add: div_less_dividend)
    moreover have "n div r \<le> mx" using less.prems by (meson div_le_dividend le_trans)
    ultimately have IH: "accum_digits r mx 0 (show_radix r (n div r)) = Some (n div r)"
      using less.IH by blast
    have "n div r * r \<le> mx" using less.prems by (meson div_times_less_eq_dividend le_trans)
    with IH False assms less.prems show ?thesis
      by (simp add: show_radix_big accum_digits_append)
  qed
qed

lemma show_radix_digits:
  assumes "2 \<le> r"
  shows "b \<in> set (show_radix r n) \<Longrightarrow> \<exists>d < r. b = digit_char d"
proof (induction n rule: less_induct)
  case (less n)
  show ?case
  proof (cases "n < r")
    case True
    with less.prems show ?thesis by (auto simp: show_radix_small)
  next
    case False
    with less.prems assms
    consider "b \<in> set (show_radix r (n div r))" | "b = digit_char (n mod r)"
      by (auto simp: show_radix_big)
    then show ?thesis
    proof cases
      case 1
      moreover have "n div r < n" using False assms by (simp add: div_less_dividend)
      ultimately show ?thesis using less.IH by blast
    next
      case 2
      moreover have "n mod r < r" using assms by simp
      ultimately show ?thesis by blast
    qed
  qed
qed

lemma show_radix_sep_free:
  assumes "2 \<le> r" and "r \<le> 16" and "b \<in> set (show_radix r n)"
  shows "b \<noteq> DOT" "b \<noteq> HYPHEN" "b \<noteq> COLON" "b \<noteq> PLUS" "b < 0x80"
  using show_radix_digits [OF assms(1,3)] digit_char_not_sep assms(2)
  by (meson less_le_trans)+

lemma length_show_radix_le:
  assumes "2 \<le> r"
  shows "n < r ^ k \<Longrightarrow> 0 < k \<Longrightarrow> length (show_radix r n) \<le> k"
proof (induction k arbitrary: n)
  case (Suc k)
  show ?case
  proof (cases "n < r")
    case True
    then show ?thesis by (simp add: show_radix_small)
  next
    case False
    then have k: "0 < k" using Suc.prems by (cases k) auto
    have "n div r < r ^ k"
      using Suc.prems assms by (simp add: less_mult_imp_div_less mult.commute)
    with Suc.IH k have "length (show_radix r (n div r)) \<le> k" by blast
    with False assms show ?thesis by (simp add: show_radix_big)
  qed
qed simp

lemma digit_char_inj: "d < 16 \<Longrightarrow> e < 16 \<Longrightarrow> digit_char d = digit_char e \<longleftrightarrow> d = e"
  by (metis order_refl option.inject to_digit_digit_char)

text \<open>A number is printed with a leading zero only when it is zero.\<close>

lemma hd_show_radix:
  assumes "2 \<le> r" and "r \<le> 16"
  shows "hd (show_radix r n) = digit_char 0 \<longleftrightarrow> n = 0"
proof (induction n rule: less_induct)
  case (less n)
  show ?case
  proof (cases "n < r")
    case True
    with assms show ?thesis by (auto simp: show_radix_small digit_char_inj)
  next
    case False
    then have "n div r < n" and "n div r \<noteq> 0" and "n \<noteq> 0"
      using assms by (auto simp: div_less_dividend div_eq_0_iff)
    with less.IH [of "n div r"] False assms show ?thesis
      by (simp add: show_radix_big)
  qed
qed

lemma from_str_radix_show:
  assumes "2 \<le> r" and "r \<le> 16" and "n \<le> mx"
  shows "from_str_radix mx r (show_radix r n) = Some n"
proof -
  obtain c cs where c: "show_radix r n = c # cs"
    by (cases "show_radix r n") auto
  have "c \<noteq> PLUS"
    using show_radix_sep_free(4) [OF assms(1,2), of c n] c by simp
  with c accum_digits_show_radix [OF assms] show ?thesis
    by (simp add: from_str_radix_def)
qed

lemma parse_u8_show_nat: "n < 256 \<Longrightarrow> parse_u8 (show_nat n) = Some n"
  by (simp add: parse_u8_def show_nat_def from_str_radix_show)

text \<open>\<open>parse\<close> never returns a value the type cannot hold.\<close>

lemma accum_digits_bound: "accum_digits r mx a s = Some n \<Longrightarrow> a \<le> mx \<Longrightarrow> n \<le> mx"
  by (induction s arbitrary: a) (auto split: option.splits if_splits)

lemma from_str_radix_bound: "from_str_radix mx r s = Some n \<Longrightarrow> n \<le> mx"
  using accum_digits_bound
  by (fastforce simp: from_str_radix_def simp del: accum_digits.simps split: list.splits if_splits)

lemma parse_u8_bound: "parse_u8 s = Some n \<Longrightarrow> n < 256"
  unfolding parse_u8_def by (drule from_str_radix_bound) simp

end
