(* ===== verification/Net_Addr.thy ===== *)
theory Net_Addr
  imports Rust_Num
begin

text \<open>
  \<open>std::net::Ipv4Addr\<close> and \<open>Ipv6Addr\<close>: the values, their octets, their textual forms, and the
  parser behind \<open>FromStr\<close>.  The library's parser restores its input whenever a step fails
  (\<open>read_atomically\<close>), so a step is a function from the remaining input to \<open>None\<close>, or to its
  value and what is left.  Decimal octets have at most three digits and no leading zero;
  hexadecimal groups have at most four digits; one \<open>::\<close> stands for at least one group.
\<close>

datatype ipv4 = Ipv4 byte byte byte byte

datatype ipv6 = Ipv6 u16 u16 u16 u16 u16 u16 u16 u16

fun octets4 :: "ipv4 \<Rightarrow> bytes" where
  "octets4 (Ipv4 a b c d) = [a, b, c, d]"

fun segments :: "ipv6 \<Rightarrow> u16 list" where
  "segments (Ipv6 a b c d e f g h) = [a, b, c, d, e, f, g, h]"

definition octets6 :: "ipv6 \<Rightarrow> bytes" where
  "octets6 ip = concat (map be16 (segments ip))"

definition ipv6_of_segments :: "u16 list \<Rightarrow> ipv6" where
  "ipv6_of_segments s = Ipv6 (s ! 0) (s ! 1) (s ! 2) (s ! 3) (s ! 4) (s ! 5) (s ! 6) (s ! 7)"

lemma length_octets4 [simp]: "length (octets4 ip) = 4"
  by (cases ip) simp

lemma length_octets6 [simp]: "length (octets6 ip) = 16"
  by (cases ip) (simp add: octets6_def)

lemma octets4_inject [simp]: "octets4 a = octets4 b \<longleftrightarrow> a = b"
  by (cases a; cases b) simp

lemma segments_inject [simp]: "segments a = segments b \<longleftrightarrow> a = b"
  by (cases a; cases b) simp

lemma octets6_inject [simp]: "octets6 a = octets6 b \<longleftrightarrow> a = b"
  by (cases a; cases b) (auto simp: octets6_def be16_inj append_eq_append_conv)

lemma ipv6_of_segments_segments [simp]: "ipv6_of_segments (segments ip) = ip"
  by (cases ip) (simp add: ipv6_of_segments_def)

section \<open>Parser steps\<close>

fun read_given_char :: "byte \<Rightarrow> bytes \<Rightarrow> bytes option" where
  "read_given_char c [] = None"
| "read_given_char c (x # s) = (if x = c then Some s else None)"

definition read_separator :: "byte \<Rightarrow> nat \<Rightarrow> (bytes \<Rightarrow> ('a \<times> bytes) option) \<Rightarrow> bytes \<Rightarrow> ('a \<times> bytes) option" where
  "read_separator sep i inner s =
     (if 0 < i then (case read_given_char sep s of None \<Rightarrow> None | Some s' \<Rightarrow> inner s')
      else inner s)"

fun read_digits :: "nat \<Rightarrow> nat \<Rightarrow> nat \<Rightarrow> nat \<Rightarrow> bytes \<Rightarrow> (nat \<times> nat \<times> bytes) option" where
  "read_digits radix maxd v n [] = Some (v, n, [])"
| "read_digits radix maxd v n (c # s) =
     (case to_digit radix c of
        None \<Rightarrow> Some (v, n, c # s)
      | Some d \<Rightarrow> if maxd < n + 1 then None else read_digits radix maxd (v * radix + d) (n + 1) s)"

definition read_number :: "nat \<Rightarrow> nat \<Rightarrow> bool \<Rightarrow> nat \<Rightarrow> bytes \<Rightarrow> (nat \<times> bytes) option" where
  "read_number radix maxd allow_zero_prefix lim s =
     (case read_digits radix maxd 0 0 s of
        None \<Rightarrow> None
      | Some (v, n, rest) \<Rightarrow>
          if n = 0 then None
          else if \<not> allow_zero_prefix \<and> hd s = digit_char 0 \<and> 1 < n then None
          else if lim < v then None
          else Some (v, rest))"

definition read_octet :: "bytes \<Rightarrow> (nat \<times> bytes) option" where
  "read_octet = read_number 10 3 False 255"

definition read_group :: "bytes \<Rightarrow> (nat \<times> bytes) option" where
  "read_group = read_number 16 4 True 65535"

definition read_ipv4_addr :: "bytes \<Rightarrow> (ipv4 \<times> bytes) option" where
  "read_ipv4_addr s0 = do {
     (a, s1) \<leftarrow> read_separator DOT 0 read_octet s0;
     (b, s2) \<leftarrow> read_separator DOT 1 read_octet s1;
     (c, s3) \<leftarrow> read_separator DOT 2 read_octet s2;
     (d, s4) \<leftarrow> read_separator DOT 3 read_octet s3;
     Some (Ipv4 (of_nat a) (of_nat b) (of_nat c) (of_nat d), s4)
   }"

text \<open>
  \<open>read_groups\<close> with \<open>n\<close> groups left, the next one having index \<open>i\<close>: the groups read, whether
  the last two came from an embedded IPv4 address, and the rest.
\<close>

fun read_groups :: "nat \<Rightarrow> nat \<Rightarrow> bytes \<Rightarrow> u16 list \<times> bool \<times> bytes" where
  "read_groups 0 i s = ([], False, s)"
| "read_groups (Suc n) i s =
     (case (if 0 < n then read_separator COLON i read_ipv4_addr s else None) of
        Some (Ipv4 a b c d, s') \<Rightarrow> ([of_be16 a b, of_be16 c d], True, s')
      | None \<Rightarrow>
          (case read_separator COLON i read_group s of
             None \<Rightarrow> ([], False, s)
           | Some (g, s') \<Rightarrow>
               (case read_groups n (Suc i) s' of
                  (gs, v4, s'') \<Rightarrow> (of_nat g # gs, v4, s''))))"

definition read_ipv6_addr :: "bytes \<Rightarrow> (ipv6 \<times> bytes) option" where
  "read_ipv6_addr s =
     (case read_groups 8 0 s of
        (head, head_v4, s1) \<Rightarrow>
          if length head = 8 then Some (ipv6_of_segments head, s1)
          else if head_v4 then None
          else do {
            s2 \<leftarrow> read_given_char COLON s1;
            s3 \<leftarrow> read_given_char COLON s2;
            (case read_groups (8 - (length head + 1)) 0 s3 of
               (tail, _, s4) \<Rightarrow>
                 Some (ipv6_of_segments
                         (head @ replicate (8 - length head - length tail) 0 @ tail), s4))
          })"

text \<open>\<open>FromStr\<close>: the whole input is consumed; an IPv4 text has at most 15 bytes.\<close>

definition ipv4_from_str :: "rstr \<Rightarrow> ipv4 option" where
  "ipv4_from_str s =
     (if 15 < length s then None
      else case read_ipv4_addr s of Some (ip, []) \<Rightarrow> Some ip | _ \<Rightarrow> None)"

definition ipv6_from_str :: "rstr \<Rightarrow> ipv6 option" where
  "ipv6_from_str s = (case read_ipv6_addr s of Some (ip, []) \<Rightarrow> Some ip | _ \<Rightarrow> None)"

text \<open>\<open>Display\<close> of an IPv4 address, and the groups of an IPv6 address in hexadecimal.\<close>

definition show_ipv4 :: "ipv4 \<Rightarrow> rstr" where
  "show_ipv4 ip = join_with [DOT] (map (show_nat \<circ> unat) (octets4 ip))"

definition show_group :: "u16 \<Rightarrow> rstr" where
  "show_group g = show_radix 16 (unat g)"

section \<open>Numbers\<close>

definition radix_val :: "nat \<Rightarrow> nat \<Rightarrow> nat list \<Rightarrow> nat" where
  "radix_val r a ds = foldl (\<lambda>a d. a * r + d) a ds"

lemma read_digits_Some:
  "read_digits r m v n s = Some (v', n', t) \<Longrightarrow>
     \<exists>us ds. s = us @ t \<and> map (to_digit r) us = map Some ds \<and>
       n' = n + length ds \<and> v' = radix_val r v ds \<and> (t = [] \<or> to_digit r (hd t) = None)"
proof (induction r m v n s rule: read_digits.induct)
  case (1 r m v n)
  then show ?case by (auto simp: radix_val_def)
next
  case (2 r m v n c s)
  show ?case
  proof (cases "to_digit r c")
    case None
    with "2.prems" show ?thesis by (auto simp: radix_val_def)
  next
    case (Some d)
    with "2.prems" have "\<not> m < n + 1"
      and "read_digits r m (v * r + d) (n + 1) s = Some (v', n', t)"
      by (auto split: if_splits)
    with "2.IH" [OF Some] obtain us ds where
      "s = us @ t" "map (to_digit r) us = map Some ds" "n' = n + 1 + length ds"
      "v' = radix_val r (v * r + d) ds" "t = [] \<or> to_digit r (hd t) = None"
      by blast
    with Some have "c # s = (c # us) @ t \<and> map (to_digit r) (c # us) = map Some (d # ds) \<and>
        n' = n + length (d # ds) \<and> v' = radix_val r v (d # ds) \<and>
        (t = [] \<or> to_digit r (hd t) = None)"
      by (simp add: radix_val_def)
    then show ?thesis by blast
  qed
qed

lemma read_digits_run:
  "map (to_digit r) us = map Some ds \<Longrightarrow> t = [] \<or> to_digit r (hd t) = None \<Longrightarrow>
   n + length ds \<le> m \<Longrightarrow>
     read_digits r m v n (us @ t) = Some (radix_val r v ds, n + length ds, t)"
proof (induction us arbitrary: ds v n)
  case Nil
  then show ?case by (cases t) (auto simp: radix_val_def)
next
  case (Cons u us)
  then obtain d es where ds: "ds = d # es" "to_digit r u = Some d" "map (to_digit r) us = map Some es"
    by auto
  with Cons.IH [of es "n + 1" "v * r + d"] Cons.prems show ?case
    by (simp add: radix_val_def)
qed

lemma show_radix_val:
  assumes "2 \<le> r" and "r \<le> 16"
  shows "ds \<noteq> [] \<Longrightarrow> \<forall>d \<in> set ds. d < r \<Longrightarrow> hd ds \<noteq> 0 \<or> length ds = 1 \<Longrightarrow>
    show_radix r (radix_val r 0 ds) = map digit_char ds \<and> (radix_val r 0 ds = 0 \<longrightarrow> ds = [0])"
proof (induction ds rule: rev_induct)
  case (snoc d ds)
  show ?case
  proof (cases "ds = []")
    case True
    with snoc.prems show ?thesis by (simp add: radix_val_def show_radix_small)
  next
    case False
    with snoc have IH: "show_radix r (radix_val r 0 ds) = map digit_char ds"
      and nz: "radix_val r 0 ds \<noteq> 0"
      by auto
    have v: "radix_val r 0 (ds @ [d]) = radix_val r 0 ds * r + d"
      by (simp add: radix_val_def)
    have ge: "r \<le> radix_val r 0 ds * r + d" using nz by (simp add: trans_le_add1)
    have "show_radix r (radix_val r 0 (ds @ [d])) =
        show_radix r (radix_val r 0 ds) @ [digit_char d]"
      using show_radix_big [OF assms(1) ge] snoc.prems v assms by simp
    with IH nz v assms show ?thesis by simp
  qed
qed simp

text \<open>A decimal octet is read exactly when it is the decimal text of its value.\<close>

abbreviation no_digit :: "nat \<Rightarrow> bytes \<Rightarrow> bool" where
  "no_digit r t \<equiv> t = [] \<or> to_digit r (hd t) = None"

lemma to_digit_10: "to_digit 10 c = Some d \<Longrightarrow> c = digit_char d"
  by (auto simp: to_digit_def Let_def digit_char_def word_unat_eq_iff unat_of_nat
      take_bit_nat_eq_self simp del: of_nat_add split: if_splits)

lemma to_digits_10: "map (to_digit 10) us = map Some ds \<Longrightarrow> us = map digit_char ds"
  by (induction us arbitrary: ds) (auto simp: to_digit_10 Cons_eq_map_conv)

lemma to_digits_less: "map (to_digit r) us = map Some ds \<Longrightarrow> \<forall>d \<in> set ds. d < r"
  by (induction us arbitrary: ds) (auto simp: Cons_eq_map_conv dest: to_digit_less)

lemma show_radix_ds:
  assumes "2 \<le> r" and "r \<le> 16"
  shows "\<exists>ds. show_radix r n = map digit_char ds \<and> map (to_digit r) (show_radix r n) = map Some ds
    \<and> radix_val r 0 ds = n"
proof (induction n rule: less_induct)
  case (less n)
  show ?case
  proof (cases "n < r")
    case True
    with assms show ?thesis
      by (intro exI [of _ "[n]"]) (simp add: show_radix_small radix_val_def)
  next
    case False
    then have "n div r < n" using assms by (simp add: div_less_dividend)
    from less.IH [OF this] obtain ds where ds: "show_radix r (n div r) = map digit_char ds"
      "map (to_digit r) (show_radix r (n div r)) = map Some ds" "radix_val r 0 ds = n div r"
      by blast
    have "n mod r < r" using assms by simp
    with ds assms False show ?thesis
      by (intro exI [of _ "ds @ [n mod r]"]) (simp add: show_radix_big radix_val_def)
  qed
qed

lemma read_number_show:
  assumes "2 \<le> r" and "r \<le> 16" and "n < r ^ k" and "n \<le> lim" and "0 < k" and "no_digit r t"
  shows "read_number r k z lim (show_radix r n @ t) = Some (n, t)"
proof -
  obtain ds where ds: "show_radix r n = map digit_char ds"
    "map (to_digit r) (show_radix r n) = map Some ds" "radix_val r 0 ds = n"
    using show_radix_ds [OF assms(1,2)] by blast
  have len: "length ds \<le> k"
    using length_show_radix_le [OF assms(1,3,5)] ds(1) by simp
  have ne: "ds \<noteq> []" using ds(1) by (metis list.map_disc_iff show_radix_not_Nil)
  have rd: "read_digits r k 0 0 (show_radix r n @ t) = Some (n, length ds, t)"
    using read_digits_run [OF ds(2) assms(6), of 0 k 0] len ds(3) by simp
  have zero: "length ds = 1" if "hd (show_radix r n @ t) = digit_char 0"
  proof -
    have "n = 0" using that hd_show_radix [OF assms(1,2)] by simp
    then show ?thesis using ds(1) assms(1) by (cases ds) (auto simp: show_radix_small)
  qed
  show ?thesis
    using rd ne assms(4) zero by (auto simp: read_number_def)
qed

lemma read_octet_show:
  "n < 256 \<Longrightarrow> no_digit 10 t \<Longrightarrow> read_octet (show_nat n @ t) = Some (n, t)"
  unfolding read_octet_def show_nat_def by (rule read_number_show) auto

lemma read_group_show:
  "no_digit 16 t \<Longrightarrow> read_group (show_group g @ t) = Some (unat g, t)"
  unfolding read_group_def show_group_def
  by (rule read_number_show) auto

lemma read_octet_Some:
  assumes "read_octet s = Some (n, t)"
  shows "n < 256 \<and> s = show_nat n @ t \<and> no_digit 10 t"
proof -
  from assms obtain k where rd: "read_digits 10 3 0 0 s = Some (n, k, t)"
    and k: "k \<noteq> 0" "\<not> (hd s = digit_char 0 \<and> 1 < k)" "n \<le> 255"
    by (auto simp: read_octet_def read_number_def split: option.splits if_splits)
  from read_digits_Some [OF rd] obtain us ds where
    us: "s = us @ t" "map (to_digit 10) us = map Some ds" "k = length ds"
    "n = radix_val 10 0 ds" "no_digit 10 t"
    by auto
  have "us = map digit_char ds" using us(2) by (rule to_digits_10)
  moreover have ne: "ds \<noteq> []" using us(3) k(1) by auto
  moreover have lt: "\<forall>d \<in> set ds. d < 10" using us(2) by (rule to_digits_less)
  moreover have "hd ds \<noteq> 0 \<or> length ds = 1"
  proof (rule ccontr)
    assume "\<not> ?thesis"
    then have "hd s = digit_char 0 \<and> 1 < k"
      using us(1,3) ne \<open>us = map digit_char ds\<close> by (cases ds) auto
    with k(2) show False by blast
  qed
  ultimately have "show_nat n = us"
    using show_radix_val [of 10 ds] us(4) by (simp add: show_nat_def)
  with us k(3) show ?thesis by simp
qed

section \<open>IPv4 text\<close>

lemma no_digit_DOT [simp]: "to_digit 10 DOT = None" "to_digit 16 DOT = None"
  by (simp_all add: to_digit_def)

lemma no_digit_COLON [simp]: "to_digit 10 COLON = None" "to_digit 16 COLON = None"
  by (simp_all add: to_digit_def)

lemma read_given_char_Some: "read_given_char c s = Some s' \<longleftrightarrow> s = c # s'"
  by (cases s) auto

lemma read_ipv4_addr_Some:
  assumes "read_ipv4_addr s = Some (ip, t)"
  shows "s = show_ipv4 ip @ t"
proof -
  from assms obtain a b c d s1 s2 s3 where
    r: "read_octet s = Some (a, DOT # s1)" "read_octet s1 = Some (b, DOT # s2)"
    "read_octet s2 = Some (c, DOT # s3)" "read_octet s3 = Some (d, t)"
    and ip: "ip = Ipv4 (of_nat a) (of_nat b) (of_nat c) (of_nat d)"
    by (auto simp: read_ipv4_addr_def read_separator_def read_given_char_Some
        split: Option.bind_splits option.splits)
  from r [THEN read_octet_Some] ip show ?thesis
    by (auto simp: show_ipv4_def unat_of_nat take_bit_nat_eq_self)
qed

lemma read_ipv4_addr_show:
  "no_digit 10 t \<Longrightarrow> read_ipv4_addr (show_ipv4 ip @ t) = Some (ip, t)"
  by (cases ip) (simp add: read_ipv4_addr_def read_separator_def show_ipv4_def read_octet_show)

lemma length_show_octet: "length (show_nat (unat (b :: byte))) \<le> 3"
  unfolding show_nat_def by (rule length_show_radix_le) (auto intro: less_trans [OF unat_byte_less])

lemma length_show_ipv4: "length (show_ipv4 ip) \<le> 15"
  using length_show_octet [of "octets4 ip ! 0"] length_show_octet [of "octets4 ip ! 1"]
    length_show_octet [of "octets4 ip ! 2"] length_show_octet [of "octets4 ip ! 3"]
  by (cases ip) (simp add: show_ipv4_def)

text \<open>An IPv4 text is accepted exactly when it is the canonical text of the address.\<close>

lemma ipv4_from_str_iff: "ipv4_from_str s = Some ip \<longleftrightarrow> s = show_ipv4 ip"
proof
  assume "ipv4_from_str s = Some ip"
  then have "read_ipv4_addr s = Some (ip, [])"
    by (auto simp: ipv4_from_str_def split: if_splits option.splits list.splits)
  then show "s = show_ipv4 ip" using read_ipv4_addr_Some by fastforce
next
  assume "s = show_ipv4 ip"
  then show "ipv4_from_str s = Some ip"
    using length_show_ipv4 [of ip] read_ipv4_addr_show [of "[]" ip]
    by (simp add: ipv4_from_str_def)
qed

lemma ipv4_from_str_show [simp]: "ipv4_from_str (show_ipv4 ip) = Some ip"
  by (simp add: ipv4_from_str_iff)

section \<open>IPv6 text\<close>

lemma DOT_in_show_ipv4: "DOT \<in> set (show_ipv4 ip)"
  by (cases ip) (simp add: show_ipv4_def)

lemma read_ipv4_addr_no_DOT: "DOT \<notin> set s \<Longrightarrow> read_ipv4_addr s = None"
  using read_ipv4_addr_Some DOT_in_show_ipv4
  by (metis UnCI not_None_eq set_append surj_pair)

lemma read_separator_ipv4_no_DOT: "DOT \<notin> set s \<Longrightarrow> read_separator COLON i read_ipv4_addr s = None"
  by (auto simp: read_separator_def read_given_char_Some read_ipv4_addr_no_DOT split: option.splits)

lemma read_group_none: "no_digit 16 t \<Longrightarrow> read_group t = None"
  by (cases t) (auto simp: read_group_def read_number_def)

fun sep_groups :: "nat \<Rightarrow> u16 list \<Rightarrow> rstr" where
  "sep_groups i [] = []"
| "sep_groups i (g # gs) = (if 0 < i then [COLON] else []) @ show_group g @ sep_groups (Suc i) gs"

lemma sep_groups_Suc: "gs \<noteq> [] \<Longrightarrow> sep_groups (Suc i) gs = COLON # join_with [COLON] (map show_group gs)"
proof (induction gs arbitrary: i)
  case (Cons g gs)
  then show ?case by (cases gs) auto
qed simp

lemma sep_groups_0: "sep_groups 0 gs = join_with [COLON] (map show_group gs)"
proof (cases gs)
  case (Cons g gs')
  then show ?thesis by (cases "gs' = []") (simp_all add: sep_groups_Suc join_with_Cons)
qed simp

lemma show_group_no_DOT [simp]: "DOT \<notin> set (show_group g)"
  using show_radix_sep_free(1) [of 16 DOT "unat g"] by (auto simp: show_group_def)

lemma sep_groups_no_DOT [simp]: "DOT \<notin> set (sep_groups i gs)"
  by (induction gs arbitrary: i) auto

lemma read_groups_run:
  "DOT \<notin> set t \<Longrightarrow> no_digit 16 t \<Longrightarrow> length gs \<le> n \<Longrightarrow>
   length gs = n \<or> read_separator COLON (i + length gs) read_group t = None \<Longrightarrow>
     read_groups n i (sep_groups i gs @ t) = (gs, False, t)"
proof (induction gs arbitrary: n i)
  case Nil
  then show ?case
    by (cases n) (auto simp: read_separator_ipv4_no_DOT)
next
  case (Cons g gs)
  then obtain m where n: "n = Suc m" by (cases n) auto
  let ?rest = "sep_groups (Suc i) gs @ t"
  have IH: "read_groups m (Suc i) ?rest = (gs, False, t)"
    using Cons n by (intro Cons.IH) auto
  have v4: "read_separator COLON i read_ipv4_addr (sep_groups i (g # gs) @ t) = None"
    using Cons.prems(1) by (intro read_separator_ipv4_no_DOT) auto
  have "no_digit 16 ?rest"
    using Cons.prems(2) by (cases gs) auto
  then have "read_separator COLON i read_group (sep_groups i (g # gs) @ t) = Some (unat g, ?rest)"
    using read_group_show [of ?rest g] by (cases "i = 0") (simp_all add: read_separator_def)
  with IH v4 n Cons.prems(3) show ?case by (cases m) simp_all
qed

text \<open>The full form: eight groups.\<close>

lemma ipv6_from_str_full: "ipv6_from_str (join_with [COLON] (map show_group (segments ip))) = Some ip"
proof -
  have "length (segments ip) = 8" by (cases ip) simp
  then have "read_groups 8 0 (sep_groups 0 (segments ip) @ []) = (segments ip, False, [])"
    by (intro read_groups_run) auto
  then show ?thesis
    using \<open>length (segments ip) = 8\<close>
    by (simp add: ipv6_from_str_def read_ipv6_addr_def sep_groups_0)
qed

text \<open>The compressed form: \<open>::\<close> between at most seven groups.\<close>

definition compressed6 :: "u16 list \<Rightarrow> u16 list \<Rightarrow> rstr" where
  "compressed6 hs ts =
     join_with [COLON] (map show_group hs) @ [COLON, COLON] @ join_with [COLON] (map show_group ts)"

lemma ipv6_from_str_compressed:
  assumes "length hs + length ts \<le> 7"
  shows "ipv6_from_str (compressed6 hs ts) =
    Some (ipv6_of_segments (hs @ replicate (8 - length hs - length ts) 0 @ ts))"
proof -
  let ?t = "COLON # COLON # sep_groups 0 ts"
  have "read_groups 8 0 (sep_groups 0 hs @ ?t) = (hs, False, ?t)"
    using assms by (intro read_groups_run) (auto simp: read_separator_def read_group_none)
  moreover have "read_groups (8 - (length hs + 1)) 0 (sep_groups 0 ts @ []) = (ts, False, [])"
    using assms by (intro read_groups_run) (auto simp: read_separator_def read_group_none)
  ultimately show ?thesis
    using assms
    by (simp add: ipv6_from_str_def read_ipv6_addr_def compressed6_def sep_groups_0)
qed

end
