(* ===== verification/Ip_Parser.thy ===== *)
theory Ip_Parser
  imports Net_Addr
begin

text \<open>
  \<open>src/dns/ip_parser.rs\<close>: the extraction of an IPv4 and an IPv6 address from the labels of a
  host name.  The functions are translated with their loops and slices; then each is shown to
  return, for every input, the value of a declarative specification (the first label, or the
  first window of four labels, that spells an address), and the README's formats are proved to
  be recognised for every address.
\<close>

section \<open>The program\<close>

text \<open>The loop over the octets: \<open>out[i] = u8::from_str_radix(&s[2*i..2*i+2], 16)?\<close>.\<close>

fun hex_octet_loop :: "rstr \<Rightarrow> nat \<Rightarrow> nat \<Rightarrow> bytes \<Rightarrow> bytes option exec" where
  "hex_octet_loop s i 0 out = ret (Some out)"
| "hex_octet_loop s i (Suc k) out = do {
     h \<leftarrow> str_slice s (2 * i) (2 * i + 2);
     (case from_str_radix 255 16 h of
        None \<Rightarrow> ret None
      | Some v \<Rightarrow> do {
          out' \<leftarrow> upd out i (of_nat v);
          hex_octet_loop s (Suc i) k out'
        })
   }"

definition parse_hexadecimal_ip :: "rstr \<Rightarrow> ipv4 option exec" where
  "parse_hexadecimal_ip s =
     (if length s \<noteq> 8 then ret None
      else if \<not> list_all is_ascii_hexdigit s then ret None
      else do {
        r \<leftarrow> hex_octet_loop s 0 4 (replicate 4 0);
        (case r of
           None \<Rightarrow> ret None
         | Some octets \<Rightarrow> do {
             a \<leftarrow> idx octets 0;
             b \<leftarrow> idx octets 1;
             c \<leftarrow> idx octets 2;
             d \<leftarrow> idx octets 3;
             ret (Some (Ipv4 a b c d))
           })
      })"

definition parse_hyphenated_ip :: "rstr \<Rightarrow> ipv4 option exec" where
  "parse_hyphenated_ip s = (
     let parts = split_on HYPHEN s in do {
       r \<leftarrow> (if length parts = 4 \<and> list_all (\<lambda>p. parse_u8 p \<noteq> None) parts
             then ret (ipv4_from_str (join_with [DOT] parts))
             else if 4 < length parts
             then first_exec (\<lambda>i. do {
                    w \<leftarrow> subslice parts i (i + 4);
                    (if list_all (\<lambda>p. parse_u8 p \<noteq> None) w
                     then do {
                       w' \<leftarrow> subslice parts i (i + 4);
                       ret (ipv4_from_str (join_with [DOT] w'))
                     }
                     else ret None)
                  }) [0..<Suc (length parts - 4)]
             else ret None);
       (case r of
          Some ip \<Rightarrow> ret (Some ip)
        | None \<Rightarrow> first_exec parse_hexadecimal_ip (filter (\<lambda>p. length p = 8) parts))
     })"

definition parse_hyphenated_ipv6 :: "rstr \<Rightarrow> ipv6 option" where
  "parse_hyphenated_ipv6 s =
     (if HYPHEN \<notin> set s then None
      else let s1 = replace2 HYPHEN HYPHEN [COLON, COLON] s;
               s2 = replace1 HYPHEN [COLON] s1
           in ipv6_from_str s2)"

definition parse_dotted_ipv4 :: "rstr list \<Rightarrow> ipv4 option exec" where
  "parse_dotted_ipv4 parts =
     (if length parts < 4 then ret None
      else first_exec (\<lambda>i. do {
             w \<leftarrow> subslice parts i (i + 4);
             ret (ipv4_from_str (join_with [DOT] w))
           }) [0..<Suc (length parts - 4)])"

definition parse_label_ipv4 :: "rstr \<Rightarrow> ipv4 option exec" where
  "parse_label_ipv4 label = do {
     r \<leftarrow> (if length label = 8 then parse_hexadecimal_ip label else ret None);
     (case r of
        Some ip \<Rightarrow> ret (Some ip)
      | None \<Rightarrow> parse_hyphenated_ip label)
   }"

text \<open>The loop over the labels, left when both families are found.\<close>

fun scan_labels :: "rstr list \<Rightarrow> ipv4 option \<Rightarrow> ipv6 option \<Rightarrow> (ipv4 option \<times> ipv6 option) exec" where
  "scan_labels [] v4 v6 = ret (v4, v6)"
| "scan_labels (part # parts) v4 v6 = do {
     v4' \<leftarrow> (case v4 of None \<Rightarrow> parse_label_ipv4 part | Some ip \<Rightarrow> ret (Some ip));
     let v6' = (case v6 of None \<Rightarrow> parse_hyphenated_ipv6 part | Some ip \<Rightarrow> Some ip);
     (if v4' \<noteq> None \<and> v6' \<noteq> None then ret (v4', v6')
      else scan_labels parts v4' v6')
   }"

definition interpret_ip :: "rstr \<Rightarrow> (ipv4 option \<times> ipv6 option) option exec" where
  "interpret_ip domain = (
     let parts = split_on DOT domain in do {
       (v4, v6) \<leftarrow> scan_labels parts None None;
       v4' \<leftarrow> (case v4 of None \<Rightarrow> parse_dotted_ipv4 parts | Some ip \<Rightarrow> ret (Some ip));
       (if v4' = None \<and> v6 = None then ret None else ret (Some (v4', v6)))
     })"

section \<open>Hexadecimal labels\<close>

definition hexval :: "byte \<Rightarrow> nat" where
  "hexval c = the (to_digit 16 c)"

definition hex_octet :: "rstr \<Rightarrow> nat \<Rightarrow> byte" where
  "hex_octet s i = of_nat (16 * hexval (s ! (2 * i)) + hexval (s ! (2 * i + 1)))"

text \<open>What \<open>parse_hexadecimal_ip\<close> computes, and the eight lower-case digits of an address.\<close>

definition hex_ip :: "rstr \<Rightarrow> ipv4 option" where
  "hex_ip s =
     (if length s = 8 \<and> list_all is_ascii_hexdigit s
      then Some (Ipv4 (hex_octet s 0) (hex_octet s 1) (hex_octet s 2) (hex_octet s 3))
      else None)"

definition hex_pair :: "byte \<Rightarrow> rstr" where
  "hex_pair b = [digit_char (unat b div 16), digit_char (unat b mod 16)]"

definition hex_label :: "ipv4 \<Rightarrow> rstr" where
  "hex_label ip = concat (map hex_pair (octets4 ip))"

lemma hexdigit_val: "is_ascii_hexdigit c \<Longrightarrow> to_digit 16 c = Some (hexval c) \<and> hexval c < 16"
  by (auto simp: is_ascii_hexdigit_iff hexval_def dest: to_digit_less)

lemma hexdigit_not_PLUS: "is_ascii_hexdigit c \<Longrightarrow> c \<noteq> PLUS"
  by (auto simp: is_ascii_hexdigit_def)

lemma from_str_radix_hex_pair:
  assumes "is_ascii_hexdigit c" and "is_ascii_hexdigit d"
  shows "from_str_radix 255 16 [c, d] = Some (16 * hexval c + hexval d)"
  using hexdigit_val [OF assms(1)] hexdigit_val [OF assms(2)] hexdigit_not_PLUS [OF assms(1)]
  by (simp add: from_str_radix_def)

lemma str_slice_ascii:
  assumes "list_all (\<lambda>b. b < 0x80) s" and "a \<le> b" and "b \<le> length s"
  shows "str_slice s a b = ret (take (b - a) (drop a s))"
proof -
  have "\<not> is_cont (s ! i)" if "i < length s" for i
    using assms(1) that cont_not_ascii by (auto simp: list_all_length)
  with assms(2,3) show ?thesis
    by (auto simp: str_slice_def is_char_boundary_def)
qed

lemma hex_octet_loop_ret:
  assumes "list_all is_ascii_hexdigit s"
  shows "2 * (i + k) \<le> length s \<Longrightarrow> i + k \<le> length out \<Longrightarrow>
    hex_octet_loop s i k out =
      ret (Some (take i out @ map (hex_octet s) [i..<i + k] @ drop (i + k) out))"
proof (induction k arbitrary: i out)
  case (Suc k)
  let ?c = "s ! (2 * i)" and ?d = "s ! (2 * i + 1)"
  have hex: "is_ascii_hexdigit ?c" "is_ascii_hexdigit ?d"
    using assms Suc.prems by (simp_all add: list_all_length)
  have "list_all (\<lambda>b. b < 0x80) s"
    using assms is_ascii_hexdigit_ascii by (auto simp: list_all_iff)
  then have "str_slice s (2 * i) (2 * i + 2) = ret (take 2 (drop (2 * i) s))"
    using str_slice_ascii [of s "2 * i" "2 * i + 2"] Suc.prems by simp
  moreover have "take 2 (drop (2 * i) s) = [?c, ?d]"
    using Suc.prems by (simp add: Cons_nth_drop_Suc [symmetric] numeral_2_eq_2)
  moreover have "out[i := v] ! i = v" "take (Suc i) (out[i := v]) = take i out @ [v]" for v
    using Suc.prems by (simp_all add: take_Suc_conv_app_nth)
  ultimately show ?case
    using Suc hex
    by (simp add: from_str_radix_hex_pair upd_ret hex_octet_def upt_conv_Cons del: upt_Suc)
qed simp

lemma parse_hexadecimal_ip_eq [exec_simps]: "parse_hexadecimal_ip s = ret (hex_ip s)"
proof (cases "length s = 8 \<and> list_all is_ascii_hexdigit s")
  case True
  then show ?thesis
    using hex_octet_loop_ret [of s 0 4 "replicate 4 0"]
    by (simp add: parse_hexadecimal_ip_def hex_ip_def idx_def upt_rec numeral_2_eq_2 numeral_3_eq_3)
next
  case False
  then show ?thesis by (auto simp: parse_hexadecimal_ip_def hex_ip_def)
qed

text \<open>A character is the lower-case digit \<open>d\<close> up to case exactly when it has the value \<open>d\<close>.\<close>

lemma ascii_lower_digit: "d < 16 \<Longrightarrow> ascii_lower c = digit_char d \<longleftrightarrow> to_digit 16 c = Some d"
  using unat_digit_char [of d] unat_byte_less [of c]
  by (auto simp: ascii_lower_def to_digit_def Let_def word_unat_eq_iff word_order_nat
      unat_word_ariths split: if_splits)

lemma byte_nibble [simp]: "unat (b :: byte) div 16 < 16"
  by (rule less_mult_imp_div_less) simp

lemma hex_pair_iff:
  "[ascii_lower c, ascii_lower d] = hex_pair b \<longleftrightarrow>
     is_ascii_hexdigit c \<and> is_ascii_hexdigit d \<and> of_nat (16 * hexval c + hexval d) = b"
proof -
  have "[ascii_lower c, ascii_lower d] = hex_pair b \<longleftrightarrow>
      to_digit 16 c = Some (unat b div 16) \<and> to_digit 16 d = Some (unat b mod 16)"
    by (simp add: hex_pair_def ascii_lower_digit)
  also have "\<dots> \<longleftrightarrow> (\<exists>x y. to_digit 16 c = Some x \<and> to_digit 16 d = Some y \<and> unat b = 16 * x + y)"
  proof -
    have "unat b = 16 * x + y \<longleftrightarrow> x = unat b div 16 \<and> y = unat b mod 16" if "y < 16" for x y
    proof
      assume "unat b = 16 * x + y"
      with that show "x = unat b div 16 \<and> y = unat b mod 16" by simp
    next
      assume "x = unat b div 16 \<and> y = unat b mod 16"
      then show "unat b = 16 * x + y" by simp
    qed
    with to_digit_less [of 16 d] show ?thesis by metis
  qed
  also have "\<dots> \<longleftrightarrow> is_ascii_hexdigit c \<and> is_ascii_hexdigit d \<and> of_nat (16 * hexval c + hexval d) = b"
  proof -
    have *: "unat b = 16 * x + y \<longleftrightarrow> of_nat (16 * x + y) = b" if "x < 16" "y < 16" for x y
      using that by (simp add: word_unat_eq_iff unat_of_nat take_bit_nat_eq_self eq_commute
          del: of_nat_add of_nat_mult)
    show ?thesis
      using to_digit_less [of 16 c] to_digit_less [of 16 d]
      by (cases "to_digit 16 c"; cases "to_digit 16 d")
        (simp_all add: is_ascii_hexdigit_iff hexval_def * del: of_nat_add of_nat_mult)
  qed
  finally show ?thesis .
qed

lemma hex_ip_iff: "hex_ip s = Some ip \<longleftrightarrow> to_lower s = hex_label ip"
proof (cases "length s = 8")
  case True
  then obtain c0 c1 c2 c3 c4 c5 c6 c7 where s: "s = [c0, c1, c2, c3, c4, c5, c6, c7]"
    by (auto simp: numeral_eq_Suc length_Suc_conv)
  obtain a b c d where ip: "ip = Ipv4 a b c d" by (cases ip)
  have "to_lower s = hex_label ip \<longleftrightarrow>
      [ascii_lower c0, ascii_lower c1] = hex_pair a \<and> [ascii_lower c2, ascii_lower c3] = hex_pair b \<and>
      [ascii_lower c4, ascii_lower c5] = hex_pair c \<and> [ascii_lower c6, ascii_lower c7] = hex_pair d"
    by (auto simp: s ip hex_label_def hex_pair_def)
  moreover have "hex_ip s = Some ip \<longleftrightarrow>
      (is_ascii_hexdigit c0 \<and> is_ascii_hexdigit c1 \<and> of_nat (16 * hexval c0 + hexval c1) = a) \<and>
      (is_ascii_hexdigit c2 \<and> is_ascii_hexdigit c3 \<and> of_nat (16 * hexval c2 + hexval c3) = b) \<and>
      (is_ascii_hexdigit c4 \<and> is_ascii_hexdigit c5 \<and> of_nat (16 * hexval c4 + hexval c5) = c) \<and>
      (is_ascii_hexdigit c6 \<and> is_ascii_hexdigit c7 \<and> of_nat (16 * hexval c6 + hexval c7) = d)"
    by (auto simp: s ip hex_ip_def hex_octet_def)
  ultimately show ?thesis by (simp only: hex_pair_iff)
next
  case False
  then have "to_lower s \<noteq> hex_label ip"
    by (cases ip) (auto simp: hex_label_def hex_pair_def dest!: arg_cong [of _ _ length])
  with False show ?thesis by (simp add: hex_ip_def)
qed

lemma hex_ip_label [simp]: "hex_ip (hex_label ip) = Some ip"
proof -
  have "[ascii_lower (digit_char (unat b div 16)), ascii_lower (digit_char (unat b mod 16))] = hex_pair b"
    for b :: byte
    by (simp add: hex_pair_def ascii_lower_digit)
  then have "to_lower (hex_pair b) = hex_pair b" for b
    by (simp add: hex_pair_def)
  then show ?thesis
    by (cases ip) (simp add: hex_ip_iff hex_label_def)
qed

interpretation hex: total_search parse_hexadecimal_ip hex_ip
  by unfold_locales (rule parse_hexadecimal_ip_eq)

section \<open>What the functions compute\<close>

text \<open>The windows of four consecutive parts, in order.\<close>

definition windows4 :: "'a list \<Rightarrow> 'a list list" where
  "windows4 xs = map (\<lambda>i. take 4 (drop i xs)) [0..<length xs - 3]"

definition octets_ip :: "rstr list \<Rightarrow> ipv4 option" where
  "octets_ip w =
     (if list_all (\<lambda>p. parse_u8 p \<noteq> None) w then ipv4_from_str (join_with [DOT] w) else None)"

definition hyphen_ip :: "rstr \<Rightarrow> ipv4 option" where
  "hyphen_ip s =
     (let parts = split_on HYPHEN s
      in case first_some octets_ip (windows4 parts) of
           Some ip \<Rightarrow> Some ip
         | None \<Rightarrow> first_some hex_ip parts)"

definition label_ip :: "rstr \<Rightarrow> ipv4 option" where
  "label_ip l = (case hex_ip l of Some ip \<Rightarrow> Some ip | None \<Rightarrow> hyphen_ip l)"

definition dotted_ip :: "rstr list \<Rightarrow> ipv4 option" where
  "dotted_ip parts = first_some (\<lambda>w. ipv4_from_str (join_with [DOT] w)) (windows4 parts)"

text \<open>The specification of \<open>interpret_ip\<close> on the labels of the name.\<close>

definition labels_ip :: "rstr list \<Rightarrow> (ipv4 option \<times> ipv6 option) option" where
  "labels_ip ls =
     (let v4 = (case first_some label_ip ls of Some ip \<Rightarrow> Some ip | None \<Rightarrow> dotted_ip ls);
          v6 = first_some parse_hyphenated_ipv6 ls
      in if v4 = None \<and> v6 = None then None else Some (v4, v6))"

lemma windows4_short: "length xs < 4 \<Longrightarrow> windows4 xs = []"
  by (simp add: windows4_def)

lemma windows4_exact: "length xs = 4 \<Longrightarrow> windows4 xs = [xs]"
  by (simp add: windows4_def)

lemma window_indices:
  assumes "4 \<le> length xs"
  shows "[0..<Suc (length xs - 4)] = [0..<length xs - 3]"
proof -
  have "Suc (length xs - 4) = length xs - 3" using assms by simp
  then show ?thesis by (simp only:)
qed

lemma first_exec_windows:
  assumes "4 \<le> length xs" and "\<And>w. g w = ret (h w)"
  shows "first_exec (\<lambda>i. do { w \<leftarrow> subslice xs i (i + 4); g w }) [0..<Suc (length xs - 4)] =
    ret (first_some h (windows4 xs))"
proof -
  have "first_exec (\<lambda>i. do { w \<leftarrow> subslice xs i (i + 4); g w }) [0..<length xs - 3] =
      ret (first_some (\<lambda>i. h (take 4 (drop i xs))) [0..<length xs - 3])"
    using assms by (intro first_exec_ret) (auto simp: subslice_ret)
  then show ?thesis
    by (simp only: window_indices [OF assms(1)] windows4_def first_some_map)
qed

lemma hex_ip_length: "length s \<noteq> 8 \<Longrightarrow> hex_ip s = None"
  by (simp add: hex_ip_def)

lemma first_some_hex_filter:
  "first_some hex_ip (filter (\<lambda>p. length p = 8) ps) = first_some hex_ip ps"
  by (induction ps) (auto simp: hex_ip_length split: option.splits)

lemma parse_hyphenated_ip_eq [exec_simps]: "parse_hyphenated_ip s = ret (hyphen_ip s)"
proof -
  let ?parts = "split_on HYPHEN s"
  have win: "first_exec (\<lambda>i. do {
         w \<leftarrow> subslice ?parts i (i + 4);
         (if list_all (\<lambda>p. parse_u8 p \<noteq> None) w
          then do { w' \<leftarrow> subslice ?parts i (i + 4); ret (ipv4_from_str (join_with [DOT] w')) }
          else ret None) }) [0..<Suc (length ?parts - 4)] =
       ret (first_some octets_ip (windows4 ?parts))" if "4 < length ?parts"
  proof -
    have "first_exec (\<lambda>i. do { w \<leftarrow> subslice ?parts i (i + 4); ret (octets_ip w) })
        [0..<Suc (length ?parts - 4)] = ret (first_some octets_ip (windows4 ?parts))"
      using that by (intro first_exec_windows) auto
    moreover have "(\<lambda>i. do {
         w \<leftarrow> subslice ?parts i (i + 4);
         (if list_all (\<lambda>p. parse_u8 p \<noteq> None) w
          then do { w' \<leftarrow> subslice ?parts i (i + 4); ret (ipv4_from_str (join_with [DOT] w')) }
          else ret None) }) = (\<lambda>i. do { w \<leftarrow> subslice ?parts i (i + 4); ret (octets_ip w) })"
      by (auto simp: octets_ip_def split: Option.bind_splits)
    ultimately show ?thesis by (simp only:)
  qed
  show ?thesis
    using win
    by (cases "length ?parts = 4"; cases "4 < length ?parts")
      (auto simp: parse_hyphenated_ip_def hyphen_ip_def Let_def hex.search first_some_hex_filter
        windows4_exact windows4_short octets_ip_def split: option.splits)
qed

interpretation hyphen: total_search parse_hyphenated_ip hyphen_ip
  by unfold_locales (rule parse_hyphenated_ip_eq)

lemma parse_label_ipv4_eq [exec_simps]: "parse_label_ipv4 l = ret (label_ip l)"
  by (auto simp: parse_label_ipv4_def label_ip_def exec_simps hex_ip_length split: option.splits)

interpretation label: total_search parse_label_ipv4 label_ip
  by unfold_locales (rule parse_label_ipv4_eq)

lemma parse_dotted_ipv4_eq [exec_simps]: "parse_dotted_ipv4 parts = ret (dotted_ip parts)"
proof (cases "length parts < 4")
  case True
  then show ?thesis by (simp add: parse_dotted_ipv4_def dotted_ip_def windows4_short)
next
  case False
  then show ?thesis
    unfolding parse_dotted_ipv4_def dotted_ip_def
    by (simp only: if_False) (rule first_exec_windows, auto)
qed

lemma scan_labels_eq:
  "scan_labels ls v4 v6 =
     ret (case v4 of None \<Rightarrow> first_some label_ip ls | Some ip \<Rightarrow> Some ip,
          case v6 of None \<Rightarrow> first_some parse_hyphenated_ipv6 ls | Some ip \<Rightarrow> Some ip)"
proof (induction ls arbitrary: v4 v6)
  case Nil
  then show ?case by (auto split: option.splits)
next
  case (Cons l ls)
  then show ?case
    by (cases v4; cases v6; cases "label_ip l"; cases "parse_hyphenated_ipv6 l")
      (simp_all add: parse_label_ipv4_eq)
qed

lemma interpret_ip_eq [exec_simps]: "interpret_ip domain = ret (labels_ip (split_on DOT domain))"
  by (auto simp: interpret_ip_def labels_ip_def Let_def scan_labels_eq parse_dotted_ipv4_eq
      split: option.splits)

section \<open>Windows of octets\<close>

text \<open>The decimal texts of the four octets of an address.\<close>

definition octet_texts :: "ipv4 \<Rightarrow> rstr list" where
  "octet_texts ip = map (show_nat \<circ> unat) (octets4 ip)"

lemma length_octet_texts [simp]: "length (octet_texts ip) = 4"
  by (simp add: octet_texts_def)

lemma octet_texts_not_Nil [simp]: "octet_texts ip \<noteq> []"
  using length_octet_texts [of ip] by fastforce

lemma show_ipv4_texts: "show_ipv4 ip = join_with [DOT] (octet_texts ip)"
  by (simp add: show_ipv4_def octet_texts_def)

lemma octet_text_facts:
  assumes "t \<in> set (octet_texts ip)"
  shows "parse_u8 t \<noteq> None" "DOT \<notin> set t" "HYPHEN \<notin> set t" "length t \<le> 3" "t \<noteq> []"
proof -
  from assms obtain b :: byte where t: "t = show_nat (unat b)"
    by (auto simp: octet_texts_def)
  show "parse_u8 t \<noteq> None" by (simp add: t parse_u8_show_nat)
  show "DOT \<notin> set t" "HYPHEN \<notin> set t"
    using show_radix_sep_free(1,2) [of 10] by (auto simp: t show_nat_def)
  show "length t \<le> 3" by (simp add: t length_show_octet)
  show "t \<noteq> []" by (simp add: t show_nat_def)
qed

lemma octet_text_no_ip:
  assumes "t \<in> set (octet_texts ip)"
  shows "label_ip t = None" "parse_hyphenated_ipv6 t = None"
  using octet_text_facts [OF assms]
  by (simp_all add: label_ip_def hyphen_ip_def hex_ip_length split_on_no_sep windows4_short
      parse_hyphenated_ipv6_def)

lemma parse_u8_no_DOT:
  assumes "parse_u8 p = Some n"
  shows "DOT \<notin> set p"
proof -
  have acc: "DOT \<notin> set q" if "accum_digits 10 255 a q = Some m" for q a m
    using that by (induction q arbitrary: a) (auto split: option.splits if_splits)
  show ?thesis
  proof (cases p)
    case (Cons c cs)
    show ?thesis
    proof (cases "c = PLUS")
      case True
      with assms Cons have "accum_digits 10 255 0 cs = Some n"
        by (auto simp: parse_u8_def from_str_radix_def split: if_splits)
      from acc [OF this] True Cons show ?thesis by simp
    next
      case False
      with assms Cons have "accum_digits 10 255 0 p = Some n"
        by (simp only: parse_u8_def from_str_radix_def list.case if_False)
      then show ?thesis by (rule acc)
    qed
  qed simp
qed

lemma join_texts_iff:
  assumes "\<forall>p \<in> set w. DOT \<notin> set p" and "w \<noteq> []"
  shows "join_with [DOT] w = show_ipv4 ip \<longleftrightarrow> w = octet_texts ip"
proof
  assume "join_with [DOT] w = show_ipv4 ip"
  then have "split_on DOT (join_with [DOT] w) = split_on DOT (join_with [DOT] (octet_texts ip))"
    by (simp add: show_ipv4_texts)
  moreover have "split_on DOT (join_with [DOT] (octet_texts ip)) = octet_texts ip"
    using octet_text_facts(2) by (intro split_join) auto
  ultimately show "w = octet_texts ip" using assms by (simp add: split_join)
qed (simp add: show_ipv4_texts)

lemma octets_ip_iff: "octets_ip w = Some ip \<longleftrightarrow> w = octet_texts ip"
proof
  assume "octets_ip w = Some ip"
  then have u8: "\<forall>p \<in> set w. parse_u8 p \<noteq> None" and j: "join_with [DOT] w = show_ipv4 ip"
    by (auto simp: octets_ip_def ipv4_from_str_iff list_all_iff split: if_splits)
  from j have "w \<noteq> []" using DOT_in_show_ipv4 [of ip] by auto
  with u8 j parse_u8_no_DOT show "w = octet_texts ip"
    by (metis join_texts_iff not_None_eq)
next
  assume "w = octet_texts ip"
  then show "octets_ip w = Some ip"
    using octet_text_facts(1)
    by (auto simp: octets_ip_def list_all_iff ipv4_from_str_iff show_ipv4_texts)
qed

lemma windows4_Cons:
  "windows4 (x # xs) = (if 3 \<le> length xs then [x # take 3 xs] else []) @ windows4 xs"
proof (cases "3 \<le> length xs")
  case True
  then obtain n where n: "length xs = n + 3" using le_Suc_ex by (metis add.commute)
  have "[0..<Suc n] = 0 # map Suc [0..<n]"
    by (simp add: map_Suc_upt upt_conv_Cons del: upt_Suc)
  then show ?thesis
    using n by (simp add: windows4_def o_def numeral_eq_Suc del: upt_Suc)
next
  case False
  then show ?thesis by (simp add: windows4_def)
qed

lemma windows4_subset: "w \<in> set (windows4 xs) \<Longrightarrow> set w \<subseteq> set xs \<and> length w = 4"
  by (auto simp: windows4_def dest!: in_set_takeD in_set_dropD)

lemma windows4_iff: "w \<in> set (windows4 xs) \<longleftrightarrow> (\<exists>us vs. xs = us @ w @ vs \<and> length w = 4)"
proof
  assume "w \<in> set (windows4 xs)"
  then obtain i where i: "i < length xs - 3" "w = take 4 (drop i xs)"
    by (auto simp: windows4_def)
  then have "xs = take i xs @ w @ drop 4 (drop i xs)" by (metis append_take_drop_id)
  with i show "\<exists>us vs. xs = us @ w @ vs \<and> length w = 4" by force
next
  assume "\<exists>us vs. xs = us @ w @ vs \<and> length w = 4"
  then obtain us vs where "xs = us @ w @ vs" "length w = 4" by blast
  then show "w \<in> set (windows4 xs)"
    by (auto simp: windows4_def intro!: image_eqI [of _ _ "length us"])
qed

text \<open>A search over the windows passes every window that starts in a prefix \<open>ps\<close> of parts
  which no hit starts with, and finds the window right after it.\<close>

lemma first_window:
  assumes "f w = Some y" and "length w = 4"
    and "\<And>p u. p \<in> set ps \<Longrightarrow> set u \<subseteq> set (ps @ w @ zs) \<Longrightarrow> f (p # u) = None"
  shows "first_some f (windows4 (ps @ w @ zs)) = Some y"
proof -
  have "first_some f (windows4 (qs @ w @ zs)) = Some y" if "set qs \<subseteq> set ps" for qs
    using that
  proof (induction qs)
    case Nil
    obtain x w' where w: "w = x # w'" "length w' = 3"
      using assms(2) by (cases w) auto
    with assms(1) show ?case by (simp add: windows4_Cons)
  next
    case (Cons q qs)
    have "set (take 3 (qs @ w @ zs)) \<subseteq> set (ps @ w @ zs)"
      using Cons.prems by (auto dest: in_set_takeD)
    with assms(3) Cons.prems have "f (q # take 3 (qs @ w @ zs)) = None" by simp
    with Cons show ?case by (simp add: windows4_Cons)
  qed
  from this [of ps] show ?thesis by simp
qed

section \<open>Hyphenated IPv6 labels\<close>

text \<open>The two replacements of \<open>parse_hyphenated_ipv6\<close>, and their effect along a label.\<close>

abbreviation colons :: "rstr \<Rightarrow> rstr" where
  "colons s \<equiv> replace1 HYPHEN [COLON] (replace2 HYPHEN HYPHEN [COLON, COLON] s)"

lemma replace1_append [simp]: "replace1 a r (s @ t) = replace1 a r s @ replace1 a r t"
  by (induction s) auto

lemma replace1_free: "a \<notin> set s \<Longrightarrow> replace1 a r s = s"
  by (induction s) auto

lemma replace2_free: "a \<notin> set s \<Longrightarrow> replace2 a b r (s @ t) = s @ replace2 a b r t"
proof (induction s)
  case (Cons x s)
  then show ?case by (cases "s @ t") auto
qed simp

lemma colons_free: "HYPHEN \<notin> set s \<Longrightarrow> colons (s @ t) = s @ colons t"
  by (simp add: replace2_free replace1_free)

lemma colons_single: "t \<noteq> [] \<Longrightarrow> hd t \<noteq> HYPHEN \<Longrightarrow> colons (HYPHEN # t) = COLON # colons t"
  by (cases t) auto

lemma colons_double: "colons (HYPHEN # HYPHEN # t) = COLON # COLON # colons t"
  by simp

lemma show_group_facts: "HYPHEN \<notin> set (show_group g)" "show_group g \<noteq> []"
    "hd (show_group g @ t) \<noteq> HYPHEN"
proof -
  show *: "HYPHEN \<notin> set (show_group g)"
    using show_radix_sep_free(2) [of 16 HYPHEN "unat g"] by (auto simp: show_group_def)
  show "show_group g \<noteq> []" by (simp add: show_group_def)
  then show "hd (show_group g @ t) \<noteq> HYPHEN"
    using * by (cases "show_group g") auto
qed

lemma colons_groups:
  "colons (join_with [HYPHEN] (map show_group gs) @ t) =
     join_with [COLON] (map show_group gs) @ colons t"
proof (induction gs)
  case (Cons g gs)
  show ?case
  proof (cases gs)
    case Nil
    then show ?thesis by (simp add: colons_free show_group_facts)
  next
    case (Cons g' gs')
    let ?rest = "join_with [HYPHEN] (map show_group gs) @ t"
    have rest: "?rest = show_group g' @ (if gs' = [] then [] else
        HYPHEN # join_with [HYPHEN] (map show_group gs')) @ t"
      using Cons by (simp add: join_with_Cons)
    have "colons (HYPHEN # ?rest) = COLON # colons ?rest"
      unfolding rest using show_group_facts by (intro colons_single) auto
    with Cons.IH Cons show ?thesis
      by (simp add: join_with_Cons colons_free show_group_facts del: replace2.simps)
  qed
qed simp

definition hyphen_compressed6 :: "u16 list \<Rightarrow> u16 list \<Rightarrow> rstr" where
  "hyphen_compressed6 hs ts =
     join_with [HYPHEN] (map show_group hs) @ [HYPHEN, HYPHEN] @
     join_with [HYPHEN] (map show_group ts)"

lemma colons_compressed6: "colons (hyphen_compressed6 hs ts) = compressed6 hs ts"
  using colons_groups [of ts "[]"]
  by (simp add: hyphen_compressed6_def compressed6_def colons_groups del: replace2.simps)
    (simp add: colons_double)

section \<open>Properties\<close>

text \<open>
  C19: for every host name, whatever its bytes, \<open>interpret_ip\<close> does not panic and returns the
  declarative specification: the first label that spells an IPv4 address (failing that, the
  first dotted window of four labels), together with the first label that spells an IPv6
  address, and \<open>None\<close> only when there is neither.  The loop's early exit changes nothing.
\<close>

theorem interpret_ip_meets_spec:
  "interpret_ip domain = ret (labels_ip (split_on DOT domain))"
  by (rule interpret_ip_eq)

text \<open>
  \<open>parse_hexadecimal_ip\<close> accepts exactly the eight hexadecimal digits of an address, in
  either case, and returns that address; every address has such a label.
\<close>

theorem parse_hexadecimal_ip_iff:
  "parse_hexadecimal_ip s = ret (Some ip) \<longleftrightarrow> to_lower s = hex_label ip"
  by (simp add: exec_simps hex_ip_iff)

text \<open>
  C35: \<open>parse_hyphenated_ip\<close> is sound: an address it returns is written in the label, either as
  four consecutive hyphen-separated parts that are the canonical decimal texts of its octets,
  or as one part that is its eight hexadecimal digits.
\<close>

theorem parse_hyphenated_ip_sound:
  assumes "parse_hyphenated_ip s = ret (Some ip)"
  shows "(\<exists>us vs. split_on HYPHEN s = us @ octet_texts ip @ vs) \<or>
    (\<exists>p \<in> set (split_on HYPHEN s). to_lower p = hex_label ip)"
proof -
  let ?parts = "split_on HYPHEN s"
  have h: "hyphen_ip s = Some ip" using assms by (simp add: exec_simps)
  show ?thesis
  proof (cases "first_some octets_ip (windows4 ?parts)")
    case None
    with h have "first_some hex_ip ?parts = Some ip" by (simp add: hyphen_ip_def)
    then show ?thesis by (auto dest!: first_some_SomeD simp: hex_ip_iff)
  next
    case (Some ip')
    with h have "first_some octets_ip (windows4 ?parts) = Some ip" by (simp add: hyphen_ip_def)
    then show ?thesis
      by (auto dest!: first_some_SomeD simp: octets_ip_iff windows4_iff)
  qed
qed

theorem parse_hyphenated_ip_sound_witness:
  "(\<exists>us vs. split_on HYPHEN (lit ''app-10-0-0-1'') = us @ octet_texts (Ipv4 10 0 0 1) @ vs) \<or>
    (\<exists>p \<in> set (split_on HYPHEN (lit ''app-10-0-0-1'')). to_lower p = hex_label (Ipv4 10 0 0 1))"
  by (rule parse_hyphenated_ip_sound) code_simp

text \<open>
  The hyphenated format of the README is recognised for every address behind any number of
  name parts: if no part of the prefix is a number, the four octets that follow are read.
\<close>

theorem parse_hyphenated_ip_prefixed:
  assumes "\<forall>p \<in> set ps. HYPHEN \<notin> set p \<and> parse_u8 p = None"
  shows "parse_hyphenated_ip (join_with [HYPHEN] (ps @ octet_texts ip)) = ret (Some ip)"
proof -
  have "split_on HYPHEN (join_with [HYPHEN] (ps @ octet_texts ip)) = ps @ octet_texts ip"
    using assms octet_text_facts(3) by (intro split_join) auto
  moreover have "first_some octets_ip (windows4 (ps @ octet_texts ip @ [])) = Some ip"
  proof (rule first_window)
    show "octets_ip (octet_texts ip) = Some ip" by (simp add: octets_ip_iff)
    show "octets_ip (p # u) = None" if "p \<in> set ps" for p u
      using assms that by (simp add: octets_ip_def)
  qed simp
  ultimately show ?thesis by (simp add: exec_simps hyphen_ip_def)
qed

theorem parse_hyphenated_ip_prefixed_witness:
  "parse_hyphenated_ip (join_with [HYPHEN] ([lit ''customer2'', lit ''app''] @
     octet_texts (Ipv4 127 0 0 1))) = ret (Some (Ipv4 127 0 0 1))"
  by (rule parse_hyphenated_ip_prefixed) code_simp

text \<open>
  A hexadecimal address is found inside a hyphenated label too: behind name parts that are
  neither numbers nor hexadecimal addresses, the part with the eight digits is read.
\<close>

theorem parse_hyphenated_ip_hex:
  assumes "\<forall>p \<in> set ps. HYPHEN \<notin> set p \<and> parse_u8 p = None \<and> parse_hexadecimal_ip p = ret None"
    and "to_lower h = hex_label ip"
  shows "parse_hyphenated_ip (join_with [HYPHEN] (ps @ [h])) = ret (Some ip)"
proof -
  have hex: "hex_ip h = Some ip" using assms(2) by (simp add: hex_ip_iff)
  then have "HYPHEN \<notin> set h"
    by (auto simp: hex_ip_def list_all_iff is_ascii_hexdigit_def split: if_splits)
  then have split: "split_on HYPHEN (join_with [HYPHEN] (ps @ [h])) = ps @ [h]"
    using assms by (intro split_join) auto
  have "octets_ip w = None" if "w \<in> set (windows4 (ps @ [h]))" for w
  proof -
    from that obtain us vs where w: "ps @ [h] = us @ w @ vs" "length w = 4"
      by (auto simp: windows4_iff)
    obtain p w' where p: "w = p # w'" "w' \<noteq> []"
      using w(2) by (cases w; cases "tl w") auto
    have "p \<in> set ps" using w(1) p by (cases vs rule: rev_cases; cases w' rule: rev_cases) auto
    with assms(1) p show ?thesis by (simp add: octets_ip_def)
  qed
  then have "first_some octets_ip (windows4 (ps @ [h])) = None"
    by (simp add: first_some_None_iff)
  moreover have "first_some hex_ip (ps @ [h]) = Some ip"
    using assms(1) hex by (subst first_some_skip) (auto simp: exec_simps)
  ultimately show ?thesis by (simp add: exec_simps hyphen_ip_def split)
qed

theorem parse_hyphenated_ip_hex_witness:
  "parse_hyphenated_ip (join_with [HYPHEN] ([lit ''app''] @ [lit ''C0A801fc''])) =
     ret (Some (Ipv4 192 168 1 252))"
  by (rule parse_hyphenated_ip_hex) code_simp+

text \<open>
  C36: every IPv6 address in full form is read from the label that writes its eight groups in
  hexadecimal with hyphens between them.
\<close>

theorem parse_hyphenated_ipv6_full:
  "parse_hyphenated_ipv6 (join_with [HYPHEN] (map show_group (segments ip))) = Some ip"
proof -
  have "colons (join_with [HYPHEN] (map show_group (segments ip))) =
      join_with [COLON] (map show_group (segments ip))"
    using colons_groups [of "segments ip" "[]"] by simp
  moreover have "HYPHEN \<in> set (join_with [HYPHEN] (map show_group (segments ip)))"
    by (cases ip) simp
  ultimately show ?thesis
    by (simp add: parse_hyphenated_ipv6_def ipv6_from_str_full)
qed

text \<open>
  The compressed form too: a double hyphen between at most seven groups stands for the
  zero groups that are missing.
\<close>

theorem parse_hyphenated_ipv6_compressed:
  assumes "length hs + length ts \<le> 7"
  shows "parse_hyphenated_ipv6 (hyphen_compressed6 hs ts) =
    Some (ipv6_of_segments (hs @ replicate (8 - length hs - length ts) 0 @ ts))"
proof -
  have "HYPHEN \<in> set (hyphen_compressed6 hs ts)" by (simp add: hyphen_compressed6_def)
  then show ?thesis
    by (simp only: parse_hyphenated_ipv6_def colons_compressed6 Let_def
        ipv6_from_str_compressed [OF assms] not_not if_False if_True simp_thms)
qed

theorem parse_hyphenated_ipv6_compressed_witness:
  "parse_hyphenated_ipv6 (hyphen_compressed6 [0x2a04, 0x4e42, 0x200] [0x201]) =
     Some (Ipv6 0x2a04 0x4e42 0x200 0 0 0 0 0x201)"
  using parse_hyphenated_ipv6_compressed [of "[0x2a04, 0x4e42, 0x200]" "[0x201]"]
  by (simp add: ipv6_of_segments_def numeral_eq_Suc)

text \<open>
  Dual-stack names: an IPv4 label and an IPv6 label, in either order, anywhere among labels
  that spell no address, give both addresses.
\<close>

theorem interpret_ip_dual_stack:
  assumes "\<forall>p \<in> set (ps @ l4 # ms @ l6 # zs). DOT \<notin> set p"
    and "\<forall>p \<in> set (ps @ ms). parse_label_ipv4 p = ret None \<and> parse_hyphenated_ipv6 p = None"
    and "parse_label_ipv4 l4 = ret (Some a)" and "parse_hyphenated_ipv6 l4 = None"
    and "parse_label_ipv4 l6 = ret None" and "parse_hyphenated_ipv6 l6 = Some b"
  shows "interpret_ip (join_with [DOT] (ps @ l4 # ms @ l6 # zs)) = ret (Some (Some a, Some b)) \<and>
    interpret_ip (join_with [DOT] (ps @ l6 # ms @ l4 # zs)) = ret (Some (Some a, Some b))"
proof -
  have split: "split_on DOT (join_with [DOT] (ps @ l4 # ms @ l6 # zs)) = ps @ l4 # ms @ l6 # zs"
    "split_on DOT (join_with [DOT] (ps @ l6 # ms @ l4 # zs)) = ps @ l6 # ms @ l4 # zs"
    using assms(1) by (auto intro!: split_join)
  have skip: "first_some label_ip (qs @ ls) = first_some label_ip ls"
    "first_some parse_hyphenated_ipv6 (qs @ ls) = first_some parse_hyphenated_ipv6 ls"
    if "set qs \<subseteq> set (ps @ ms)" for qs ls
    using that assms(2) by (auto intro!: first_some_skip simp: exec_simps)
  show ?thesis
    using assms(3-6) by (simp add: interpret_ip_eq labels_ip_def split skip parse_label_ipv4_eq)
qed

theorem interpret_ip_dual_stack_witness:
  "interpret_ip (join_with [DOT] ([lit ''app''] @ lit ''127-0-0-1'' # [] @ lit ''2a04--201'' #
       [lit ''example'', lit ''com''])) =
     ret (Some (Some (Ipv4 127 0 0 1), Some (Ipv6 0x2a04 0 0 0 0 0 0 0x201))) \<and>
   interpret_ip (join_with [DOT] ([lit ''app''] @ lit ''2a04--201'' # [] @ lit ''127-0-0-1'' #
       [lit ''example'', lit ''com''])) =
     ret (Some (Some (Ipv4 127 0 0 1), Some (Ipv6 0x2a04 0 0 0 0 0 0 0x201)))"
  by (rule interpret_ip_dual_stack) code_simp+

text \<open>
  Dotted addresses: four labels that are the octets of an address, behind name labels that
  are no numbers and before a zone, give that address, provided that no other label spells one.
\<close>

theorem interpret_ip_dotted:
  assumes "\<forall>p \<in> set (ps @ zs). DOT \<notin> set p \<and> parse_label_ipv4 p = ret None \<and>
      parse_hyphenated_ipv6 p = None"
    and "\<forall>p \<in> set ps. parse_u8 p = None"
  shows "interpret_ip (join_with [DOT] (ps @ octet_texts ip @ zs)) = ret (Some (Some ip, None))"
proof -
  let ?ls = "ps @ octet_texts ip @ zs"
  have dots: "\<forall>p \<in> set ?ls. DOT \<notin> set p"
    using assms(1) octet_text_facts(2) by auto
  then have split: "split_on DOT (join_with [DOT] ?ls) = ?ls"
    by (intro split_join) auto
  have none: "first_some label_ip ?ls = None" "first_some parse_hyphenated_ipv6 ?ls = None"
    using assms(1) octet_text_no_ip by (auto simp: first_some_None_iff exec_simps)
  have "dotted_ip ?ls = Some ip"
    unfolding dotted_ip_def
  proof (rule first_window)
    show "ipv4_from_str (join_with [DOT] (octet_texts ip)) = Some ip"
      by (simp flip: show_ipv4_texts)
    fix p u
    assume p: "p \<in> set ps" and u: "set u \<subseteq> set ?ls"
    show "ipv4_from_str (join_with [DOT] (p # u)) = None"
    proof (rule ccontr)
      assume "ipv4_from_str (join_with [DOT] (p # u)) \<noteq> None"
      then obtain ip' where "join_with [DOT] (p # u) = show_ipv4 ip'"
        by (auto simp: ipv4_from_str_iff)
      then have "p # u = octet_texts ip'"
        using dots p u by (subst (asm) join_texts_iff) auto
      then have "parse_u8 p \<noteq> None"
        using octet_text_facts(1) by (metis list.set_intros(1))
      with assms(2) p show False by simp
    qed
  qed simp
  with none show ?thesis by (simp add: interpret_ip_eq labels_ip_def split)
qed

theorem interpret_ip_dotted_witness:
  "interpret_ip (join_with [DOT] ([lit ''customer1'', lit ''app''] @ octet_texts (Ipv4 10 0 0 1) @
     [lit ''example'', lit ''com''])) = ret (Some (Some (Ipv4 10 0 0 1), None))"
  by (rule interpret_ip_dotted) code_simp+

text \<open>
  The labels of the zone itself are scanned as well.  In a zone with a label of eight
  hexadecimal digits, every dotted address resolves to the address the zone's label spells and
  not to the one written in the name.
\<close>

theorem zone_label_shadows_dotted:
  "interpret_ip (show_ipv4 ip @ lit ''.cafebabe.io'') =
     ret (Some (Some (Ipv4 0xca 0xfe 0xba 0xbe), None))"
proof -
  have name: "show_ipv4 ip @ lit ''.cafebabe.io'' =
      join_with [DOT] (octet_texts ip @ [lit ''cafebabe'', lit ''io''])"
    by (cases ip) (simp add: show_ipv4_texts octet_texts_def lit_def)
  have "\<forall>p \<in> set (octet_texts ip @ [lit ''cafebabe'', lit ''io'']). DOT \<notin> set p"
    using octet_text_facts(2) [of _ ip] by (auto simp: lit_def)
  then have split: "split_on DOT (show_ipv4 ip @ lit ''.cafebabe.io'') =
      octet_texts ip @ [lit ''cafebabe'', lit ''io'']"
    unfolding name by (intro split_join) auto
  have zone: "label_ip (lit ''cafebabe'') = Some (Ipv4 0xca 0xfe 0xba 0xbe)"
    "parse_hyphenated_ipv6 (lit ''cafebabe'') = None" "parse_hyphenated_ipv6 (lit ''io'') = None"
    by code_simp+
  from octet_text_no_ip have "first_some label_ip (octet_texts ip @ ls) = first_some label_ip ls"
    "first_some parse_hyphenated_ipv6 (octet_texts ip @ ls) = first_some parse_hyphenated_ipv6 ls" for ls
    by (simp_all add: first_some_skip)
  with zone show ?thesis by (simp add: interpret_ip_eq labels_ip_def split)
qed

lemma hyphen_ip_window:
  assumes "split_on HYPHEN l = as @ octet_texts ip @ bs"
  shows "\<exists>us ip4 vs. hyphen_ip l = Some ip4 \<and> split_on HYPHEN l = us @ octet_texts ip4 @ vs \<and>
    length us \<le> length as"
proof -
  let ?parts = "split_on HYPHEN l"
  have len: "length as < length ?parts - 3" by (simp add: assms)
  have win: "windows4 ?parts ! i = take 4 (drop i ?parts)" if "i < length ?parts - 3" for i
    using that by (simp add: windows4_def)
  have "length (windows4 ?parts) = length ?parts - 3" by (simp add: windows4_def)
  moreover have "take 4 (drop (length as) ?parts) = octet_texts ip" by (simp add: assms)
  then have "octets_ip (windows4 ?parts ! length as) \<noteq> None"
    using win [OF len] by (auto simp: octets_ip_iff)
  ultimately obtain j ip4 where j: "j \<le> length as" "octets_ip (windows4 ?parts ! j) = Some ip4"
    and f: "first_some octets_ip (windows4 ?parts) = Some ip4"
    using first_some_earliest [of "length as" "windows4 ?parts" octets_ip] len by auto
  have "take 4 (drop j ?parts) = octet_texts ip4"
    using j win [of j] len by (simp add: octets_ip_iff)
  then have "?parts = take j ?parts @ octet_texts ip4 @ drop 4 (drop j ?parts)"
    by (metis append_take_drop_id)
  moreover have "length (take j ?parts) \<le> length as" using j(1) by simp
  moreover have "hyphen_ip l = Some ip4" using f by (simp add: hyphen_ip_def)
  ultimately show ?thesis by blast
qed

text \<open>
  C40: one label can yield both families, although dual-stack names are meant to use separate
  labels: every IPv6 label among whose hyphen-separated groups four consecutive ones are the
  decimal texts of octets also answers for an IPv4 address, the one of the first such four
  groups, in any zone.
\<close>

theorem ipv6_label_yields_ipv4:
  assumes "parse_hyphenated_ipv6 l = Some v6" and "DOT \<notin> set l"
    and "split_on HYPHEN l = as @ octet_texts ip @ bs"
  shows "\<exists>us ip4 vs. interpret_ip (l @ DOT # zone) = ret (Some (Some ip4, Some v6)) \<and>
    split_on HYPHEN l = us @ octet_texts ip4 @ vs \<and> length us \<le> length as"
proof -
  obtain us ip4 vs where h: "hyphen_ip l = Some ip4" "split_on HYPHEN l = us @ octet_texts ip4 @ vs"
    "length us \<le> length as"
    using hyphen_ip_window [OF assms(3)] by blast
  have "HYPHEN \<in> set l"
    using assms(1) by (auto simp: parse_hyphenated_ipv6_def split: if_splits)
  then have "hex_ip l = None"
    by (auto simp: hex_ip_def list_all_iff is_ascii_hexdigit_def intro!: bexI [of _ HYPHEN])
  with h(1) have "label_ip l = Some ip4" by (simp add: label_ip_def)
  moreover have "split_on DOT (l @ DOT # zone) = l # split_on DOT zone"
    using assms(2) by (induction l) auto
  ultimately have "interpret_ip (l @ DOT # zone) = ret (Some (Some ip4, Some v6))"
    using assms(1) by (simp add: interpret_ip_eq labels_ip_def)
  with h(2,3) show ?thesis by blast
qed

theorem ipv6_label_yields_ipv4_witness:
  "interpret_ip (lit ''127-0-0-1--1.example.com'') =
     ret (Some (Some (Ipv4 127 0 0 1), Some (Ipv6 0x127 0 0 1 0 0 0 1)))"
proof -
  let ?l = "lit ''127-0-0-1--1''"
  have v6: "parse_hyphenated_ipv6 ?l = Some (Ipv6 0x127 0 0 1 0 0 0 1)" and d: "DOT \<notin> set ?l"
    and s: "split_on HYPHEN ?l = [] @ octet_texts (Ipv4 127 0 0 1) @ [[], lit ''1'']"
    and n: "?l @ DOT # lit ''example.com'' = lit ''127-0-0-1--1.example.com''"
    by code_simp+
  obtain us ip4 vs where r: "interpret_ip (?l @ DOT # lit ''example.com'') =
      ret (Some (Some ip4, Some (Ipv6 0x127 0 0 1 0 0 0 1)))"
    and w: "split_on HYPHEN ?l = us @ octet_texts ip4 @ vs" "length us \<le> length ([] :: rstr list)"
    using ipv6_label_yields_ipv4 [OF v6 d s] by blast
  then have "octet_texts ip4 = octet_texts (Ipv4 127 0 0 1)"
    using s by (auto simp: append_eq_append_conv)
  then have "Some ip4 = Some (Ipv4 127 0 0 1)" using octets_ip_iff by metis
  with r show ?thesis unfolding n by simp
qed
end
