(* ===== verification/Wire.thy ===== *)
theory Wire
  imports Ip_Parser
begin

text \<open>
  The parts of \<open>src/dns/response.rs\<close> that read a query and write names: the record-type
  constants, \<open>encode_domain_name\<close>, the name comparisons, the end of the question section, QTYPE
  and QCLASS, the OPT record of a query, and the UDP size limit.  A query is any list of bytes;
  the shape lemma \<open>qend_iff\<close> says when a question section is recognised in it.
\<close>

section \<open>Constants\<close>

definition TYPE_A :: u16 where [simp]: "TYPE_A = 1"
definition TYPE_NS :: u16 where [simp]: "TYPE_NS = 2"
definition TYPE_SOA :: u16 where [simp]: "TYPE_SOA = 6"
definition TYPE_TXT :: u16 where [simp]: "TYPE_TXT = 16"
definition TYPE_AAAA :: u16 where [simp]: "TYPE_AAAA = 28"
definition TYPE_OPT :: u16 where [simp]: "TYPE_OPT = 41"
definition TYPE_RRSIG :: u16 where [simp]: "TYPE_RRSIG = 46"
definition TYPE_NSEC :: u16 where [simp]: "TYPE_NSEC = 47"
definition TYPE_DNSKEY :: u16 where [simp]: "TYPE_DNSKEY = 48"
definition TYPE_CDS :: u16 where [simp]: "TYPE_CDS = 59"
definition TYPE_CDNSKEY :: u16 where [simp]: "TYPE_CDNSKEY = 60"
definition TYPE_ANY :: u16 where [simp]: "TYPE_ANY = 255"
definition CLASS_IN :: u16 where [simp]: "CLASS_IN = 1"
definition RCODE_NOERROR :: byte where [simp]: "RCODE_NOERROR = 0"
definition RCODE_NOTIMP :: byte where [simp]: "RCODE_NOTIMP = 4"
definition RCODE_REFUSED :: byte where [simp]: "RCODE_REFUSED = 5"
definition DEFAULT_UDP_SIZE :: nat where [simp]: "DEFAULT_UDP_SIZE = 512"
definition EDNS_UDP_SIZE :: u16 where [simp]: "EDNS_UDP_SIZE = 1232"
definition TTL_SOA :: u32 where [simp]: "TTL_SOA = 3600"
definition TTL_RR :: u32 where [simp]: "TTL_RR = 60"
definition OFFSET_ANCOUNT :: nat where [simp]: "OFFSET_ANCOUNT = 6"
definition OFFSET_NSCOUNT :: nat where [simp]: "OFFSET_NSCOUNT = 8"
definition OFFSET_ARCOUNT :: nat where [simp]: "OFFSET_ARCOUNT = 10"

section \<open>Names\<close>

definition encode_domain_name :: "rstr \<Rightarrow> bytes" where
  "encode_domain_name name =
     (let n = trim_end DOT name
      in (if n = [] then []
          else concat (map (\<lambda>part. of_nat (length part) # to_lower part) (split_on DOT n))) @ [0])"

definition names_eq :: "rstr \<Rightarrow> rstr \<Rightarrow> bool" where
  "names_eq a b \<longleftrightarrow> eq_ignore_ascii_case (trim_end DOT a) (trim_end DOT b)"

definition name_in_bailiwick :: "rstr \<Rightarrow> rstr \<Rightarrow> bool exec" where
  "name_in_bailiwick name0 zone0 = (
     let name = trim_end DOT name0; zone = trim_end DOT zone0 in
     if eq_ignore_ascii_case name zone then ret True
     else if \<not> length zone + 1 < length name then ret False
     else do {
       b \<leftarrow> idx name (length name - length zone - 1);
       (if b \<noteq> DOT then ret False
        else do {
          tail \<leftarrow> str_from name (length name - length zone);
          ret (eq_ignore_ascii_case tail zone)
        })
     })"

section \<open>Reading a query\<close>

text \<open>\<open>iter().position(|&x| x == 0)\<close>\<close>

fun position0 :: "bytes \<Rightarrow> nat option" where
  "position0 [] = None"
| "position0 (x # xs) = (if x = 0 then Some 0 else map_option Suc (position0 xs))"

definition question_section_end :: "bytes \<Rightarrow> nat option exec" where
  "question_section_end query =
     (if length query < 12 then ret None
      else do {
        rest \<leftarrow> subslice query 12 (length query);
        (case position0 rest of
           None \<Rightarrow> ret None
         | Some null_offset \<Rightarrow>
             let e = 12 + null_offset + 5
             in ret (if e \<le> length query then Some e else None))
      })"

definition parse_qtype_qclass :: "bytes \<Rightarrow> (u16 \<times> u16) option exec" where
  "parse_qtype_qclass query = do {
     e \<leftarrow> question_section_end query;
     (case e of
        None \<Rightarrow> ret None
      | Some e \<Rightarrow> do {
          t1 \<leftarrow> idx query (e - 4);
          t2 \<leftarrow> idx query (e - 3);
          c1 \<leftarrow> idx query (e - 2);
          c2 \<leftarrow> idx query (e - 1);
          ret (Some (of_be16 t1 t2, of_be16 c1 c2))
        })
   }"

definition parse_query_opt :: "bytes \<Rightarrow> (nat \<times> bool) option exec" where
  "parse_query_opt query =
     (if length query < 12 then ret None
      else do {
        a1 \<leftarrow> idx query 10;
        a2 \<leftarrow> idx query 11;
        (if of_be16 a1 a2 = 0 then ret None
         else do {
           e \<leftarrow> question_section_end query;
           (case e of
              None \<Rightarrow> ret None
            | Some e \<Rightarrow> do {
                rest \<leftarrow> subslice query e (length query);
                (if \<not> 11 \<le> length rest then ret None
                 else do {
                   r0 \<leftarrow> idx rest 0;
                   r1 \<leftarrow> idx rest 1;
                   r2 \<leftarrow> idx rest 2;
                   (if \<not> (r0 = 0 \<and> r1 = 0 \<and> r2 = 0x29) then ret None
                    else do {
                      s1 \<leftarrow> idx rest 3;
                      s2 \<leftarrow> idx rest 4;
                      f1 \<leftarrow> idx rest 7;
                      f2 \<leftarrow> idx rest 8;
                      ret (Some (max (unat (of_be16 s1 s2)) 512,
                                 of_be16 f1 f2 AND 0x8000 \<noteq> 0))
                    })
                 })
              })
         })
      })"

definition opt_udp_payload_size :: "bytes \<Rightarrow> nat option exec" where
  "opt_udp_payload_size query = do { r \<leftarrow> parse_query_opt query; ret (map_option fst r) }"

definition query_has_opt :: "bytes \<Rightarrow> bool exec" where
  "query_has_opt query = do { r \<leftarrow> opt_udp_payload_size query; ret (r \<noteq> None) }"

definition query_dnssec_ok :: "bytes \<Rightarrow> bool exec" where
  "query_dnssec_ok query = do {
     r \<leftarrow> parse_query_opt query;
     ret (case r of None \<Rightarrow> False | Some (_, do_bit) \<Rightarrow> do_bit)
   }"

definition udp_response_limit :: "bytes \<Rightarrow> nat exec" where
  "udp_response_limit query = do {
     r \<leftarrow> opt_udp_payload_size query;
     ret (min (case r of None \<Rightarrow> DEFAULT_UDP_SIZE | Some n \<Rightarrow> n) (unat EDNS_UDP_SIZE))
   }"

section \<open>The question section\<close>

definition qend :: "bytes \<Rightarrow> nat option" where
  "qend q =
     (if length q < 12 then None
      else case position0 (drop 12 q) of
             None \<Rightarrow> None
           | Some n \<Rightarrow> if n + 17 \<le> length q then Some (n + 17) else None)"

lemma question_section_end_eq [exec_simps]: "question_section_end q = ret (qend q)"
  by (auto simp: question_section_end_def qend_def subslice_ret Let_def split: option.splits)

lemma position0_append: "0 \<notin> set ys \<Longrightarrow> position0 (ys @ 0 # zs) = Some (length ys)"
  by (induction ys) auto

lemma position0_SomeD:
  "position0 xs = Some n \<Longrightarrow> \<exists>ys zs. xs = ys @ 0 # zs \<and> 0 \<notin> set ys \<and> length ys = n"
proof (induction xs arbitrary: n)
  case (Cons x xs)
  show ?case
  proof (cases "x = 0")
    case True
    with Cons.prems show ?thesis by (intro exI [of _ "[]"] exI [of _ xs]) simp
  next
    case False
    with Cons.prems obtain m where "position0 xs = Some m" "n = Suc m"
      by (auto split: if_splits)
    with Cons.IH obtain ys zs where "xs = ys @ 0 # zs" "0 \<notin> set ys" "length ys = m" by blast
    with False \<open>n = Suc m\<close>
    have "x # xs = (x # ys) @ 0 # zs \<and> 0 \<notin> set (x # ys) \<and> length (x # ys) = n" by simp
    then show ?thesis by blast
  qed
qed simp

text \<open>
  A question section is found exactly in the byte lists made of a header of twelve bytes, a
  name without a zero byte, a zero, the four bytes of QTYPE and QCLASS, and anything.
\<close>

lemma qend_iff:
  "qend q = Some e \<longleftrightarrow>
     (\<exists>hdr name t1 t2 c1 c2 rest. q = hdr @ name @ 0 # t1 # t2 # c1 # c2 # rest \<and>
        length hdr = 12 \<and> 0 \<notin> set name \<and> e = 17 + length name)"
proof
  assume e: "qend q = Some e"
  then obtain n where n: "position0 (drop 12 q) = Some n" "n + 17 \<le> length q" "e = n + 17"
    "12 \<le> length q"
    by (auto simp: qend_def split: if_splits option.splits)
  then obtain name zs where d: "drop 12 q = name @ 0 # zs" "0 \<notin> set name" "length name = n"
    using position0_SomeD by blast
  have "length (drop 12 q) = n + 1 + length zs" using d by simp
  with n have "4 \<le> length zs" by simp
  then obtain t1 t2 c1 c2 rest where "zs = t1 # t2 # c1 # c2 # rest"
    by (auto simp: numeral_eq_Suc Suc_le_length_iff)
  with d(1) have "q = take 12 q @ name @ 0 # t1 # t2 # c1 # c2 # rest"
    by (metis append_take_drop_id)
  moreover have "length (take 12 q) = 12" and "e = 17 + length name" using n d(3) by simp_all
  ultimately show "\<exists>hdr name t1 t2 c1 c2 rest. q = hdr @ name @ 0 # t1 # t2 # c1 # c2 # rest \<and>
      length hdr = 12 \<and> 0 \<notin> set name \<and> e = 17 + length name"
    using d(2) by blast
next
  assume "\<exists>hdr name t1 t2 c1 c2 rest. q = hdr @ name @ 0 # t1 # t2 # c1 # c2 # rest \<and>
      length hdr = 12 \<and> 0 \<notin> set name \<and> e = 17 + length name"
  then obtain hdr name t1 t2 c1 c2 rest where
    q: "q = hdr @ name @ 0 # t1 # t2 # c1 # c2 # rest" "length hdr = 12" "0 \<notin> set name"
    "e = 17 + length name"
    by blast
  then have "position0 (drop 12 q) = Some (length name)" by (simp add: position0_append)
  with q show "qend q = Some e" by (simp add: qend_def)
qed

lemma qend_bounds: "qend q = Some e \<Longrightarrow> 17 \<le> e \<and> e \<le> length q"
  by (auto simp: qend_iff)

lemma parse_qtype_qclass_eq [exec_simps]:
  "parse_qtype_qclass q =
     ret (case qend q of
            None \<Rightarrow> None
          | Some e \<Rightarrow> Some (of_be16 (q ! (e - 4)) (q ! (e - 3)), of_be16 (q ! (e - 2)) (q ! (e - 1))))"
proof (cases "qend q")
  case (Some e)
  have "17 \<le> e" and "e \<le> length q" using qend_bounds [OF Some] by simp_all
  then have "idx q (e - k) = ret (q ! (e - k))" if "0 < k" "k \<le> 4" for k
    using that by (simp add: idx_def)
  with Some show ?thesis
    by (simp add: parse_qtype_qclass_def question_section_end_eq)
qed (simp add: parse_qtype_qclass_def question_section_end_eq)

section \<open>The OPT record of a query\<close>

definition opt_of :: "bytes \<Rightarrow> (nat \<times> bool) option" where
  "opt_of q =
     (if length q < 12 \<or> of_be16 (q ! 10) (q ! 11) = 0 then None
      else case qend q of
             None \<Rightarrow> None
           | Some e \<Rightarrow>
               (let rest = drop e q
                in if 11 \<le> length rest \<and> rest ! 0 = 0 \<and> rest ! 1 = 0 \<and> rest ! 2 = 0x29
                   then Some (max (unat (of_be16 (rest ! 3) (rest ! 4))) 512,
                              of_be16 (rest ! 7) (rest ! 8) AND 0x8000 \<noteq> 0)
                   else None))"

lemma parse_query_opt_eq [exec_simps]: "parse_query_opt q = ret (opt_of q)"
proof (cases "length q < 12 \<or> of_be16 (q ! 10) (q ! 11) = 0")
  case True
  then show ?thesis by (auto simp: parse_query_opt_def opt_of_def idx_def)
next
  case False
  show ?thesis
  proof (cases "qend q")
    case None
    with False show ?thesis
      by (simp add: parse_query_opt_def opt_of_def idx_ret question_section_end_eq)
  next
    case (Some e)
    have sub: "subslice q e (length q) = ret (drop e q)"
      using qend_bounds [OF Some] by (simp add: subslice_ret)
    have hdr: "idx q 10 = ret (q ! 10)" "idx q 11 = ret (q ! 11)"
      using False by (simp_all add: idx_ret)
    have rest: "idx (drop e q) i = ret (drop e q ! i)" if "11 \<le> length (drop e q)" "i < 11" for i
      using that by (simp add: idx_def)
    show ?thesis
      using False Some
      by (cases "11 \<le> length (drop e q)")
        (simp_all add: parse_query_opt_def opt_of_def hdr rest question_section_end_eq sub Let_def
          del: nth_drop length_drop)
  qed
qed

definition has_opt :: "bytes \<Rightarrow> bool" where
  "has_opt q \<longleftrightarrow> opt_of q \<noteq> None"

definition wants_dnssec :: "bytes \<Rightarrow> bool" where
  "wants_dnssec q \<longleftrightarrow> (case opt_of q of None \<Rightarrow> False | Some (_, d) \<Rightarrow> d)"

definition udp_limit :: "bytes \<Rightarrow> nat" where
  "udp_limit q = min (case opt_of q of None \<Rightarrow> 512 | Some (n, _) \<Rightarrow> n) 1232"

lemma opt_udp_payload_size_eq [exec_simps]:
  "opt_udp_payload_size q = ret (map_option fst (opt_of q))"
  by (simp add: opt_udp_payload_size_def parse_query_opt_eq)

lemma query_has_opt_eq [exec_simps]: "query_has_opt q = ret (has_opt q)"
  by (auto simp: query_has_opt_def opt_udp_payload_size_eq has_opt_def)

lemma query_dnssec_ok_eq [exec_simps]: "query_dnssec_ok q = ret (wants_dnssec q)"
  by (simp add: query_dnssec_ok_def parse_query_opt_eq wants_dnssec_def)

lemma udp_response_limit_eq [exec_simps]: "udp_response_limit q = ret (udp_limit q)"
  by (auto simp: udp_response_limit_def opt_udp_payload_size_eq udp_limit_def split: option.splits)

lemma opt_of_Some_bound: "opt_of q = Some (n, d) \<Longrightarrow> 512 \<le> n"
  by (auto simp: opt_of_def Let_def split: if_splits option.splits)

lemma udp_limit_bounds: "512 \<le> udp_limit q \<and> udp_limit q \<le> 1232"
  using opt_of_Some_bound [of q] by (auto simp: udp_limit_def split: option.splits)

lemma has_opt_qend: "has_opt q \<Longrightarrow> qend q \<noteq> None"
  by (cases "qend q") (auto simp: has_opt_def opt_of_def split: if_splits)

section \<open>Names on the wire\<close>

text \<open>The labels of a presentation name, and names as lists of labels.\<close>

definition labels :: "rstr \<Rightarrow> rstr list" where
  "labels name = (if trim_end DOT name = [] then [] else split_on DOT (trim_end DOT name))"

definition enc_label :: "rstr \<Rightarrow> bytes" where
  "enc_label l = of_nat (length l) # l"

definition enc_labels :: "rstr list \<Rightarrow> bytes" where
  "enc_labels ls = concat (map enc_label ls) @ [0]"

text \<open>The decoder of RFC 1035, 3.1: length-prefixed labels up to the empty one.\<close>

function wire_labels :: "bytes \<Rightarrow> (rstr list \<times> bytes) option" where
  "wire_labels [] = None"
| "wire_labels (n # bs) =
     (if n = 0 then Some ([], bs)
      else if length bs < unat n then None
      else (case wire_labels (drop (unat n) bs) of
              None \<Rightarrow> None
            | Some (ls, rest) \<Rightarrow> Some (take (unat n) bs # ls, rest)))"
  by pat_completeness auto
termination
  by (relation "measure length") auto

definition label_ok :: "rstr \<Rightarrow> bool" where
  "label_ok l \<longleftrightarrow> l \<noteq> [] \<and> length l \<le> 63"

definition name_ok :: "rstr \<Rightarrow> bool" where
  "name_ok name \<longleftrightarrow> (\<forall>l \<in> set (labels name). label_ok l)"

lemma label_ok_length: "label_ok l \<Longrightarrow> unat (of_nat (length l) :: byte) = length l \<and>
    (of_nat (length l) :: byte) \<noteq> 0"
proof -
  assume l: "label_ok l"
  then have u: "unat (of_nat (length l) :: byte) = length l"
    by (auto simp: label_ok_def unat_of_nat take_bit_nat_eq_self)
  moreover from l have "length l \<noteq> 0" by (simp add: label_ok_def)
  ultimately show ?thesis by (metis unsigned_0)
qed

interpretation wire_name: codec enc_labels wire_labels "\<lambda>ls. \<forall>l \<in> set ls. label_ok l"
proof
  fix ls :: "rstr list" and rest
  assume "\<forall>l \<in> set ls. label_ok l"
  then show "wire_labels (enc_labels ls @ rest) = Some (ls, rest)"
    by (induction ls) (auto simp: enc_labels_def enc_label_def label_ok_length)
qed

text \<open>Conversely, what \<open>wire_labels\<close> accepts is the wire form of the labels it returns.\<close>

lemma wire_labels_enc: "wire_labels bs = Some (ls, rest) \<Longrightarrow> bs = enc_labels ls @ rest"
proof (induction bs arbitrary: ls rule: wire_labels.induct)
  case (2 n bs)
  show ?case
  proof (cases "n = 0")
    case True
    with "2.prems" show ?thesis by (auto simp: enc_labels_def)
  next
    case False
    with "2.prems" obtain ls' where len: "unat n \<le> length bs"
      and w: "wire_labels (drop (unat n) bs) = Some (ls', rest)" and ls: "ls = take (unat n) bs # ls'"
      by (auto split: if_splits option.splits)
    have "drop (unat n) bs = enc_labels ls' @ rest" using "2.IH" [OF False _ w] len by simp
    then have "bs = take (unat n) bs @ enc_labels ls' @ rest" by (metis append_take_drop_id)
    moreover have "n = of_nat (length (take (unat n) bs))" using len by simp
    ultimately show ?thesis unfolding ls by (simp add: enc_labels_def enc_label_def)
  qed
qed simp

lemma to_lower_split_on: "map to_lower (split_on DOT s) = split_on DOT (to_lower s)"
  by (induction s) (auto split: list.splits)

lemma encode_domain_name_labels: "encode_domain_name name = enc_labels (map to_lower (labels name))"
  by (simp add: encode_domain_name_def labels_def enc_labels_def enc_label_def Let_def o_def)

lemma labels_lower: "map to_lower (labels name) = labels (to_lower name)"
  by (auto simp: labels_def to_lower_split_on simp flip: to_lower_trim_end)

lemma label_ok_lower [simp]: "label_ok (to_lower l) = label_ok l"
  by (auto simp: label_ok_def to_lower_def)

lemma names_eq_iff: "names_eq a b \<longleftrightarrow> to_lower (trim_end DOT a) = to_lower (trim_end DOT b)"
  by (simp add: names_eq_def eq_ignore_ascii_case_iff)

lemma labels_inject: "labels a = labels b \<longleftrightarrow> trim_end DOT a = trim_end DOT b"
  by (metis labels_def split_on_inject split_on_not_Nil)

lemma names_eq_labels: "names_eq a b \<longleftrightarrow> map to_lower (labels a) = map to_lower (labels b)"
  by (simp add: labels_lower labels_inject names_eq_iff to_lower_trim_end)

lemma names_eq_refl [simp]: "names_eq a a"
  by (simp add: names_eq_iff)

section \<open>Names below a zone\<close>

text \<open>
  The name \<open>n\<close> ends, up to ASCII case, in a dot and \<open>z\<close>, behind at least one byte.  Both
  \<open>name_in_bailiwick\<close> and \<open>is_in_zone\<close> compute this; on UTF-8 text the slice they take starts at
  a character boundary.
\<close>

definition label_suffix :: "rstr \<Rightarrow> rstr \<Rightarrow> bool" where
  "label_suffix n z \<longleftrightarrow>
     (\<exists>k < length n. 0 < k \<and> to_lower n ! k = DOT \<and> drop (Suc k) (to_lower n) = to_lower z)"

lemma label_suffix_length: "label_suffix n z \<Longrightarrow> length z + 1 < length n"
proof -
  assume "label_suffix n z"
  then obtain k where "k < length n" "0 < k" "drop (Suc k) (to_lower n) = to_lower z"
    by (auto simp: label_suffix_def)
  moreover from this(3) have "length n - Suc k = length z" by (metis length_drop length_to_lower)
  ultimately show ?thesis by linarith
qed

lemma label_suffix_iff:
  assumes "length z + 1 < length n"
  shows "label_suffix n z \<longleftrightarrow> n ! (length n - length z - 1) = DOT \<and>
    eq_ignore_ascii_case (drop (length n - length z) n) z"
proof -
  let ?k = "length n - length z - 1"
  have k: "?k < length n" "0 < ?k" "Suc ?k = length n - length z" using assms by linarith+
  have only: "k = ?k" if "k < length n" "drop (Suc k) (to_lower n) = to_lower z" for k
  proof -
    have "length n - Suc k = length z" using that(2) by (metis length_drop length_to_lower)
    with that(1) assms show ?thesis by linarith
  qed
  have "label_suffix n z \<longleftrightarrow> to_lower n ! ?k = DOT \<and> drop (Suc ?k) (to_lower n) = to_lower z"
    using k(1,2) only unfolding label_suffix_def by blast
  also have "to_lower n ! ?k = DOT \<longleftrightarrow> n ! ?k = DOT"
    using k(1) by (simp add: to_lower_def)
  also have "drop (Suc ?k) (to_lower n) = to_lower (drop (length n - length z) n)"
    by (simp only: k(3) to_lower_def drop_map)
  finally show ?thesis by (simp only: eq_ignore_ascii_case_iff)
qed

lemma label_suffix_code [code]:
  "label_suffix n z \<longleftrightarrow> length z + 1 < length n \<and> n ! (length n - length z - 1) = DOT \<and>
     eq_ignore_ascii_case (drop (length n - length z) n) z"
  using label_suffix_iff [of z n] label_suffix_length [of n z] by blast

lemma label_suffix_slice:
  assumes "utf8_valid n" and "length z + 1 < length n" and "n ! (length n - length z - 1) = DOT"
  shows "str_from n (length n - length z) = ret (drop (length n - length z) n)"
proof -
  have "Suc (length n - length z - 1) = length n - length z" and "length n - length z - 1 < length n"
    using assms(2) by linarith+
  then show ?thesis
    using str_from_after_ascii [of n "length n - length z - 1"] assms(1,3) by simp
qed

definition in_bailiwick :: "rstr \<Rightarrow> rstr \<Rightarrow> bool" where
  "in_bailiwick name zone \<longleftrightarrow> names_eq name zone \<or> label_suffix (trim_end DOT name) (trim_end DOT zone)"

lemma name_in_bailiwick_eq [exec_simps]:
  assumes "utf8_valid name"
  shows "name_in_bailiwick name zone = ret (in_bailiwick name zone)"
proof -
  let ?n = "trim_end DOT name" and ?z = "trim_end DOT zone"
  have valid: "utf8_valid ?n" using assms by (rule utf8_valid_trim_end) simp
  show ?thesis
  proof (cases "length ?z + 1 < length ?n")
    case False
    with label_suffix_length show ?thesis
      by (auto simp: name_in_bailiwick_def in_bailiwick_def names_eq_def Let_def)
  next
    case True
    have i: "idx ?n (length ?n - length ?z - 1) = ret (?n ! (length ?n - length ?z - 1))"
      using True by (intro idx_ret) linarith
    show ?thesis
      using True label_suffix_slice [OF valid True]
      by (simp add: name_in_bailiwick_def in_bailiwick_def names_eq_def Let_def i
          label_suffix_iff [OF True] del: diff_diff_left One_nat_def)
  qed
qed

text \<open>
  C34: \<open>encode_domain_name\<close> writes a well-formed name as its lower-cased labels: a resolver that
  decodes the bytes gets exactly those labels and what follows the name.
\<close>

theorem encode_domain_name_roundtrip:
  assumes "name_ok name"
  shows "wire_labels (encode_domain_name name @ rest) = Some (map to_lower (labels name), rest)"
  using assms by (simp add: encode_domain_name_labels wire_name.dec_enc name_ok_def)

theorem encode_domain_name_roundtrip_witness:
  "wire_labels (encode_domain_name (lit ''Ns1.Addr.SE.'') @ [1, 2]) =
     Some ([lit ''ns1'', lit ''addr'', lit ''se''], [1, 2])"
  using encode_domain_name_roundtrip [of "lit ''Ns1.Addr.SE.''" "[1, 2]"] by code_simp

text \<open>
  Two well-formed names have the same wire form exactly when \<open>names_eq\<close> holds, that is when
  they agree up to ASCII case and trailing dots.
\<close>

theorem encode_domain_name_eq_iff:
  assumes "name_ok a" and "name_ok b"
  shows "encode_domain_name a = encode_domain_name b \<longleftrightarrow> names_eq a b"
  using assms wire_name.enc_inject [of "map to_lower (labels a)" "map to_lower (labels b)"]
  by (auto simp: encode_domain_name_labels names_eq_labels name_ok_def)

theorem encode_domain_name_eq_iff_witness:
  "encode_domain_name (lit ''NIP.nu'') = encode_domain_name (lit ''nip.nu.'')"
proof -
  have "name_ok (lit ''NIP.nu'')" and "name_ok (lit ''nip.nu.'')"
    and "names_eq (lit ''NIP.nu'') (lit ''nip.nu.'')"
    by code_simp+
  then show ?thesis by (simp add: encode_domain_name_eq_iff)
qed

text \<open>
  The UDP size limit is defined for every query and stays between 512 and 1232 bytes,
  whatever size the client advertises.
\<close>

theorem udp_response_limit_bounds:
  "\<exists>n. udp_response_limit query = ret n \<and> 512 \<le> n \<and> n \<le> 1232"
  using udp_limit_bounds by (simp add: udp_response_limit_eq)

end
