(* ===== verification/Dnssec.thy ===== *)
theory Dnssec
  imports Wire "HOL-Library.List_Lexorder"
begin

text \<open>
  \<open>src/dns/dnssec.rs\<close>: the signing key with its DNSKEY data and key tag, the DS data, RRSIG
  signing, NSEC data with its type bitmap, and the canonical wire form of owner names.

  The crates \<open>p256\<close> and \<open>sha2\<close> are parameters: the record \<open>crypto\<close> holds the functions of them
  that the code calls, over an abstract type of signing keys.  The system clock is a parameter
  too: \<open>clk n\<close> is what reading number \<open>n\<close> returns, seconds since 1970 or \<open>None\<close> before it.
\<close>

section \<open>The program\<close>

definition ALG_ECDSAP256SHA256 :: byte where [simp]: "ALG_ECDSAP256SHA256 = 13"
definition DIGEST_SHA256 :: byte where [simp]: "DIGEST_SHA256 = 2"
definition DNSKEY_FLAGS_CSK :: u16 where [simp]: "DNSKEY_FLAGS_CSK = 257"
definition DNSKEY_PROTOCOL :: byte where [simp]: "DNSKEY_PROTOCOL = 3"
definition SIGNATURE_VALIDITY_SECS :: u32 where [simp]: "SIGNATURE_VALIDITY_SECS = 7 * 24 * 3600"
definition INCEPTION_SKEW_SECS :: u32 where [simp]: "INCEPTION_SKEW_SECS = 3600"

text \<open>
  \<open>cr_point k\<close> is \<open>verifying_key().to_sec1_point(false).as_bytes()\<close>, \<open>cr_sign k m\<close> is
  \<open>sign(m).to_bytes()\<close>, \<open>cr_sha256\<close> the digest, and the last three build a key from a scalar or
  from PEM text (\<open>Inl\<close> carries the error text of the crate).
\<close>

record 'k crypto =
  cr_point :: "'k \<Rightarrow> bytes"
  cr_sign :: "'k \<Rightarrow> bytes \<Rightarrow> bytes"
  cr_sha256 :: "bytes \<Rightarrow> bytes"
  cr_from_slice :: "bytes \<Rightarrow> 'k option"
  cr_from_pkcs8_pem :: "rstr \<Rightarrow> rstr + 'k"
  cr_from_sec1_pem :: "rstr \<Rightarrow> 'k option"

type_synonym clock = "nat \<Rightarrow> nat option"

record 'k dnssec_key =
  dk_signing_key :: 'k
  dk_dnskey_rdata :: bytes
  dk_key_tag :: u16

subsection \<open>Key tag, labels, lower case\<close>

fun key_tag_loop :: "nat \<Rightarrow> bytes \<Rightarrow> u32 \<Rightarrow> u32" where
  "key_tag_loop i [] ac = ac"
| "key_tag_loop i (b # bs) ac =
     key_tag_loop (Suc i) bs (ac + (if i mod 2 = 0 then push_bit 8 (ucast b) else ucast b))"

definition key_tag :: "bytes \<Rightarrow> u16" where
  "key_tag dnskey_rdata =
     (let ac = key_tag_loop 0 dnskey_rdata 0;
          ac = ac + drop_bit 16 ac
      in ucast ac)"

function label_count_loop :: "bytes \<Rightarrow> nat \<Rightarrow> byte \<Rightarrow> byte" where
  "label_count_loop wire_name i n =
     (if i < length wire_name \<and> wire_name ! i \<noteq> 0
      then label_count_loop wire_name (i + (1 + unat (wire_name ! i))) (sat_add n 1)
      else n)"
  by pat_completeness auto
termination
  by (relation "measure (\<lambda>(w, i, n). length w - i)") auto

declare label_count_loop.simps [simp del]

definition label_count :: "bytes \<Rightarrow> byte" where
  "label_count wire_name = label_count_loop wire_name 0 0"

function lowercase_loop :: "bytes \<Rightarrow> nat \<Rightarrow> bytes exec" where
  "lowercase_loop out i =
     (if i < length out \<and> out ! i \<noteq> 0 then
        (let len = unat (out ! i);
             start = i + 1;
             e = min (start + len) (length out)
         in case subslice out start e of
              None \<Rightarrow> panic
            | Some seg \<Rightarrow>
                lowercase_loop (take start out @ map ascii_lower seg @ drop e out) e)
      else ret out)"
  by pat_completeness auto
termination
  by (relation "measure (\<lambda>(out, i). length out - i)") (auto simp: subslice_def split: if_splits)

declare lowercase_loop.simps [simp del]

definition lowercase_wire_name :: "bytes \<Rightarrow> bytes exec" where
  "lowercase_wire_name name = lowercase_loop name 0"

subsection \<open>Hexadecimal text\<close>

definition HEX :: bytes where
  "HEX = lit ''0123456789ABCDEF''"

definition hex_encode :: "bytes \<Rightarrow> rstr exec" where
  "hex_encode bytes =
     fold_exec (\<lambda>s b. do {
         h \<leftarrow> idx HEX (unat (drop_bit 4 b));
         l \<leftarrow> idx HEX (unat (b AND 0x0f));
         ret (s @ [h] @ [l])
       }) [] bytes"

definition parse_hex_scalar :: "rstr \<Rightarrow> (rstr + bytes) exec" where
  "parse_hex_scalar raw =
     (let hex = remove_ws raw in
      if length hex \<noteq> 64 \<or> \<not> list_all is_ascii_hexdigit hex
      then ret (Inl (lit ''expected 64 hex characters (32-byte P-256 scalar)''))
      else do {
        r \<leftarrow> hex_octet_loop hex 0 32 (replicate 32 0);
        ret (case r of
               None \<Rightarrow> Inl (lit ''invalid hex in DNSSEC_PRIVATE_KEY'')
             | Some out \<Rightarrow> Inr out)
      })"

definition parse_pem :: "'k crypto \<Rightarrow> rstr \<Rightarrow> rstr + 'k" where
  "parse_pem cr raw =
     (if contains_str (lit ''BEGIN PRIVATE KEY'') raw then
        (case cr_from_pkcs8_pem cr raw of Inl e \<Rightarrow> Inl (lit ''PKCS#8 PEM: '' @ e) | Inr k \<Rightarrow> Inr k)
      else if contains_str (lit ''BEGIN EC PRIVATE KEY'') raw then
        (case cr_from_sec1_pem cr raw of
           None \<Rightarrow> Inl (lit ''invalid SEC1 EC PRIVATE KEY PEM'')
         | Some k \<Rightarrow> Inr k)
      else Inl (lit ''unsupported PEM label (expected PRIVATE KEY or EC PRIVATE KEY)''))"

subsection \<open>Keys\<close>

definition from_signing_key :: "'k crypto \<Rightarrow> 'k \<Rightarrow> 'k dnssec_key exec" where
  "from_signing_key cr k = (
     let bytes = cr_point cr k in
     if \<not> (bytes \<noteq> [] \<and> hd bytes = 0x04) \<or> length bytes \<noteq> 65 then panic
     else do {
       xy \<leftarrow> subslice bytes 1 (length bytes);
       let rdata = be16 DNSKEY_FLAGS_CSK @ [DNSKEY_PROTOCOL] @ [ALG_ECDSAP256SHA256] @ xy;
       ret \<lparr> dk_signing_key = k, dk_dnskey_rdata = rdata, dk_key_tag = key_tag rdata \<rparr>
     })"

definition from_private_key_str :: "'k crypto \<Rightarrow> rstr \<Rightarrow> (rstr + 'k dnssec_key) exec" where
  "from_private_key_str cr raw0 = (
     let raw = replace2 92 110 [10] (trim raw0) in
     if raw = [] then ret (Inl (lit ''empty DNSSEC_PRIVATE_KEY''))
     else do {
       secret \<leftarrow>
         (if contains_str (lit ''BEGIN'') raw then ret (parse_pem cr raw)
          else do {
            bytes \<leftarrow> parse_hex_scalar raw;
            ret (case bytes of
                   Inl e \<Rightarrow> Inl e
                 | Inr bs \<Rightarrow>
                     (case cr_from_slice cr bs of
                        None \<Rightarrow> Inl (lit ''DNSSEC_PRIVATE_KEY hex is not a valid P-256 scalar'')
                      | Some k \<Rightarrow> Inr k))
          });
       (case secret of
          Inl e \<Rightarrow> ret (Inl e)
        | Inr k \<Rightarrow> do { key \<leftarrow> from_signing_key cr k; ret (Inr key) })
     })"

text \<open>\<open>from_env\<close>, given the environment variable; the \<open>expect\<close> makes an invalid key a panic.\<close>

definition dnssec_key_from_env :: "'k crypto \<Rightarrow> rstr option \<Rightarrow> 'k dnssec_key option exec" where
  "dnssec_key_from_env cr var =
     (case var of
        None \<Rightarrow> ret None
      | Some raw \<Rightarrow>
          if trim raw = [] then ret None
          else do {
            r \<leftarrow> from_private_key_str cr raw;
            (case r of Inl _ \<Rightarrow> panic | Inr key \<Rightarrow> ret (Some key))
          })"

definition dnskey_rdata :: "'k dnssec_key \<Rightarrow> bytes" where
  "dnskey_rdata key = dk_dnskey_rdata key"

definition ds_rdata :: "'k crypto \<Rightarrow> 'k dnssec_key \<Rightarrow> rstr \<Rightarrow> bytes" where
  "ds_rdata cr key zone =
     (let digest = cr_sha256 cr (encode_domain_name zone @ dk_dnskey_rdata key)
      in be16 (dk_key_tag key) @ [ALG_ECDSAP256SHA256] @ [DIGEST_SHA256] @ digest)"

definition ds_digest_hex :: "'k crypto \<Rightarrow> 'k dnssec_key \<Rightarrow> rstr \<Rightarrow> rstr exec" where
  "ds_digest_hex cr key zone = (
     let rdata = ds_rdata cr key zone in do {
       digest \<leftarrow> subslice rdata 4 (length rdata);
       hex_encode digest
     })"

definition ds_presentation :: "'k crypto \<Rightarrow> 'k dnssec_key \<Rightarrow> rstr \<Rightarrow> rstr exec" where
  "ds_presentation cr key zone = do {
     hex \<leftarrow> ds_digest_hex cr key zone;
     ret (show_nat (unat (dk_key_tag key)) @ [32] @ show_nat (unat ALG_ECDSAP256SHA256) @ [32] @
          show_nat (unat DIGEST_SHA256) @ [32] @ hex)
   }"

subsection \<open>Signing\<close>

definition signature_times :: "clock \<Rightarrow> nat \<Rightarrow> u32 \<times> u32" where
  "signature_times clk n =
     (let now = (case clk n of Some secs \<Rightarrow> of_nat secs | None \<Rightarrow> 0) :: u32;
          inception = sat_sub now INCEPTION_SKEW_SECS;
          expiration = sat_add now SIGNATURE_VALIDITY_SECS
      in (inception, expiration))"

definition sign_rrsig ::
    "'k crypto \<Rightarrow> clock \<Rightarrow> nat \<Rightarrow> 'k dnssec_key \<Rightarrow> bytes \<Rightarrow> u16 \<Rightarrow> u32 \<Rightarrow> bytes list \<Rightarrow> rstr \<Rightarrow> bytes" where
  "sign_rrsig cr clk n key owner_wire typ original_ttl rdatas signer_name =
     (let labels = label_count owner_wire;
          (inception, expiration) = signature_times clk n;
          signer = encode_domain_name signer_name;
          prefix = be16 typ @ [ALG_ECDSAP256SHA256] @ [labels] @ be32 original_ttl @
                   be32 expiration @ be32 inception @ be16 (dk_key_tag key) @ signer;
          to_sign = foldl (\<lambda>acc rdata.
              acc @ owner_wire @ be16 typ @ be16 CLASS_IN @ be32 original_ttl @
              be16 (of_nat (length rdata)) @ rdata) prefix rdatas;
          signature = cr_sign cr (dk_signing_key key) to_sign
      in prefix @ signature)"

definition owner_canonical_wire :: "bytes \<Rightarrow> bool \<Rightarrow> rstr option \<Rightarrow> bytes exec" where
  "owner_canonical_wire query owner_is_question name =
     (if owner_is_question then do {
        e \<leftarrow> question_section_end query;
        (case e of
           None \<Rightarrow> panic
         | Some e \<Rightarrow> do {
             qname \<leftarrow> subslice query 12 (e - 4);
             lowercase_wire_name qname
           })
      }
      else (case name of None \<Rightarrow> panic | Some n \<Rightarrow> ret (encode_domain_name n)))"

subsection \<open>NSEC\<close>

text \<open>The state of the bitmap loop: output, current window, its 32 bytes, highest byte used.\<close>

type_synonym bitmap_state = "bytes \<times> byte option \<times> bytes \<times> nat"

definition flush_window :: "bytes \<Rightarrow> byte \<Rightarrow> bytes \<Rightarrow> nat \<Rightarrow> bytes exec" where
  "flush_window out window bits max_byte = (
     let len = max_byte + 1 in do {
       bs \<leftarrow> subslice bits 0 len;
       ret (out @ [window] @ [of_nat len] @ bs)
     })"

definition bitmap_step :: "bitmap_state \<Rightarrow> u16 \<Rightarrow> bitmap_state exec" where
  "bitmap_step st typ = (
     let (out, window, bits, max_byte) = st;
         w = ucast (typ div 256) :: byte;
         bit = unat (typ mod 256)
     in do {
       (out, bits, max_byte) \<leftarrow>
         (case window of
            Some cur \<Rightarrow>
              if cur \<noteq> w then do {
                out' \<leftarrow> flush_window out cur bits max_byte;
                ret (out', replicate 32 0, 0)
              } else ret (out, bits, max_byte)
          | None \<Rightarrow> ret (out, bits, max_byte));
       b \<leftarrow> idx bits (bit div 8);
       bits \<leftarrow> upd bits (bit div 8) (b OR push_bit (7 - bit mod 8) 1);
       ret (out, Some w, bits, max max_byte (bit div 8))
     })"

definition type_bitmap :: "u16 list \<Rightarrow> bytes exec" where
  "type_bitmap types0 = (
     let types = remdups_adj (sort types0) in
     if types = [] then ret [0, 0]
     else do {
       (out, window, bits, max_byte) \<leftarrow> fold_exec bitmap_step ([], None, replicate 32 0, 0) types;
       (case window of
          Some w \<Rightarrow> flush_window out w bits max_byte
        | None \<Rightarrow> ret out)
     })"

definition nsec_types :: "u16 list \<Rightarrow> u16 list" where
  "nsec_types existing = remdups_adj (sort (existing @ [TYPE_NSEC, TYPE_RRSIG]))"

definition nsec_rdata :: "bytes \<Rightarrow> u16 list \<Rightarrow> bytes exec" where
  "nsec_rdata qname_wire existing_types = do {
     name \<leftarrow> lowercase_wire_name qname_wire;
     bitmap \<leftarrow> type_bitmap existing_types;
     ret ([1, 0] @ name @ bitmap)
   }"

section \<open>Key tags\<close>

text \<open>The sum of RFC 4034, appendix B, over the natural numbers.\<close>

fun key_sum :: "nat \<Rightarrow> bytes \<Rightarrow> nat" where
  "key_sum i [] = 0"
| "key_sum i (b # bs) = (if even i then 256 * unat b else unat b) + key_sum (Suc i) bs"

lemma key_sum_bound: "key_sum i bs \<le> 65280 * length bs"
proof (induction bs arbitrary: i)
  case (Cons b bs)
  have "256 * unat b \<le> 65280" and "unat b \<le> 65280"
    using unat_byte_le [of b] by linarith+
  then have "(if even i then 256 * unat b else unat b) \<le> 65280" by simp
  with Cons [of "Suc i"] show ?case by simp
qed simp

lemma unat_ucast_byte: "unat (ucast (b :: byte) :: u32) = unat b"
proof -
  have "unat b < 4294967296" using unat_byte_less [of b] by linarith
  then show ?thesis by (simp add: unsigned_ucast_eq take_bit_nat_eq_self)
qed

lemma unat_shift_byte: "unat (push_bit 8 (ucast (b :: byte)) :: u32) = 256 * unat b"
proof -
  have "256 * unat b < 4294967296" using unat_byte_less [of b] by linarith
  then show ?thesis
    by (simp add: push_bit_eq_mult unat_word_ariths unat_ucast_byte mult.commute)
qed

lemma unat_key_term:
  "unat ((if i mod 2 = 0 then push_bit 8 (ucast b) else ucast b) :: u32) =
     (if even i then 256 * unat (b :: byte) else unat b)"
  by (simp add: unat_shift_byte unat_ucast_byte even_iff_mod_2_eq_zero)

lemma unat_key_tag_loop:
  "unat ac + key_sum i bs < 2 ^ 32 \<Longrightarrow> unat (key_tag_loop i bs ac) = unat ac + key_sum i bs"
proof (induction bs arbitrary: i ac)
  case (Cons b bs)
  let ?t = "(if i mod 2 = 0 then push_bit 8 (ucast b) else ucast b) :: u32"
  have t: "unat ?t = (if even i then 256 * unat b else unat b)" by (rule unat_key_term)
  have "unat (ac + ?t) = unat ac + unat ?t"
    using Cons.prems t by (simp add: unat_word_ariths)
  then show ?case
    using Cons.IH [of "ac + ?t" "Suc i"] Cons.prems t by simp
qed simp

lemma unat_key_tag:
  assumes "length rdata \<le> 65535"
  shows "unat (key_tag rdata) = (key_sum 0 rdata + key_sum 0 rdata div 65536) mod 65536"
proof -
  let ?s = "key_sum 0 rdata"
  have s: "?s \<le> 4278124800" using key_sum_bound [of 0 rdata] assms by linarith
  then have ac: "unat (key_tag_loop 0 rdata 0) = ?s"
    by (subst unat_key_tag_loop) auto
  have "?s + ?s div 65536 < 2 ^ 32"
  proof -
    have "?s div 65536 \<le> 65280" using s by auto
    with s have "?s + ?s div 65536 < 4294967296" by linarith
    then show ?thesis by simp
  qed
  then have "unat (key_tag_loop 0 rdata 0 + drop_bit 16 (key_tag_loop 0 rdata 0)) = ?s + ?s div 65536"
    by (simp add: unat_word_ariths ac unsigned_drop_bit_eq drop_bit_eq_div take_bit_nat_eq_self)
  then show ?thesis
    by (simp add: key_tag_def Let_def unsigned_ucast_eq take_bit_eq_mod)
qed

text \<open>
  C25: the key tag is the one of RFC 4034, appendix B, computed without overflow: for every
  record data that fits an RR (at most 65535 bytes) the 32-bit accumulator holds the exact sum,
  the carry is added once, and the low 16 bits are returned.
\<close>

theorem key_tag_rfc4034:
  assumes "length rdata \<le> 65535"
  shows "unat (key_tag rdata) = (key_sum 0 rdata + key_sum 0 rdata div 65536) mod 65536"
  by (rule unat_key_tag [OF assms])

theorem key_tag_rfc4034_witness:
  "unat (key_tag ([1, 1, 3, 13] @ replicate 64 0)) = 1038"
proof -
  have "key_sum 0 ([1, 1, 3, 13] @ replicate 64 0) = 1038" by code_simp
  then show ?thesis using key_tag_rfc4034 [of "[1, 1, 3, 13] @ replicate 64 0"] by simp
qed

section \<open>Canonical owner names\<close>

lemma label_count_loop_enc:
  "\<forall>l \<in> set ls. label_ok l \<Longrightarrow>
     unat (label_count_loop (pre @ enc_labels ls @ rest) (length pre) n) = min 255 (unat n + length ls)"
proof (induction ls arbitrary: pre n)
  case Nil
  then show ?case
    using unat_byte_le [of n]
    by (subst label_count_loop.simps) (auto simp: enc_labels_def nth_append)
next
  case (Cons l ls)
  let ?w = "pre @ enc_labels (l # ls) @ rest"
  have w: "?w = (pre @ enc_label l) @ enc_labels ls @ rest" by (simp add: enc_labels_def)
  have hd: "?w ! length pre = of_nat (length l)" "length pre < length ?w"
    by (simp_all add: enc_labels_def enc_label_def nth_append)
  have ok: "unat (of_nat (length l) :: byte) = length l" "(of_nat (length l) :: byte) \<noteq> 0"
    using Cons.prems label_ok_length by simp_all
  have "label_count_loop ?w (length pre) n =
      label_count_loop ?w (length (pre @ enc_label l)) (sat_add n 1)"
    using hd ok by (subst label_count_loop.simps) (simp add: enc_label_def)
  then show ?case
    using Cons.IH [of "pre @ enc_label l" "sat_add n 1"] Cons.prems
    by (simp add: w unat_sat_add)
qed

text \<open>
  The label count of an encoded name is its number of labels (255 at most).
\<close>

theorem label_count_encode:
  assumes "name_ok name"
  shows "unat (label_count (encode_domain_name name)) = min 255 (length (labels name))"
  using assms label_count_loop_enc [of "map to_lower (labels name)" "[]" "[]" 0]
  by (simp add: label_count_def encode_domain_name_labels name_ok_def)

theorem label_count_encode_witness:
  "unat (label_count (encode_domain_name (lit ''127.0.0.1.nip.nu''))) = 6"
proof -
  have "name_ok (lit ''127.0.0.1.nip.nu'')" and "length (labels (lit ''127.0.0.1.nip.nu'')) = 6"
    by code_simp+
  then show ?thesis by (simp add: label_count_encode)
qed

text \<open>What \<open>lowercase_wire_name\<close> computes.\<close>

function lower_wire :: "bytes \<Rightarrow> bytes" where
  "lower_wire [] = []"
| "lower_wire (n # bs) =
     (if n = 0 then n # bs
      else n # map ascii_lower (take (unat n) bs) @ lower_wire (drop (unat n) bs))"
  by pat_completeness auto
termination
  by (relation "measure length") auto

lemma split_at: "length a = n \<Longrightarrow> take n (a @ b) = a \<and> drop n (a @ b) = b"
  by simp

lemma lowercase_loop_eq: "lowercase_loop out i = ret (take i out @ lower_wire (drop i out))"
proof (induction out i rule: lowercase_loop.induct)
  case (1 out i)
  show ?case
  proof (cases "i < length out \<and> out ! i \<noteq> 0")
    case False
    then have "lower_wire (drop i out) = drop i out"
      by (cases "i < length out") (auto simp: Cons_nth_drop_Suc [symmetric])
    with False show ?thesis by (subst lowercase_loop.simps) (simp only: if_False append_take_drop_id)
  next
    case True
    let ?n = "unat (out ! i)" and ?s = "i + 1"
    let ?e = "min (?s + ?n) (length out)"
    let ?seg = "take (?e - ?s) (drop ?s out)"
    let ?out = "take ?s out @ map ascii_lower ?seg @ drop ?e out"
    have sub: "subslice out ?s ?e = ret ?seg"
      using True by (intro subslice_ret) auto
    have loop: "lowercase_loop out i = lowercase_loop ?out ?e"
      using True by (subst lowercase_loop.simps) (simp only: Let_def sub option.case if_True simp_thms)
    have IH: "lowercase_loop ?out ?e = ret (take ?e ?out @ lower_wire (drop ?e ?out))"
      by (rule "1.IH" [OF True refl refl refl sub])
    have len: "length (take ?s out @ map ascii_lower ?seg) = ?e" using True by auto
    have t: "take ?e ?out = take ?s out @ map ascii_lower ?seg" and d: "drop ?e ?out = drop ?e out"
      using split_at [OF len, of "drop ?e out"] by (simp_all only: append_assoc)
    have hd: "drop i out = out ! i # drop ?s out" and tl: "take ?s out = take i out @ [out ! i]"
      using True by (simp_all add: Cons_nth_drop_Suc take_Suc_conv_app_nth)
    have seg: "take ?n (drop ?s out) = ?seg" and rest: "drop ?n (drop ?s out) = drop ?e out"
      by (cases "?s + ?n \<le> length out"; simp add: min_def add.commute)+
    have nz: "(out ! i = 0) = False" using True by simp
    have "lower_wire (drop i out) =
        out ! i # map ascii_lower (take ?n (drop ?s out)) @ lower_wire (drop ?n (drop ?s out))"
      by (subst hd, subst lower_wire.simps(2)) (simp only: nz if_False)
    then have lw: "lower_wire (drop i out) = out ! i # map ascii_lower ?seg @ lower_wire (drop ?e out)"
      by (simp only: seg rest)
    have "take ?e ?out @ lower_wire (drop ?e ?out) =
        (take ?s out @ map ascii_lower ?seg) @ lower_wire (drop ?e out)"
      by (simp only: t d)
    also have "\<dots> = take i out @ lower_wire (drop i out)"
      by (simp only: lw tl append_assoc append_Cons append_Nil)
    finally show ?thesis by (simp only: loop IH)
  qed
qed

lemma lowercase_wire_name_eq [exec_simps]: "lowercase_wire_name name = ret (lower_wire name)"
  by (simp add: lowercase_wire_name_def lowercase_loop_eq)

lemma length_lower_wire [simp]: "length (lower_wire bs) = length bs"
  by (induction bs rule: lower_wire.induct) auto

lemma lower_wire_enc: "\<forall>l \<in> set ls. label_ok l \<Longrightarrow>
    lower_wire (enc_labels ls @ rest) = enc_labels (map to_lower ls) @ rest"
  by (induction ls) (auto simp: enc_labels_def enc_label_def label_ok_length to_lower_def)

lemma lower_wire_idem: "lower_wire (lower_wire bs) = lower_wire bs"
proof (induction bs rule: lower_wire.induct)
  case (2 n bs)
  show ?case
  proof (cases "n = 0 \<or> unat n \<le> length bs")
    case True
    with 2 show ?thesis by (auto simp: to_lower_def)
  next
    case False
    with 2 show ?thesis by (simp add: to_lower_def)
  qed
qed simp

text \<open>
  Lower-casing a wire name never panics, keeps the length, and is idempotent: what is signed
  is stable under canonicalisation, for every byte string, well-formed as a name or not.
\<close>

theorem lowercase_wire_name_total:
  "\<exists>out. lowercase_wire_name name = ret out \<and> length out = length name \<and>
     lowercase_wire_name out = ret out"
  by (simp add: lowercase_wire_name_eq lower_wire_idem)

text \<open>The name field of a question as \<open>owner_canonical_wire\<close> slices it.\<close>

lemma owner_canonical_wire_question:
  assumes "qend q = Some e"
  shows "owner_canonical_wire q True None = ret (lower_wire (take (e - 16) (drop 12 q)))"
proof -
  have "17 \<le> e" and "e \<le> length q" using qend_bounds [OF assms] by simp_all
  then show ?thesis
    by (simp add: owner_canonical_wire_def question_section_end_eq assms subslice_ret
        lowercase_wire_name_eq)
qed

definition question :: "bytes \<Rightarrow> rstr list \<Rightarrow> u16 \<Rightarrow> u16 \<Rightarrow> bytes \<Rightarrow> bytes" where
  "question hdr ls qtype qclass rest = hdr @ enc_labels ls @ be16 qtype @ be16 qclass @ rest"

definition qlabels_ok :: "rstr list \<Rightarrow> bool" where
  "qlabels_ok ls \<longleftrightarrow> (\<forall>l \<in> set ls. label_ok l \<and> 0 \<notin> set l)"

lemma enc_labels_no_zero:
  "qlabels_ok ls \<Longrightarrow> 0 \<notin> set (concat (map enc_label ls))"
  using label_ok_length by (fastforce simp: qlabels_ok_def enc_label_def)

lemma qend_question:
  assumes "length hdr = 12" and "qlabels_ok ls"
  shows "qend (question hdr ls qtype qclass rest) = Some (16 + length (enc_labels ls))"
proof -
  have "question hdr ls qtype qclass rest = hdr @ concat (map enc_label ls) @ 0 #
      ucast (drop_bit 8 qtype) # ucast qtype # ucast (drop_bit 8 qclass) # ucast qclass # rest"
    by (simp add: question_def enc_labels_def be16_def)
  moreover have "16 + length (enc_labels ls) = 17 + length (concat (map enc_label ls))"
    by (simp add: enc_labels_def)
  ultimately show ?thesis
    using assms(1) enc_labels_no_zero [OF assms(2)] unfolding qend_iff by blast
qed

lemma question_name:
  "length hdr = 12 \<Longrightarrow> take (length (enc_labels ls)) (drop 12 (question hdr ls qtype qclass rest)) =
     enc_labels ls"
  by (simp add: question_def)

text \<open>
  The owner written into a signature for the question is the question's name in canonical
  form: its labels, lower-cased, however the client spelled them; the same bytes
  \<open>encode_domain_name\<close> writes for the name.
\<close>

theorem owner_canonical_wire_of_question:
  assumes "length hdr = 12" and "qlabels_ok ls"
  shows "owner_canonical_wire (question hdr ls qtype qclass rest) True None =
    ret (enc_labels (map to_lower ls))"
proof -
  let ?q = "question hdr ls qtype qclass rest"
  have "owner_canonical_wire ?q True None =
      ret (lower_wire (take (length (enc_labels ls)) (drop 12 ?q)))"
    using owner_canonical_wire_question [OF qend_question [OF assms]] by simp
  also have "\<dots> = ret (lower_wire (enc_labels ls))"
    using question_name [OF assms(1)] by (simp only:)
  also have "lower_wire (enc_labels ls) = enc_labels (map to_lower ls)"
    using assms(2) lower_wire_enc [of ls "[]"] by (simp add: qlabels_ok_def)
  finally show ?thesis .
qed

theorem owner_canonical_wire_of_question_witness:
  "owner_canonical_wire
     (question (replicate 12 0) [lit ''10-0-0-1'', lit ''NIP'', lit ''nU''] 1 1 []) True None =
   ret (encode_domain_name (lit ''10-0-0-1.nip.nu''))"
proof -
  have "qlabels_ok [lit ''10-0-0-1'', lit ''NIP'', lit ''nU'']" by code_simp
  moreover have "enc_labels (map to_lower [lit ''10-0-0-1'', lit ''NIP'', lit ''nU'']) =
      encode_domain_name (lit ''10-0-0-1.nip.nu'')" by code_simp
  ultimately show ?thesis
    using owner_canonical_wire_of_question [of "replicate 12 0" "[lit ''10-0-0-1'', lit ''NIP'', lit ''nU'']"]
    by simp
qed

section \<open>Keys as text\<close>

definition hex_upper :: "byte \<Rightarrow> rstr" where
  "hex_upper b = [HEX ! (unat b div 16), HEX ! (unat b mod 16)]"

lemma unat_nibbles: "unat (drop_bit 4 (b :: byte)) = unat b div 16" "unat (b AND 0x0f) = unat b mod 16"
proof -
  show "unat (drop_bit 4 b) = unat b div 16"
    by (simp add: drop_bit_eq_div unat_div)
  have "b AND 0x0f = take_bit 4 b" by (simp add: take_bit_eq_mask mask_eq_exp_minus_1)
  then show "unat (b AND 0x0f) = unat b mod 16"
    by (simp add: unsigned_take_bit_eq take_bit_eq_mod unat_mod)
qed

lemma length_HEX [simp]: "length HEX = 16"
  by (simp add: HEX_def lit_def)

lemma hex_encode_eq [exec_simps]: "hex_encode bs = ret (concat (map hex_upper bs))"
proof -
  have "fold_exec (\<lambda>s b. do {
         h \<leftarrow> idx HEX (unat (drop_bit 4 b));
         l \<leftarrow> idx HEX (unat (b AND 0x0f));
         ret (s @ [h] @ [l])
       }) s bs = ret (s @ concat (map hex_upper bs))" for s
    by (induction bs arbitrary: s) (simp_all add: unat_nibbles idx_ret hex_upper_def)
  from this [of "[]"] show ?thesis by (simp add: hex_encode_def)
qed

lemma HEX_digit: "d < 16 \<Longrightarrow> ascii_lower (HEX ! d) = digit_char d \<and> 33 \<le> HEX ! d \<and> HEX ! d < 0x80"
proof -
  have "\<forall>d \<in> set [0..<16].
      ascii_lower (HEX ! d) = digit_char d \<and> 33 \<le> HEX ! d \<and> HEX ! d < 0x80" by code_simp
  moreover assume "d < 16"
  ultimately show ?thesis by simp
qed

lemma to_lower_hex_upper: "to_lower (concat (map hex_upper bs)) = concat (map hex_pair bs)"
  by (induction bs) (auto simp: hex_upper_def hex_pair_def HEX_digit)

lemma remove_ws_hex_upper: "remove_ws (concat (map hex_upper bs)) = concat (map hex_upper bs)"
  by (rule remove_ws_graphic) (auto simp: hex_upper_def HEX_digit)

text \<open>The octets of a string of hexadecimal digits.\<close>

lemma hex_octets_iff:
  "length s = 2 * k \<Longrightarrow>
     list_all is_ascii_hexdigit s \<and> map (hex_octet s) [0..<k] = bs \<longleftrightarrow>
     to_lower s = concat (map hex_pair bs) \<and> length bs = k"
proof (induction k arbitrary: s bs)
  case (Suc k)
  then obtain c d t where s: "s = c # d # t" and t: "length t = 2 * k"
    by (auto simp: numeral_eq_Suc length_Suc_conv)
  have "map (hex_octet s) [0..<Suc k] = of_nat (16 * hexval c + hexval d) # map (hex_octet t) [0..<k]"
    by (simp add: s hex_octet_def map_upt_Suc del: upt_Suc of_nat_add of_nat_mult)
  then have "list_all is_ascii_hexdigit s \<and> map (hex_octet s) [0..<Suc k] = bs \<longleftrightarrow>
      (\<exists>b bs'. bs = b # bs' \<and>
        (is_ascii_hexdigit c \<and> is_ascii_hexdigit d \<and> of_nat (16 * hexval c + hexval d) = b) \<and>
        (list_all is_ascii_hexdigit t \<and> map (hex_octet t) [0..<k] = bs'))"
    by (auto simp: s simp del: upt_Suc of_nat_add of_nat_mult)
  also have "\<dots> \<longleftrightarrow> (\<exists>b bs'. bs = b # bs' \<and> [ascii_lower c, ascii_lower d] = hex_pair b \<and>
      to_lower t = concat (map hex_pair bs') \<and> length bs' = k)"
    by (simp only: hex_pair_iff Suc.IH [OF t])
  also have "\<dots> \<longleftrightarrow> to_lower s = concat (map hex_pair bs) \<and> length bs = Suc k"
    by (cases bs) (auto simp: s hex_pair_def)
  finally show ?case .
qed auto

lemma length_concat_hex_pair [simp]: "length (concat (map hex_pair bs)) = 2 * length bs"
  by (induction bs) (auto simp: hex_pair_def)

lemma parse_hex_scalar_eq:
  "parse_hex_scalar raw =
     ret (if length (remove_ws raw) = 64 \<and> list_all is_ascii_hexdigit (remove_ws raw)
          then Inr (map (hex_octet (remove_ws raw)) [0..<32])
          else Inl (lit ''expected 64 hex characters (32-byte P-256 scalar)''))"
  using hex_octet_loop_ret [of "remove_ws raw" 0 32 "replicate 32 0"]
  by (auto simp: parse_hex_scalar_def Let_def simp del: upt.simps upt_rec_numeral)

text \<open>
  C32: the hexadecimal key parser accepts exactly the texts that, white space removed, are the 64
  hexadecimal digits of 32 octets, in either case; it returns those octets and never panics.
\<close>

theorem parse_hex_scalar_iff:
  "parse_hex_scalar raw = ret (Inr bs) \<longleftrightarrow>
     length bs = 32 \<and> to_lower (remove_ws raw) = concat (map hex_pair bs)"
proof (cases "length (remove_ws raw) = 64")
  case True
  then show ?thesis
    using hex_octets_iff [of "remove_ws raw" 32 bs]
    by (auto simp: parse_hex_scalar_eq simp del: upt.simps upt_rec_numeral)
next
  case False
  then have "to_lower (remove_ws raw) \<noteq> concat (map hex_pair bs)" if "length bs = 32"
    using that by (auto dest: arg_cong [of _ _ length])
  with False show ?thesis by (auto simp: parse_hex_scalar_eq)
qed

text \<open>\<open>hex_encode\<close> (as \<open>generate_and_print\<close> prints a private key) is read back by the key parser.\<close>

lemma parse_hex_upper:
  assumes "length bs = 32"
  shows "parse_hex_scalar (concat (map hex_upper bs)) = ret (Inr bs)"
proof -
  have "to_lower (remove_ws (concat (map hex_upper bs))) = concat (map hex_pair bs)"
    by (simp add: remove_ws_hex_upper to_lower_hex_upper)
  with assms hex_octets_iff [of "concat (map hex_upper bs)" 32 bs]
  show ?thesis
    by (auto simp: hex_encode_eq parse_hex_scalar_eq remove_ws_hex_upper to_lower_hex_upper
        length_to_lower [of "concat (map hex_upper bs)", symmetric]
        simp del: upt.simps upt_rec_numeral length_to_lower)
qed

section \<open>Key records\<close>

text \<open>What SEC1 says of an uncompressed P-256 point: the byte 4 and two 32-byte coordinates.\<close>

definition sec1_points :: "'k crypto \<Rightarrow> bool" where
  "sec1_points cr \<longleftrightarrow> (\<forall>k. length (cr_point cr k) = 65 \<and> hd (cr_point cr k) = 4)"

definition key_wf :: "'k crypto \<Rightarrow> 'k dnssec_key \<Rightarrow> bool" where
  "key_wf cr key \<longleftrightarrow>
     cr_point cr (dk_signing_key key) = 4 # drop 4 (dk_dnskey_rdata key) \<and>
     take 4 (dk_dnskey_rdata key) = [1, 1, 3, 13] \<and>
     length (dk_dnskey_rdata key) = 68 \<and>
     dk_key_tag key = key_tag (dk_dnskey_rdata key)"

lemma from_signing_key_eq:
  "from_signing_key cr k =
     (if length (cr_point cr k) = 65 \<and> hd (cr_point cr k) = 4
      then (let rdata = [1, 1, 3, 13] @ tl (cr_point cr k)
            in ret \<lparr> dk_signing_key = k, dk_dnskey_rdata = rdata, dk_key_tag = key_tag rdata \<rparr>)
      else panic)"
proof (cases "cr_point cr k")
  case (Cons b bs)
  have "be16 DNSKEY_FLAGS_CSK = [1, 1]" by code_simp
  with Cons show ?thesis by (auto simp: from_signing_key_def subslice_def Let_def)
qed (simp add: from_signing_key_def)

lemma from_signing_key_wf: "from_signing_key cr k = ret key \<Longrightarrow> key_wf cr key \<and> dk_signing_key key = k"
  by (cases "cr_point cr k") (auto simp: from_signing_key_eq key_wf_def Let_def split: if_splits)

text \<open>
  A private key that is accepted gives a well-formed key record: the DNSKEY data is flags 257
  (zone key and secure entry point), protocol 3, algorithm 13 and the 64 bytes of the public
  point, and the key tag stored is the tag of that data.
\<close>

theorem from_private_key_str_wf:
  assumes "from_private_key_str cr raw = ret (Inr key)"
  shows "key_wf cr key"
  using assms from_signing_key_wf [of cr _ key]
  by (auto simp: from_private_key_str_def Let_def split: if_splits sum.splits Option.bind_splits)

text \<open>A stand-in for the crate: a key is its scalar, the point is the scalar padded to 64 bytes,
  a signature the first half of the point and the length of the message.\<close>

definition toy_crypto :: "bytes crypto" where
  "toy_crypto = \<lparr> cr_point = (\<lambda>k. 4 # take 64 (k @ replicate 64 7)),
     cr_sign = (\<lambda>k m. take 32 (k @ replicate 64 7) @ [of_nat (length m)]), cr_sha256 = (\<lambda>m. replicate 32 (of_nat (length m))),
     cr_from_slice = Some, cr_from_pkcs8_pem = (\<lambda>_. Inr (replicate 32 0xA7)), cr_from_sec1_pem = (\<lambda>_. None) \<rparr>"

definition toy_key :: "bytes dnssec_key" where
  "toy_key = (let rdata = [1, 1, 3, 13] @ replicate 32 0xA7 @ replicate 32 7 in
     \<lparr> dk_signing_key = replicate 32 0xA7, dk_dnskey_rdata = rdata, dk_key_tag = key_tag rdata \<rparr>)"

lemma from_signing_key_toy: "from_signing_key toy_crypto (replicate 32 0xA7) = ret toy_key"
  by (simp add: toy_key_def toy_crypto_def from_signing_key_eq Let_def numeral_eq_Suc)

lemma toy_key_wf: "key_wf toy_crypto toy_key"
  using from_signing_key_wf [OF from_signing_key_toy] by simp

theorem from_private_key_str_wf_witness:
  "\<exists>key. from_private_key_str toy_crypto (lit ''  BEGIN PRIVATE KEY'') = ret (Inr key) \<and>
     key_wf toy_crypto key"
proof -
  have "replace2 92 110 [10] (trim (lit ''  BEGIN PRIVATE KEY'')) = lit ''BEGIN PRIVATE KEY''"
    and "parse_pem toy_crypto (lit ''BEGIN PRIVATE KEY'') = Inr (replicate 32 0xA7)"
    and "contains_str (lit ''BEGIN'') (lit ''BEGIN PRIVATE KEY'')"
    and "lit ''BEGIN PRIVATE KEY'' \<noteq> []"
    by code_simp+
  then have "from_private_key_str toy_crypto (lit ''  BEGIN PRIVATE KEY'') = ret (Inr toy_key)"
    by (simp add: from_private_key_str_def from_signing_key_toy)
  with from_private_key_str_wf show ?thesis by blast
qed

lemma parse_hex_scalar_ret: "parse_hex_scalar raw \<noteq> panic"
  by (simp add: parse_hex_scalar_eq)

text \<open>
  When the crate encodes points as SEC1 says, reading a private key never panics: every text
  gives a key or an error message.
\<close>

theorem from_private_key_str_total:
  assumes "sec1_points cr"
  shows "from_private_key_str cr raw \<noteq> panic"
  using assms
  by (auto simp: from_private_key_str_def Let_def parse_hex_scalar_eq from_signing_key_eq
      sec1_points_def split: sum.splits Option.bind_splits)

theorem from_private_key_str_total_witness:
  "from_private_key_str toy_crypto (lit ''BEGIN PRIVATE'') \<noteq> panic"
proof (rule from_private_key_str_total)
  show "sec1_points toy_crypto" by (auto simp: sec1_points_def toy_crypto_def min_def)
qed

section \<open>Delegation data\<close>

text \<open>
  The DS data of a key is its tag, algorithm 13, digest type 2 and the digest of the
  canonical zone name followed by the DNSKEY data; its digest printed in hexadecimal is that
  digest, so the printed DS record and the CDS record carry the same digest.
\<close>

theorem ds_digest_hex_of_rdata:
  "ds_digest_hex cr key zone =
     hex_encode (cr_sha256 cr (encode_domain_name zone @ dk_dnskey_rdata key)) \<and>
   take 4 (ds_rdata cr key zone) = be16 (dk_key_tag key) @ [13, 2] \<and>
   drop 4 (ds_rdata cr key zone) = cr_sha256 cr (encode_domain_name zone @ dk_dnskey_rdata key)"
  by (simp add: ds_digest_hex_def ds_rdata_def subslice_ret be16_def Let_def)

section \<open>Signatures\<close>

definition rrsig_prefix :: "clock \<Rightarrow> nat \<Rightarrow> 'k dnssec_key \<Rightarrow> bytes \<Rightarrow> u16 \<Rightarrow> u32 \<Rightarrow> rstr \<Rightarrow> bytes" where
  "rrsig_prefix clk n key owner typ ttl signer =
     be16 typ @ [13, label_count owner] @ be32 ttl @ be32 (snd (signature_times clk n)) @
     be32 (fst (signature_times clk n)) @ be16 (dk_key_tag key) @ encode_domain_name signer"

text \<open>A record as RFC 4034, 3.1.8.1 has it signed.\<close>

definition signed_rr :: "bytes \<Rightarrow> u16 \<Rightarrow> u32 \<Rightarrow> bytes \<Rightarrow> bytes" where
  "signed_rr owner typ ttl rdata =
     owner @ be16 typ @ be16 1 @ be32 ttl @ be16 (of_nat (length rdata)) @ rdata"

lemma foldl_append: "foldl (\<lambda>acc x. acc @ f x) a xs = a @ concat (map f xs)"
  by (induction xs arbitrary: a) simp_all

lemma sign_rrsig_eq:
  "sign_rrsig cr clk n key owner typ ttl rdatas signer =
     (let prefix = rrsig_prefix clk n key owner typ ttl signer
      in prefix @ cr_sign cr (dk_signing_key key) (prefix @ concat (map (signed_rr owner typ ttl) rdatas)))"
  by (simp add: sign_rrsig_def rrsig_prefix_def signed_rr_def [abs_def] Let_def foldl_append
      case_prod_unfold)

text \<open>
  An RRSIG is the fields of RFC 4034, 3.1 followed by a signature that verifies under the
  public key of the DNSKEY record, over those fields and the canonical records in order;
  \<open>verify\<close> is any verification function that accepts what the crate signs.
\<close>

theorem sign_rrsig_verifies:
  assumes "\<And>k m. verify (cr_point cr k) m (cr_sign cr k m)"
    and "key_wf cr key"
  shows "\<exists>prefix sig. sign_rrsig cr clk n key owner typ ttl rdatas signer = prefix @ sig \<and>
    prefix = rrsig_prefix clk n key owner typ ttl signer \<and>
    verify (4 # drop 4 (dk_dnskey_rdata key))
      (prefix @ concat (map (signed_rr owner typ ttl) rdatas)) sig"
proof -
  have "cr_point cr (dk_signing_key key) = 4 # drop 4 (dk_dnskey_rdata key)"
    using assms(2) by (simp add: key_wf_def)
  with assms(1) [of "dk_signing_key key"] show ?thesis
    by (auto simp: sign_rrsig_eq Let_def)
qed


definition toy_verify :: "bytes \<Rightarrow> bytes \<Rightarrow> bytes \<Rightarrow> bool" where
  "toy_verify p m sig \<longleftrightarrow> sig = take 32 (tl p) @ [of_nat (length m)]"

lemma toy_verify_sign: "toy_verify (cr_point toy_crypto k) m (cr_sign toy_crypto k m)"
  by (simp add: toy_verify_def toy_crypto_def)

theorem sign_rrsig_verifies_witness:
  "let owner = encode_domain_name (lit ''10-0-0-1.nip.nu''); clk = (\<lambda>_. Some 1000000) in
   \<exists>prefix sig. sign_rrsig toy_crypto clk 0 toy_key owner 1 60 [[10, 0, 0, 1]] (lit ''nip.nu'') = prefix @ sig \<and>
     prefix = rrsig_prefix clk 0 toy_key owner 1 60 (lit ''nip.nu'') \<and>
     toy_verify (4 # drop 4 (dk_dnskey_rdata toy_key))
       (prefix @ concat (map (signed_rr owner 1 60) [[10, 0, 0, 1]])) sig"
  unfolding Let_def by (rule sign_rrsig_verifies [where verify = toy_verify, OF toy_verify_sign toy_key_wf])

lemma unat_signature_times:
  assumes "clk n = Some s"
  shows "unat (fst (signature_times clk n)) = s mod 4294967296 - 3600"
    and "unat (snd (signature_times clk n)) = min (s mod 4294967296 + 604800) 4294967295"
  using assms
  by (simp_all add: signature_times_def Let_def unat_sat_add unat_sat_sub unat_of_nat take_bit_eq_mod)

text \<open>
  C28: a signature made at a clock reading that fits 32 bits (until February 2106) is valid from
  one hour before the reading to seven days after it; near the epoch and near the end of 32-bit
  time the arithmetic saturates instead of wrapping, so the reading always lies in the interval.
\<close>

theorem signature_times_interval:
  assumes "clk n = Some s" and "s < 4294967296"
  shows "let (inception, expiration) = signature_times clk n in
    unat inception \<le> s \<and> s \<le> unat expiration \<and>
    (3600 \<le> s \<longrightarrow> unat inception = s - 3600) \<and>
    (s + 604800 < 4294967296 \<longrightarrow> unat expiration = s + 604800)"
  using assms by (auto simp: case_prod_unfold Let_def unat_signature_times)

theorem signature_times_interval_witness:
  "let (inception, expiration) = signature_times (\<lambda>_. Some 1700000000) 0 in
     unat inception = 1699996400 \<and> unat expiration = 1700604800"
  using signature_times_interval [of "\<lambda>_. Some 1700000000" 0 1700000000]
  by (simp add: case_prod_unfold Let_def)

section \<open>Type bitmaps\<close>

text \<open>
  The decoder of RFC 4034, 4.1.2, strict: window numbers ascend, a block has between 1 and 32
  bytes, and its last byte is not zero.  \<open>lo\<close> is the least window number allowed next.
\<close>

definition bit_of :: "bytes \<Rightarrow> nat \<Rightarrow> bool" where
  "bit_of bs n \<longleftrightarrow> bit (bs ! (n div 8)) (7 - n mod 8)"

definition block_types :: "byte \<Rightarrow> bytes \<Rightarrow> u16 list" where
  "block_types w bs = map (\<lambda>n. of_nat (256 * unat w + n)) (filter (bit_of bs) [0..<8 * length bs])"

function decode_bitmap :: "nat \<Rightarrow> bytes \<Rightarrow> u16 list option" where
  "decode_bitmap lo [] = Some []"
| "decode_bitmap lo [w] = None"
| "decode_bitmap lo (w # n # bs) =
     (if lo \<le> unat w \<and> 1 \<le> unat n \<and> unat n \<le> 32 \<and> unat n \<le> length bs \<and> bs ! (unat n - 1) \<noteq> 0
      then map_option (\<lambda>ts. block_types w (take (unat n) bs) @ ts)
             (decode_bitmap (Suc (unat w)) (drop (unat n) bs))
      else None)"
  by pat_completeness auto
termination
  by (relation "measure (length \<circ> snd)") auto

text \<open>
  The state of the loop after the types \<open>cur\<close> of the current window, behind the blocks of \<open>dn\<close>:
  the blocks decode to \<open>dn\<close>, the 32 bytes hold the bits of \<open>cur\<close>.
\<close>

definition low :: "u16 \<Rightarrow> nat" where
  "low t = unat t mod 256"

definition window_of :: "u16 \<Rightarrow> nat" where
  "window_of t = unat t div 256"

definition bits_hold :: "bytes \<Rightarrow> nat set \<Rightarrow> bool" where
  "bits_hold bits S \<longleftrightarrow> length bits = 32 \<and> (\<forall>n < 256. bit_of bits n \<longleftrightarrow> n \<in> S)"

definition blocks_decode :: "bytes \<Rightarrow> u16 list \<Rightarrow> nat \<Rightarrow> bool" where
  "blocks_decode out dn lo \<longleftrightarrow>
     (\<forall>rest. decode_bitmap 0 (out @ rest) = map_option (\<lambda>ts. dn @ ts) (decode_bitmap lo rest))"

lemma bits_hold_zero: "bits_hold (replicate 32 0) {}"
  by (simp add: bits_hold_def bit_of_def less_mult_imp_div_less)

lemma bits_hold_set:
  assumes "bits_hold bits S" and "n < 256"
  shows "bits_hold (bits[n div 8 := bits ! (n div 8) OR push_bit (7 - n mod 8) 1]) (insert n S)"
proof -
  have "bit_of (bits[n div 8 := bits ! (n div 8) OR push_bit (7 - n mod 8) 1]) m \<longleftrightarrow> bit_of bits m \<or> m = n"
    if m: "m < 256" for m
  proof (cases "m div 8 = n div 8")
    case True
    have "n div 8 < length bits" using assms by (simp add: bits_hold_def less_mult_imp_div_less)
    moreover have "7 - m mod 8 = 7 - n mod 8 \<longleftrightarrow> m = n"
    proof -
      have "m mod 8 < 8" and "n mod 8 < 8" by simp_all
      then have "7 - m mod 8 = 7 - n mod 8 \<longleftrightarrow> m mod 8 = n mod 8" by linarith
      with True show ?thesis by (metis div_mult_mod_eq)
    qed
    moreover have "bit (push_bit (7 - n mod 8) (1 :: byte)) (7 - m mod 8) \<longleftrightarrow> 7 - m mod 8 = 7 - n mod 8"
      by (auto simp: bit_simps)
    ultimately show ?thesis using True by (simp add: bit_of_def bit_or_iff)
  next
    case False
    then show ?thesis by (auto simp: bit_of_def)
  qed
  with assms show ?thesis by (auto simp: bits_hold_def)
qed

text \<open>Reading the bits of a sorted list of numbers gives the list.\<close>

lemma filter_upt_set:
  "sorted xs \<Longrightarrow> distinct xs \<Longrightarrow> \<forall>x \<in> set xs. x < m \<Longrightarrow> filter (\<lambda>n. n \<in> set xs) [0..<m] = xs"
  by (rule sorted_distinct_set_unique) (auto simp: sorted_wrt_filter)

text \<open>The types of one window, in ascending order.\<close>

definition window_run :: "byte \<Rightarrow> u16 list \<Rightarrow> bool" where
  "window_run w ts \<longleftrightarrow> ts \<noteq> [] \<and> sorted ts \<and> distinct ts \<and> (\<forall>t \<in> set ts. window_of t = unat w)"

lemma type_of_window_low: "of_nat (256 * window_of t + low t) = t"
  by (simp add: window_of_def low_def)

lemma low_less: "low t < 256"
  by (simp add: low_def)

lemma low_strict:
  assumes "window_of s = window_of t" and "s < t"
  shows "low s < low t"
proof -
  have "unat s = 256 * window_of s + low s" and "unat t = 256 * window_of t + low t"
    by (simp_all add: window_of_def low_def)
  moreover have "unat s < unat t" using assms(2) by (simp add: word_less_nat_alt)
  ultimately show ?thesis using assms(1) by linarith
qed

lemma low_mono: "window_of s = window_of t \<Longrightarrow> s \<le> t \<Longrightarrow> low s \<le> low t"
  using low_strict [of s t] by (cases "s = t") (simp_all add: order.strict_iff_order)

lemma window_run_lows:
  assumes "window_run w ts"
  shows "sorted (map low ts)" and "distinct (map low ts)" and "\<forall>t \<in> set ts. low t \<le> low (last ts)"
proof -
  have le: "low (ts ! i) \<le> low (ts ! j)" if "i \<le> j" "j < length ts" for i j
    using assms that by (intro low_mono) (auto simp: window_run_def sorted_iff_nth_mono)
  then show "sorted (map low ts)" by (auto simp: sorted_iff_nth_mono)
  show "\<forall>t \<in> set ts. low t \<le> low (last ts)"
    using le assms by (auto simp: in_set_conv_nth last_conv_nth window_run_def)
  have "inj_on low (set ts)"
    using assms low_strict by (intro inj_onI) (metis less_irrefl linorder_less_linear window_run_def)
  then show "distinct (map low ts)" using assms by (simp add: distinct_map window_run_def)
qed

lemma block_types_run:
  assumes "window_run w ts" and "bits_hold bits (low ` set ts)" and "low (last ts) div 8 = m"
  shows "block_types w (take (Suc m) bits) = ts"
proof -
  have m: "m < 32" using assms(3) low_less [of "last ts"] by (simp add: less_mult_imp_div_less)
  then have len: "length (take (Suc m) bits) = Suc m" using assms(2) by (simp add: bits_hold_def)
  have "bit_of (take (Suc m) bits) n \<longleftrightarrow> n \<in> set (map low ts)" if n: "n < 8 * Suc m" for n
  proof -
    from n have "n div 8 < Suc m" by (simp add: less_mult_imp_div_less)
    moreover have "n < 256" using n m by simp
    ultimately show ?thesis using assms(2) by (simp add: bit_of_def bits_hold_def)
  qed
  then have "filter (bit_of (take (Suc m) bits)) [0..<8 * Suc m] =
      filter (\<lambda>n. n \<in> set (map low ts)) [0..<8 * Suc m]"
    by (intro filter_cong) simp_all
  also have "\<dots> = map low ts"
  proof (rule filter_upt_set)
    have "low t < 8 * Suc m" if "t \<in> set ts" for t
      using window_run_lows(3) [OF assms(1)] that assms(3) by fastforce
    then show "\<forall>x \<in> set (map low ts). x < 8 * Suc m" by simp
  qed (use window_run_lows [OF assms(1)] in simp_all)
  finally have "block_types w (take (Suc m) bits) = map (\<lambda>t. of_nat (256 * unat w + low t)) ts"
    unfolding block_types_def len by (simp only: map_map o_def)
  also have "\<dots> = ts"
    using assms(1) by (intro map_idI) (metis type_of_window_low window_run_def)
  finally show ?thesis .
qed

lemma flush_window_run:
  assumes "window_run w ts" and "bits_hold bits (low ` set ts)" and "low (last ts) div 8 = m"
    and "blocks_decode out dn lo" and "lo \<le> unat w"
  shows "\<exists>out'. flush_window out w bits m = ret out' \<and> blocks_decode out' (dn @ ts) (Suc (unat w))"
proof -
  have m: "m < 32" using assms(3) low_less [of "last ts"] by (simp add: less_mult_imp_div_less)
  have len: "length bits = 32" using assms(2) by (simp add: bits_hold_def)
  have n: "unat (1 + of_nat m :: byte) = Suc m"
    using m by (simp add: unat_word_ariths unat_of_nat take_bit_nat_eq_self)
  have "last ts \<in> set ts" using assms(1) by (simp add: window_run_def)
  then have "bit_of bits (low (last ts))"
    using assms(2) low_less [of "last ts"] by (simp add: bits_hold_def)
  then have "bits ! m \<noteq> 0" using assms(3) by (auto simp: bit_of_def)
  then have "decode_bitmap lo (w # (1 + of_nat m) # take (Suc m) bits @ rest) =
      map_option (\<lambda>ts'. ts @ ts') (decode_bitmap (Suc (unat w)) rest)" for rest
    using m len n assms(5) block_types_run [OF assms(1-3)]
    by (simp add: nth_append)
  with assms(4) m len show ?thesis
    by (simp add: flush_window_def Let_def subslice_ret blocks_decode_def option.map_comp o_def)
qed

text \<open>The loop invariant after the types \<open>ps\<close>.\<close>

definition bitmap_inv :: "u16 list \<Rightarrow> bitmap_state \<Rightarrow> bool" where
  "bitmap_inv ps st \<longleftrightarrow> (case st of (out, window, bits, max_byte) \<Rightarrow>
     if ps = [] then st = ([], None, replicate 32 0, 0)
     else \<exists>dn cur w lo. ps = dn @ cur \<and> window = Some w \<and> window_run w cur \<and>
       bits_hold bits (low ` set cur) \<and> max_byte = low (last cur) div 8 \<and>
       blocks_decode out dn lo \<and> lo \<le> unat w)"

lemma unat_window: "unat (ucast (t div 256 :: u16) :: byte) = window_of t"
proof -
  have "unat t div 256 < 256" by (rule less_mult_imp_div_less) simp
  then show ?thesis
    by (simp add: window_of_def unsigned_ucast_eq unat_div take_bit_nat_eq_self)
qed

lemma unat_low: "unat (t mod 256 :: u16) = low t"
  by (simp add: low_def unat_mod)

lemma window_of_mono: "s \<le> t \<Longrightarrow> window_of s \<le> window_of t"
  by (simp add: window_of_def word_le_nat_alt div_le_mono)

lemma bitmap_invI:
  assumes "window_run w cur" and "bits_hold bits (low ` set cur)" and "m = low (last cur) div 8"
    and "blocks_decode out dn lo" and "lo \<le> unat w"
  shows "bitmap_inv (dn @ cur) (out, Some w, bits, m)"
proof -
  have "cur \<noteq> []" using assms(1) by (simp add: window_run_def)
  with assms show ?thesis by (simp add: bitmap_inv_def) blast
qed

text \<open>The last statements of the loop body, on the state of the window of \<open>t\<close>.\<close>

definition put_type :: "bytes \<Rightarrow> u16 \<Rightarrow> bytes" where
  "put_type bits t = bits[low t div 8 := bits ! (low t div 8) OR push_bit (7 - low t mod 8) 1]"

lemma bits_hold_put: "bits_hold bits S \<Longrightarrow> bits_hold (put_type bits t) (insert (low t) S)"
  unfolding put_type_def by (rule bits_hold_set) (auto simp: low_less)

lemma bitmap_step_same:
  assumes "bits_hold bits S" and "window = None \<or> window = Some (ucast (t div 256))"
  shows "bitmap_step (out, window, bits, m) t =
    ret (out, Some (ucast (t div 256)), put_type bits t, max m (low t div 8))"
proof -
  have "low t div 8 < length bits"
    using assms(1) low_less [of t] by (simp add: bits_hold_def less_mult_imp_div_less)
  with assms(2) show ?thesis
    by (auto simp: bitmap_step_def Let_def unat_low idx_ret upd_ret put_type_def)
qed

lemma bitmap_step_new:
  assumes "window = Some w" and "w \<noteq> ucast (t div 256)" and "flush_window out w bits m = ret out'"
  shows "bitmap_step (out, window, bits, m) t =
    ret (out', Some (ucast (t div 256)), put_type (replicate 32 0) t, low t div 8)"
proof -
  have "low t div 8 < 32" using low_less [of t] by (simp add: less_mult_imp_div_less)
  with assms show ?thesis
    by (simp add: bitmap_step_def Let_def unat_low idx_ret upd_ret put_type_def del: nth_replicate)
qed

lemma bitmap_fresh:
  assumes "blocks_decode out ps lo" and "lo \<le> window_of t"
  shows "bitmap_inv (ps @ [t])
    (out, Some (ucast (t div 256)), put_type (replicate 32 0) t, low t div 8)"
proof (rule bitmap_invI [OF _ _ _ assms(1)])
  show "window_run (ucast (t div 256)) [t]" by (simp add: window_run_def unat_window)
  show "bits_hold (put_type (replicate 32 0) t) (low ` set [t])"
    using bits_hold_put [OF bits_hold_zero, of t] by simp
qed (use assms(2) in \<open>simp_all add: unat_window\<close>)

lemma bitmap_step_inv:
  assumes "bitmap_inv ps st" and "\<forall>p \<in> set ps. p < t"
  shows "\<exists>st'. bitmap_step st t = ret st' \<and> bitmap_inv (ps @ [t]) st'"
proof -
  obtain out window bits m where st: "st = (out, window, bits, m)" by (cases st)
  let ?w = "ucast (t div 256) :: byte"
  show ?thesis
  proof (cases "ps = []")
    case True
    with assms(1) have s0: "st = ([], None, replicate 32 0, 0)" by (simp add: bitmap_inv_def)
    have "blocks_decode [] [] 0" by (simp add: blocks_decode_def option.map_ident)
    then have "bitmap_inv (ps @ [t]) ([], Some ?w, put_type (replicate 32 0) t, low t div 8)"
      using True bitmap_fresh [of "[]" "[]" 0 t] by simp
    then show ?thesis using bitmap_step_same [OF bits_hold_zero, of None t "[]" 0] s0 by simp
  next
    case False
    with assms(1) st obtain dn cur w lo where
      ps: "ps = dn @ cur" and w: "window = Some w" and run: "window_run w cur" and
      bits: "bits_hold bits (low ` set cur)" and m: "low (last cur) div 8 = m" and
      blocks: "blocks_decode out dn lo" and lo: "lo \<le> unat w"
      by (auto simp: bitmap_inv_def)
    have last: "last cur \<in> set cur" using run by (simp add: window_run_def)
    with assms(2) ps have less: "last cur < t" by simp
    show ?thesis
    proof (cases "w = ?w")
      case True
      have wt: "window_of t = unat w" using True unat_window [of t] by simp
      have run': "window_run w (cur @ [t])"
        using run assms(2) ps wt by (auto simp: window_run_def sorted_append order.strict_iff_order)
      have "low (last cur) < low t"
        using less low_strict last run wt by (simp add: window_run_def)
      then have max: "max m (low t div 8) = low t div 8" using m by (simp add: max_def div_le_mono)
      have "bits_hold (put_type bits t) (low ` set (cur @ [t]))"
        using bits_hold_put [OF bits, of t] by simp
      then have "bitmap_inv (dn @ cur @ [t]) (out, Some w, put_type bits t, max m (low t div 8))"
        using run' blocks lo by (intro bitmap_invI) (simp_all add: max)
      then show ?thesis
        using bitmap_step_same [OF bits, of window t out m] True st w ps by simp
    next
      case False
      have "window_of (last cur) \<le> window_of t" using less by (intro window_of_mono) simp
      moreover have "window_of (last cur) = unat w" using run last by (simp add: window_run_def)
      moreover have "unat w \<noteq> window_of t"
        using False unat_window [of t] by (metis word_unat_eq_iff)
      ultimately have lo': "Suc (unat w) \<le> window_of t" by simp
      obtain out' where out': "flush_window out w bits m = ret out'"
        "blocks_decode out' ps (Suc (unat w))"
        using flush_window_run [OF run bits m blocks lo] ps by blast
      with bitmap_fresh [OF out'(2) lo'] bitmap_step_new [OF w False out'(1)] st show ?thesis
        by blast
    qed
  qed
qed

lemma bitmap_fold_inv:
  "bitmap_inv ps st \<Longrightarrow> sorted (ps @ ts) \<Longrightarrow> distinct (ps @ ts) \<Longrightarrow>
     \<exists>st'. fold_exec bitmap_step st ts = ret st' \<and> bitmap_inv (ps @ ts) st'"
proof (induction ts arbitrary: ps st)
  case (Cons t ts)
  have "\<forall>p \<in> set ps. p < t"
    using Cons.prems by (auto simp: sorted_append order.strict_iff_order)
  with Cons.prems(1) obtain st' where "bitmap_step st t = ret st'" "bitmap_inv (ps @ [t]) st'"
    using bitmap_step_inv by blast
  with Cons.IH [of "ps @ [t]" st'] Cons.prems show ?case by simp
qed simp

lemma distinct_remdups_adj_sorted: "sorted xs \<Longrightarrow> distinct (remdups_adj xs)"
  by (induction xs rule: remdups_adj.induct) auto

lemma sorted_types: "sorted (remdups_adj (sort ts))" "distinct (remdups_adj (sort ts))"
  for ts :: "'a::linorder list"
  by (simp_all add: sorted_remdups_adj distinct_remdups_adj_sorted)

lemma type_bitmap_decodes_aux:
  assumes "types \<noteq> []"
  shows "\<exists>out. type_bitmap types = ret out \<and> decode_bitmap 0 out = Some (remdups_adj (sort types))"
proof -
  let ?ts = "remdups_adj (sort types)"
  have ne: "?ts \<noteq> []" using assms by (metis remdups_adj_Nil_iff set_empty set_sort)
  obtain st where st: "fold_exec bitmap_step ([], None, replicate 32 0, 0) ?ts = ret st"
    "bitmap_inv ?ts st"
    using bitmap_fold_inv [of "[]" "([], None, replicate 32 0, 0)" ?ts] sorted_types [of types]
    by (auto simp: bitmap_inv_def)
  obtain out window bits m where s: "st = (out, window, bits, m)" by (cases st)
  with st(2) ne obtain dn cur w lo where
    "?ts = dn @ cur" "window = Some w" "window_run w cur" "bits_hold bits (low ` set cur)"
    "low (last cur) div 8 = m" "blocks_decode out dn lo" "lo \<le> unat w"
    by (auto simp: bitmap_inv_def)
  then obtain out' where "flush_window out w bits m = ret out'"
    and dec: "blocks_decode out' ?ts (Suc (unat w))" and "window = Some w"
    using flush_window_run by metis
  with st(1) s ne have "type_bitmap types = ret out'" by (simp add: type_bitmap_def Let_def)
  moreover have "decode_bitmap 0 out' = Some ?ts"
    using dec [unfolded blocks_decode_def, rule_format, of "[]"] by simp
  ultimately show ?thesis by blast
qed

text \<open>
  C26: the type bitmap of a non-empty list of types decodes, under the strict decoder (ascending
  windows, blocks of 1 to 32 bytes without trailing zero bytes), to exactly these types in
  ascending order; building it never panics.
\<close>

theorem type_bitmap_decodes:
  assumes "types \<noteq> []"
  shows "\<exists>out. type_bitmap types = ret out \<and> decode_bitmap 0 out = Some (remdups_adj (sort types))"
  by (rule type_bitmap_decodes_aux [OF assms])

theorem type_bitmap_decodes_witness:
  "\<exists>out. type_bitmap [257, 1, 28, 1] = ret out \<and> decode_bitmap 0 out = Some [1, 28, 257]"
proof -
  have "remdups_adj (sort [257, 1, 28, 1 :: u16]) = [1, 28, 257]" by code_simp
  with type_bitmap_decodes [of "[257, 1, 28, 1]"] show ?thesis by simp
qed

text \<open>
  The NSEC data for a question never panics, and a resolver reads from it the immediate
  successor of the name (the label of one zero byte in front of its lower-cased labels) and a
  bitmap of exactly the existing types with NSEC and RRSIG, each once, in ascending order.
\<close>

theorem nsec_rdata_decodes:
  assumes "qlabels_ok ls"
  shows "\<exists>rdata bitmap. nsec_rdata (enc_labels ls) (nsec_types existing) = ret rdata \<and>
    wire_labels rdata = Some ([0] # map to_lower ls, bitmap) \<and>
    decode_bitmap 0 bitmap = Some (nsec_types existing) \<and>
    set (nsec_types existing) = set existing \<union> {TYPE_NSEC, TYPE_RRSIG} \<and>
    sorted (nsec_types existing) \<and> distinct (nsec_types existing)"
proof -
  have ne: "nsec_types existing \<noteq> []"
    unfolding nsec_types_def remdups_adj_Nil_iff by (simp flip: set_empty)
  have "remdups_adj (sort (nsec_types existing)) = nsec_types existing"
    by (simp add: nsec_types_def sorted_types sorted_sort_id remdups_adj_distinct)
  with type_bitmap_decodes_aux [OF ne] obtain bitmap where
    b: "type_bitmap (nsec_types existing) = ret bitmap" "decode_bitmap 0 bitmap = Some (nsec_types existing)"
    by auto
  have lower: "lower_wire (enc_labels ls) = enc_labels (map to_lower ls)"
    using assms lower_wire_enc [of ls "[]"] by (simp add: qlabels_ok_def)
  have "wire_labels (enc_labels (map to_lower ls) @ bitmap) = Some (map to_lower ls, bitmap)"
    using assms by (intro wire_name.dec_enc) (simp add: qlabels_ok_def)
  then have "wire_labels ([1, 0] @ enc_labels (map to_lower ls) @ bitmap) =
      Some ([0] # map to_lower ls, bitmap)"
    by simp
  moreover have "nsec_rdata (enc_labels ls) (nsec_types existing) =
      ret ([1, 0] @ enc_labels (map to_lower ls) @ bitmap)"
    by (simp add: nsec_rdata_def lowercase_wire_name_eq b lower)
  moreover have "set (nsec_types existing) = set existing \<union> {TYPE_NSEC, TYPE_RRSIG}"
    by (auto simp: nsec_types_def)
  ultimately show ?thesis
    using b(2) sorted_types by (auto simp: nsec_types_def)
qed

theorem nsec_rdata_decodes_witness:
  "\<exists>rdata bitmap. nsec_rdata (enc_labels [lit ''A'', lit ''nu'']) (nsec_types [1, 28]) = ret rdata \<and>
    wire_labels rdata = Some ([0] # [lit ''a'', lit ''nu''], bitmap) \<and>
    decode_bitmap 0 bitmap = Some (nsec_types [1, 28])"
proof -
  have "qlabels_ok [lit ''A'', lit ''nu'']" and "map to_lower [lit ''A'', lit ''nu''] = [lit ''a'', lit ''nu'']"
    by code_simp+
  with nsec_rdata_decodes [of "[lit ''A'', lit ''nu'']" "[1, 28]"] show ?thesis by metis
qed

lemma type_bitmap_ret: "\<exists>out. type_bitmap types = ret out"
proof (cases "types = []")
  case False
  then show ?thesis using type_bitmap_decodes_aux by blast
qed (simp add: type_bitmap_def)

end
