(* ===== verification/Config.thy ===== *)
theory Config
  imports Rust_Trim Dnssec
begin

text \<open>
  \<open>src/config.rs\<close>: the configuration read from the environment.  The environment is a function
  \<open>env\<close> from variable names to texts (\<open>None\<close>: not set); every \<open>expect\<close> on a value that does not
  parse is a panic.  The version is the one of \<open>Cargo.toml\<close>.
\<close>

section \<open>The program\<close>

record 'k config =
  cf_glue_name :: rstr
  cf_glue_ip :: ipv4
  cf_glue_ip6 :: "ipv6 option"
  cf_soa_name :: rstr
  cf_ns_names :: "rstr list"
  cf_hostmaster :: rstr
  cf_serial :: u32
  cf_refresh :: u32
  cf_retry :: u32
  cf_expire :: u32
  cf_minimum :: u32
  cf_spf :: rstr
  cf_dmarc :: rstr
  cf_version :: rstr
  cf_rate_limit_seconds :: nat
  cf_rate_limit_requests :: u32
  cf_dnssec :: "'k dnssec_key option"

type_synonym environment = "rstr \<Rightarrow> rstr option"

definition parse_ns_names :: "rstr option \<Rightarrow> rstr \<Rightarrow> rstr list" where
  "parse_ns_names raw soa_name =
     (let names = filter (\<lambda>s. s \<noteq> []) (map trim (split_on COMMA (case raw of None \<Rightarrow> [] | Some s \<Rightarrow> s)))
      in if names = [] then [soa_name] else names)"

definition CARGO_PKG_VERSION :: rstr where
  "CARGO_PKG_VERSION = lit ''1.8.1''"

text \<open>\<open>env::var(name).unwrap_or_else(|_| dflt)\<close>, and \<open>parse().expect(...)\<close> of it.\<close>

definition env_or :: "environment \<Rightarrow> string \<Rightarrow> string \<Rightarrow> rstr" where
  "env_or env name dflt = (case env (lit name) of Some s \<Rightarrow> s | None \<Rightarrow> lit dflt)"

definition parse_env :: "(rstr \<Rightarrow> 'a option) \<Rightarrow> environment \<Rightarrow> string \<Rightarrow> string \<Rightarrow> 'a exec" where
  "parse_env parse env name dflt = parse (env_or env name dflt)"

definition from_env :: "'k crypto \<Rightarrow> environment \<Rightarrow> 'k config exec" where
  "from_env cr env = do {
     let version = CARGO_PKG_VERSION;
     let soa_name = env_or env ''SOA_NAME'' ''ns.example.com'';
     let ns_names = parse_ns_names (env (lit ''NS_NAMES'')) soa_name;
     glue_ip \<leftarrow> parse_env ipv4_from_str env ''GLUE_IP'' ''127.0.0.1'';
     glue_ip6 \<leftarrow>
       (case env (lit ''GLUE_IP6'') of
          Some s \<Rightarrow>
            if trim s \<noteq> [] then (case ipv6_from_str s of Some ip \<Rightarrow> ret (Some ip) | None \<Rightarrow> panic)
            else ret None
        | None \<Rightarrow> ret None);
     serial \<leftarrow> parse_env parse_u32 env ''SERIAL'' ''1'';
     refresh \<leftarrow> parse_env parse_u32 env ''REFRESH'' ''3600'';
     retry \<leftarrow> parse_env parse_u32 env ''RETRY'' ''1800'';
     expire \<leftarrow> parse_env parse_u32 env ''EXPIRE'' ''604800'';
     minimum \<leftarrow> parse_env parse_u32 env ''MINIMUM'' ''3600'';
     rate_limit_seconds \<leftarrow> parse_env parse_u64 env ''RATE_LIMIT_SECONDS'' ''0'';
     rate_limit_requests \<leftarrow> parse_env parse_u32 env ''RATE_LIMIT_REQUESTS'' ''0'';
     dnssec \<leftarrow> dnssec_key_from_env cr (env (lit ''DNSSEC_PRIVATE_KEY''));
     ret \<lparr> cf_glue_name = env_or env ''GLUE_NAME'' ''ns.example.com'',
           cf_glue_ip = glue_ip, cf_glue_ip6 = glue_ip6, cf_soa_name = soa_name,
           cf_ns_names = ns_names,
           cf_hostmaster = env_or env ''HOSTMASTER'' ''hostmaster.example.com'',
           cf_serial = of_nat serial, cf_refresh = of_nat refresh, cf_retry = of_nat retry,
           cf_expire = of_nat expire, cf_minimum = of_nat minimum,
           cf_spf = env_or env ''SPF'' ''v=spf1 -all'',
           cf_dmarc = env_or env ''DMARC'' ''v=DMARC1; p=reject;'',
           cf_version = version,
           cf_rate_limit_seconds = rate_limit_seconds,
           cf_rate_limit_requests = of_nat rate_limit_requests,
           cf_dnssec = dnssec \<rparr>
   }"

section \<open>Name server lists\<close>

lemma parse_ns_names_not_Nil: "parse_ns_names raw soa \<noteq> []"
  by (simp add: parse_ns_names_def Let_def)

definition clean_name :: "rstr \<Rightarrow> bool" where
  "clean_name n \<longleftrightarrow> n \<noteq> [] \<and> graphic (hd n) \<and> graphic (last n) \<and> COMMA \<notin> set n"

lemma clean_split:
  "ns \<noteq> [] \<Longrightarrow> \<forall>n \<in> set ns. clean_name n \<Longrightarrow>
     split_on COMMA (join_with [COMMA, 32] ns) = hd ns # map (\<lambda>n. 32 # n) (tl ns)"
proof (induction ns)
  case (Cons n ns)
  show ?case
  proof (cases "ns = []")
    case True
    with Cons.prems show ?thesis by (simp add: split_on_no_sep clean_name_def)
  next
    case False
    have "COMMA \<notin> set n" using Cons.prems by (simp add: clean_name_def)
    moreover have "split_on COMMA (32 # s) = (32 # hd (split_on COMMA s)) # tl (split_on COMMA s)" for s
      by (simp split: list.split)
    ultimately show ?thesis
      using Cons False by (cases ns) (simp_all add: join_with_Cons split_on_append)
  qed
qed simp

text \<open>
  A comma-separated list of name servers is read back as written, one blank after a comma
  or not before the first: clean names joined by a comma and a blank are the names, in order.
\<close>

theorem parse_ns_names_join:
  assumes "ns \<noteq> []" and "\<forall>n \<in> set ns. clean_name n"
  shows "parse_ns_names (Some (join_with [COMMA, 32] ns)) soa = ns"
proof -
  have t: "trim n = n \<and> trim (32 # n) = n" if "n \<in> set ns" for n
    using assms(2) that trim_graphic [of n] by (simp add: clean_name_def)
  have "map trim (split_on COMMA (join_with [COMMA, 32] ns)) = ns"
    using assms t by (cases ns) (simp_all add: clean_split o_def map_idI)
  moreover have "filter (\<lambda>s. s \<noteq> []) ns = ns"
    using assms(2) by (intro filter_True) (auto simp: clean_name_def)
  ultimately show ?thesis using assms(1) by (simp add: parse_ns_names_def Let_def)
qed

theorem parse_ns_names_join_witness:
  "parse_ns_names (Some (lit ''ns.addr.se, ns1.addr.se'')) [] = [lit ''ns.addr.se'', lit ''ns1.addr.se'']"
proof -
  have "join_with [COMMA, 32] [lit ''ns.addr.se'', lit ''ns1.addr.se''] = lit ''ns.addr.se, ns1.addr.se''"
    and "\<forall>n \<in> set [lit ''ns.addr.se'', lit ''ns1.addr.se'']. clean_name n"
    by code_simp+
  with parse_ns_names_join [of "[lit ''ns.addr.se'', lit ''ns1.addr.se'']" "[]"] show ?thesis by simp
qed

section \<open>Well-formed configurations\<close>

definition env_utf8 :: "environment \<Rightarrow> bool" where
  "env_utf8 env \<longleftrightarrow> (\<forall>name s. env name = Some s \<longrightarrow> utf8_valid s)"

definition config_wf :: "'k crypto \<Rightarrow> 'k config \<Rightarrow> bool" where
  "config_wf cr cf \<longleftrightarrow>
     utf8_valid (cf_glue_name cf) \<and> utf8_valid (cf_soa_name cf) \<and> utf8_valid (cf_hostmaster cf) \<and>
     cf_ns_names cf \<noteq> [] \<and> list_all utf8_valid (cf_ns_names cf) \<and>
     utf8_valid (cf_spf cf) \<and> utf8_valid (cf_dmarc cf) \<and> utf8_valid (cf_version cf) \<and>
     cf_rate_limit_seconds cf < 2 ^ 64 \<and>
     (case cf_dnssec cf of None \<Rightarrow> True | Some key \<Rightarrow> key_wf cr key)"

lemma env_or_utf8:
  "env_utf8 env \<Longrightarrow> list_all (\<lambda>c. of_char c < (0x80 :: byte)) dflt \<Longrightarrow> utf8_valid (env_or env name dflt)"
  by (auto simp: env_or_def env_utf8_def lit_def list_all_iff intro!: utf8_valid_ascii split: option.split)

lemma parse_ns_names_utf8:
  assumes "raw \<noteq> None \<Longrightarrow> utf8_valid (the raw)" and "utf8_valid soa"
  shows "list_all utf8_valid (parse_ns_names raw soa)"
proof -
  have v: "utf8_valid (case raw of None \<Rightarrow> [] | Some s \<Rightarrow> s)" using assms(1) by (auto split: option.split)
  then have "utf8_valid (trim p)" if "p \<in> set (split_on COMMA (case raw of None \<Rightarrow> [] | Some s \<Rightarrow> s))" for p
    using utf8_valid_trim [OF utf8_valid_split_on [OF v _ that]] by simp
  with assms(2) show ?thesis by (auto simp: parse_ns_names_def Let_def list_all_iff)
qed

lemma dnssec_key_from_env_wf: "dnssec_key_from_env cr var = ret (Some key) \<Longrightarrow> key_wf cr key"
  using from_signing_key_wf [of cr _ key]
  by (auto simp: dnssec_key_from_env_def from_private_key_str_def Let_def
      split: option.splits if_splits sum.splits Option.bind_splits)

lemma parse_env_bound:
  "parse_env parse_u64 env name dflt = ret n \<Longrightarrow> n < 2 ^ 64"
  unfolding parse_env_def parse_u64_def by (auto dest!: from_str_radix_bound)

lemma from_env_config_wf:
  assumes "env_utf8 env" and "from_env cr env = ret cf"
  shows "config_wf cr cf"
proof -
  let ?soa = "env_or env ''SOA_NAME'' ''ns.example.com''"
  have texts: "utf8_valid (env_or env name dflt)" if "list_all (\<lambda>c. of_char c < (0x80 :: byte)) dflt"
    for name dflt
    using assms(1) that by (rule env_or_utf8)
  have "list_all utf8_valid (parse_ns_names (env (lit ''NS_NAMES'')) ?soa)"
  proof (rule parse_ns_names_utf8)
    show "utf8_valid ?soa" by (rule texts) simp
  qed (use assms(1) in \<open>auto simp: env_utf8_def\<close>)
  moreover have "utf8_valid CARGO_PKG_VERSION" by code_simp
  ultimately show ?thesis
    using assms(2)
    by (auto simp: from_env_def config_wf_def parse_ns_names_not_Nil texts Let_def
        dest: parse_env_bound dnssec_key_from_env_wf split: Option.bind_splits option.split)
qed

text \<open>
  C31: a configuration that is accepted is well-formed: there is at least one name server, all
  texts are UTF-8, the rate limit fits its integer types, and a configured key is well-formed.
  The query handler relies on these facts.
\<close>

theorem from_env_wf:
  assumes "env_utf8 env" and "from_env cr env = ret cf"
  shows "config_wf cr cf"
  by (rule from_env_config_wf [OF assms])

theorem from_env_wf_witness:
  "\<exists>cf. from_env toy_crypto ((\<lambda>_. None)(lit ''NS_NAMES'' := Some (lit ''ns.addr.se, ns1.nip.nu''))) = ret cf \<and>
     config_wf toy_crypto cf"
proof -
  let ?env = "(\<lambda>_. None)(lit ''NS_NAMES'' := Some (lit ''ns.addr.se, ns1.nip.nu''))"
  have "utf8_valid (lit ''ns.addr.se, ns1.nip.nu'')" by code_simp
  then have utf8: "env_utf8 ?env" by (simp add: env_utf8_def)
  have "parse_ns_names (Some (lit ''ns.addr.se, ns1.nip.nu'')) (lit ''ns.example.com'') \<noteq> []"
    by (rule parse_ns_names_not_Nil)
  have ne: "lit name \<noteq> lit ''NS_NAMES''" if "name \<in> {''SOA_NAME'', ''GLUE_IP'', ''GLUE_IP6'', ''SERIAL'', ''REFRESH'',
      ''RETRY'', ''EXPIRE'', ''MINIMUM'', ''RATE_LIMIT_SECONDS'', ''RATE_LIMIT_REQUESTS'', ''DNSSEC_PRIVATE_KEY''}"
    for name
    using that by (auto simp: lit_def)
  have "ipv4_from_str (lit ''127.0.0.1'') = Some (Ipv4 127 0 0 1)" "parse_u32 (lit ''1'') = Some 1"
    "parse_u32 (lit ''3600'') = Some 3600" "parse_u32 (lit ''1800'') = Some 1800"
    "parse_u32 (lit ''604800'') = Some 604800" "parse_u64 (lit ''0'') = Some 0" "parse_u32 (lit ''0'') = Some 0"
    by code_simp+
  then have "\<exists>cf. from_env toy_crypto ?env = ret cf"
    by (simp add: from_env_def parse_env_def env_or_def ne dnssec_key_from_env_def Let_def)
  with from_env_wf [OF utf8] show ?thesis by blast
qed

section \<open>Reading a configuration back\<close>

lemma graphic_digit: "d < 16 \<Longrightarrow> graphic (digit_char d)"
  by (simp add: graphic_def word_order_nat unat_digit_char)

lemma trim_ipv6_text:
  defines "s \<equiv> \<lambda>ip. join_with [COLON] (map show_group (segments ip))"
  shows "trim (s ip) = s ip" and "trim (32 # s ip) = s ip" and "s ip \<noteq> []"
proof -
  have g: "graphic b" if "b \<in> set (show_group g)" for b g
    using show_radix_digits [of 16 b "unat g"] that graphic_digit by (auto simp: show_group_def)
  have b: "graphic b" if "b \<in> set (s ip)" for b
  proof -
    from that obtain g where "b \<in> set (show_group g) \<or> b = COLON" by (cases ip) (auto simp: s_def)
    then show ?thesis using g by (auto simp: graphic_def)
  qed
  show ne: "s ip \<noteq> []" by (cases ip) (simp add: s_def)
  show "trim (s ip) = s ip" and "trim (32 # s ip) = s ip"
    using trim_graphic [OF ne] b ne by simp_all
qed

lemma parse_env_number:
  "env (lit name) = Some (show_nat n) \<Longrightarrow> n < 2 ^ 32 \<Longrightarrow> parse_env parse_u32 env name dflt = ret n"
  "env (lit name) = Some (show_nat n) \<Longrightarrow> n < 2 ^ 64 \<Longrightarrow> parse_env parse_u64 env name dflt = ret n"
  by (simp_all add: parse_env_def env_or_def parse_u32_def parse_u64_def show_nat_def from_str_radix_show)

text \<open>
  C30: a configuration is read back from the environment that writes it: texts as they are, the
  addresses in dotted and in full colon form, the name servers joined by commas and blanks, the
  numbers in decimal.  (Keys are the subject of \<open>generated_key_deploys\<close>.)
\<close>

theorem from_env_roundtrip:
  assumes "env (lit ''GLUE_NAME'') = Some (cf_glue_name cf)"
    and "env (lit ''GLUE_IP'') = Some (show_ipv4 (cf_glue_ip cf))"
    and "env (lit ''GLUE_IP6'') =
      map_option (\<lambda>ip. join_with [COLON] (map show_group (segments ip))) (cf_glue_ip6 cf)"
    and "env (lit ''SOA_NAME'') = Some (cf_soa_name cf)"
    and "env (lit ''NS_NAMES'') = Some (join_with [COMMA, 32] (cf_ns_names cf))"
    and "cf_ns_names cf \<noteq> []" and "\<forall>n \<in> set (cf_ns_names cf). clean_name n"
    and "env (lit ''HOSTMASTER'') = Some (cf_hostmaster cf)"
    and "env (lit ''SERIAL'') = Some (show_nat (unat (cf_serial cf)))"
    and "env (lit ''REFRESH'') = Some (show_nat (unat (cf_refresh cf)))"
    and "env (lit ''RETRY'') = Some (show_nat (unat (cf_retry cf)))"
    and "env (lit ''EXPIRE'') = Some (show_nat (unat (cf_expire cf)))"
    and "env (lit ''MINIMUM'') = Some (show_nat (unat (cf_minimum cf)))"
    and "env (lit ''SPF'') = Some (cf_spf cf)" and "env (lit ''DMARC'') = Some (cf_dmarc cf)"
    and "env (lit ''RATE_LIMIT_SECONDS'') = Some (show_nat (cf_rate_limit_seconds cf))"
    and "cf_rate_limit_seconds cf < 2 ^ 64"
    and "env (lit ''RATE_LIMIT_REQUESTS'') = Some (show_nat (unat (cf_rate_limit_requests cf)))"
    and "env (lit ''DNSSEC_PRIVATE_KEY'') = None" and "cf_dnssec cf = None"
    and "cf_version cf = lit ''1.8.1''"
  shows "from_env cr env = ret cf"
proof -
  have u: "parse_env parse_u32 env name dflt = ret (unat w)"
    if n: "env (lit name) = Some (show_nat (unat w))" for name dflt and w :: u32
    using parse_env_number(1) [of env name "unat w"] n unsigned_less [of w] by simp
  note texts = assms(1,4,8,14,15)
  have "(case env (lit ''GLUE_IP6'') of
      Some s \<Rightarrow> if trim s \<noteq> [] then (case ipv6_from_str s of Some ip \<Rightarrow> ret (Some ip) | None \<Rightarrow> panic) else ret None
    | None \<Rightarrow> ret None) = ret (cf_glue_ip6 cf)"
    by (cases "cf_glue_ip6 cf") (simp_all add: assms(3) trim_ipv6_text ipv6_from_str_full)
  moreover have "parse_env ipv4_from_str env ''GLUE_IP'' ''127.0.0.1'' = ret (cf_glue_ip cf)"
    by (simp add: parse_env_def env_or_def assms(2))
  moreover have "parse_ns_names (env (lit ''NS_NAMES'')) soa = cf_ns_names cf" for soa
    using parse_ns_names_join [OF assms(6,7)] by (simp add: assms(5))
  moreover have "dnssec_key_from_env cr (env (lit ''DNSSEC_PRIVATE_KEY'')) = ret None"
    by (simp add: dnssec_key_from_env_def assms(19))
  moreover have "env_or env name dflt = s" if "env (lit name) = Some s" for name dflt s
    by (simp add: env_or_def that)
  note this [OF texts(1)] this [OF texts(2)] this [OF texts(3)] this [OF texts(4)] this [OF texts(5)]
  moreover note u [OF assms(9)] u [OF assms(10)] u [OF assms(11)] u [OF assms(12)] u [OF assms(13)]
    parse_env_number(2) [of env "''RATE_LIMIT_SECONDS''", OF assms(16,17)] u [OF assms(18)]
  ultimately show ?thesis
    using assms(20,21) unfolding from_env_def Let_def
    by (simp add: CARGO_PKG_VERSION_def)
qed

text \<open>The environment of the README, as far as it differs from the defaults.\<close>

definition toy_env :: environment where
  "toy_env = map_of (map (\<lambda>(n, v). (lit n, lit v)) [
     (''GLUE_NAME'', ''example.com''), (''GLUE_IP'', ''127.0.0.1''), (''GLUE_IP6'', ''2a04:0:0:0:0:0:0:201''),
     (''SOA_NAME'', ''ns1.example.com''), (''NS_NAMES'', ''ns1.example.com, ns2.example.com''),
     (''HOSTMASTER'', ''hostmaster.example.com''), (''SERIAL'', ''1''), (''REFRESH'', ''3600''),
     (''RETRY'', ''1800''), (''EXPIRE'', ''604800''), (''MINIMUM'', ''3600''), (''SPF'', ''v=spf1 -all''),
     (''DMARC'', ''v=DMARC1; p=reject;''), (''RATE_LIMIT_SECONDS'', ''10''), (''RATE_LIMIT_REQUESTS'', ''100'')])"

theorem from_env_roundtrip_witness:
  "from_env toy_crypto toy_env = ret \<lparr>
     cf_glue_name = lit ''example.com'', cf_glue_ip = Ipv4 127 0 0 1,
     cf_glue_ip6 = Some (Ipv6 0x2a04 0 0 0 0 0 0 0x201), cf_soa_name = lit ''ns1.example.com'',
     cf_ns_names = [lit ''ns1.example.com'', lit ''ns2.example.com''],
     cf_hostmaster = lit ''hostmaster.example.com'', cf_serial = 1, cf_refresh = 3600, cf_retry = 1800,
     cf_expire = 604800, cf_minimum = 3600, cf_spf = lit ''v=spf1 -all'',
     cf_dmarc = lit ''v=DMARC1; p=reject;'', cf_version = lit ''1.8.1'', cf_rate_limit_seconds = 10,
     cf_rate_limit_requests = 100, cf_dnssec = None \<rparr>"
proof -
  have e: "toy_env (lit ''GLUE_NAME'') = Some (lit ''example.com'')"
    "toy_env (lit ''GLUE_IP'') = Some (show_ipv4 (Ipv4 127 0 0 1))"
    "toy_env (lit ''GLUE_IP6'') = Some (join_with [COLON] (map show_group (segments (Ipv6 0x2a04 0 0 0 0 0 0 0x201))))"
    "toy_env (lit ''SOA_NAME'') = Some (lit ''ns1.example.com'')"
    "toy_env (lit ''NS_NAMES'') = Some (join_with [COMMA, 32] [lit ''ns1.example.com'', lit ''ns2.example.com''])"
    "toy_env (lit ''HOSTMASTER'') = Some (lit ''hostmaster.example.com'')"
    "toy_env (lit ''SERIAL'') = Some (show_nat (unat (1 :: u32)))"
    "toy_env (lit ''REFRESH'') = Some (show_nat (unat (3600 :: u32)))"
    "toy_env (lit ''RETRY'') = Some (show_nat (unat (1800 :: u32)))"
    "toy_env (lit ''EXPIRE'') = Some (show_nat (unat (604800 :: u32)))"
    "toy_env (lit ''MINIMUM'') = Some (show_nat (unat (3600 :: u32)))"
    "toy_env (lit ''SPF'') = Some (lit ''v=spf1 -all'')"
    "toy_env (lit ''DMARC'') = Some (lit ''v=DMARC1; p=reject;'')"
    "toy_env (lit ''RATE_LIMIT_SECONDS'') = Some (show_nat 10)"
    "toy_env (lit ''RATE_LIMIT_REQUESTS'') = Some (show_nat (unat (100 :: u32)))"
    "toy_env (lit ''DNSSEC_PRIVATE_KEY'') = None"
    by code_simp+
  have c: "\<forall>n \<in> set [lit ''ns1.example.com'', lit ''ns2.example.com'']. clean_name n" by code_simp
  show ?thesis by (rule from_env_roundtrip) (use c in \<open>simp_all add: e\<close>)
qed

lemma ipv6_from_str_blank: "ipv6_from_str (32 # s) = None"
proof -
  have d: "to_digit r (32 :: byte) = None" if "r = 10 \<or> r = 16" for r
    using that by (elim disjE; simp only:; code_simp)
  have g: "read_group (32 # s) = None" using d by (intro read_group_none) simp
  have "read_octet (32 # s) = None" using d by (simp add: read_octet_def read_number_def)
  then have "read_ipv4_addr (32 # s) = None" by (simp add: read_ipv4_addr_def read_separator_def)
  with g have "read_groups (Suc n) 0 (32 # s) = ([], False, 32 # s)" for n
    by (simp add: read_separator_def)
  from this [of 7] have "read_groups 8 0 (32 # s) = ([], False, 32 # s)" 
    by (simp only: numeral_eq_Suc pred_numeral_simps BitM.simps)
  then show ?thesis by (simp add: ipv6_from_str_def read_ipv6_addr_def)
qed

text \<open>
  GLUE_IP6 is trimmed for the test whether it is blank, but parsed as it is: a blank before a
  valid address aborts the start.
\<close>

theorem glue_ip6_padded:
  assumes "env (lit ''GLUE_IP6'') = Some (32 # join_with [COLON] (map show_group (segments ip)))"
  shows "from_env cr env = panic"
proof -
  let ?s = "join_with [COLON] (map show_group (segments ip))"
  have "trim (32 # ?s) \<noteq> []" using trim_ipv6_text(2,3) [of ip] by simp
  then have "(case env (lit ''GLUE_IP6'') of
      Some s \<Rightarrow> if trim s \<noteq> [] then (case ipv6_from_str s of Some ip \<Rightarrow> ret (Some ip) | None \<Rightarrow> panic) else ret None
    | None \<Rightarrow> ret None) = panic"
    by (simp add: assms ipv6_from_str_blank)
  then show ?thesis unfolding from_env_def Let_def
    by (cases "parse_env ipv4_from_str env ''GLUE_IP'' ''127.0.0.1''") simp_all
qed

end
