(* ===== verification/Response.thy ===== *)
theory Response
  imports Dnssec "HOL-Library.Multiset"
begin

text \<open>
  \<open>src/dns/response.rs\<close>: the response builders.  A message is collected as three lists of
  records (\<open>Msg\<close>), then written by \<open>finish\<close>: each section is cut into runs of one owner and
  type, the data of a run sorted, the records written and counted in the header, and, for a
  signed zone asked with the DO bit, an RRSIG written behind each run.
\<close>

section \<open>The program\<close>

record 'k zone_params =
  zp_zone :: rstr
  zp_ns_name :: rstr
  zp_ns_names :: "rstr list"
  zp_glue_ip :: ipv4
  zp_glue_ip6 :: "ipv6 option"
  zp_hostmaster :: rstr
  zp_serial :: u32
  zp_refresh :: u32
  zp_retry :: u32
  zp_expire :: u32
  zp_minimum :: u32
  zp_spf :: "rstr option"
  zp_dnssec :: "'k dnssec_key option"
  zp_do_bit :: bool

datatype owner = Question | Name rstr

record rr =
  rr_owner :: owner
  rr_typ :: u16
  rr_ttl :: u32
  rr_rdata :: bytes

record msg =
  m_buf :: bytes
  m_answers :: "rr list"
  m_authority :: "rr list"
  m_additional :: "rr list"

definition sign :: "'k zone_params \<Rightarrow> bool" where
  "sign params \<longleftrightarrow> zp_dnssec params \<noteq> None \<and> zp_do_bit params"

definition apex_types :: "'k zone_params \<Rightarrow> u16 list" where
  "apex_types params =
     [TYPE_SOA, TYPE_NS, TYPE_A] @
     (if zp_glue_ip6 params \<noteq> None then [TYPE_AAAA] else []) @
     (if zp_spf params \<noteq> None then [TYPE_TXT] else []) @
     (if zp_dnssec params \<noteq> None then [TYPE_DNSKEY, TYPE_CDS, TYPE_CDNSKEY] else [])"

subsection \<open>Header and OPT\<close>

text \<open>\<open>query.get(i).copied().unwrap_or(0)\<close>\<close>

definition get0 :: "bytes \<Rightarrow> nat \<Rightarrow> byte" where
  "get0 xs i = (if i < length xs then xs ! i else 0)"

definition response_flags :: "bytes \<Rightarrow> bool \<Rightarrow> byte \<Rightarrow> bytes" where
  "response_flags query aa rcode =
     (let q2 = get0 query 2;
          opcode = q2 AND 0x78;
          rd = q2 AND 0x01;
          aa_bit = (if aa then 0x04 else 0)
      in [0x80 OR opcode OR aa_bit OR rd, rcode AND 0x0f])"

definition bump_count :: "bytes \<Rightarrow> nat \<Rightarrow> bytes exec" where
  "bump_count buf offset = do {
     a \<leftarrow> idx buf offset;
     b \<leftarrow> idx buf (offset + 1);
     let n = sat_add (of_be16 a b) 1;
     buf \<leftarrow> upd buf offset (ucast (drop_bit 8 n));
     upd buf (offset + 1) (ucast n)
   }"

definition maybe_append_opt :: "bytes \<Rightarrow> bytes \<Rightarrow> bool \<Rightarrow> bytes exec" where
  "maybe_append_opt response query dnssec_ok = do {
     opt \<leftarrow> query_has_opt query;
     (if \<not> opt \<or> length response < 12 then ret response
      else do {
        response \<leftarrow> bump_count response OFFSET_ARCOUNT;
        ret (response @ [0] @ be16 TYPE_OPT @ be16 EDNS_UDP_SIZE @ [0] @ [0] @
             be16 (if dnssec_ok then 0x8000 else 0) @ be16 0)
      })
   }"

definition maybe_truncate_udp :: "bytes \<Rightarrow> bytes \<Rightarrow> bytes exec" where
  "maybe_truncate_udp response query = do {
     limit \<leftarrow> udp_response_limit query;
     (if length response \<le> limit then ret response
      else do {
        e \<leftarrow> question_section_end query;
        (case e of
           None \<Rightarrow> ret response
         | Some q_end \<Rightarrow> do {
             ident \<leftarrow> subslice response 0 2;
             let flags0 = get0 response 2 OR 0x02;
             let flags1 = get0 response 3;
             qdcount \<leftarrow> subslice query 4 6;
             qsection \<leftarrow> subslice query 12 q_end;
             truncated \<leftarrow> maybe_append_opt
               (ident @ [flags0] @ [flags1] @ qdcount @ [0, 0, 0, 0, 0, 0] @ qsection) query False;
             (if limit < length truncated then do {
                t \<leftarrow> upd (take (12 + (q_end - 12)) truncated) OFFSET_ARCOUNT 0;
                upd t (OFFSET_ARCOUNT + 1) 0
              } else ret truncated)
           })
      })
   }"

subsection \<open>Collecting records\<close>

definition with_question :: "bytes \<Rightarrow> bool \<Rightarrow> byte \<Rightarrow> msg option exec" where
  "with_question query aa rcode = do {
     e \<leftarrow> question_section_end query;
     (case e of
        None \<Rightarrow> ret None
      | Some e \<Rightarrow> do {
          ident \<leftarrow> subslice query 0 2;
          qdcount \<leftarrow> subslice query 4 6;
          qsection \<leftarrow> subslice query 12 e;
          ret (Some \<lparr> m_buf = ident @ response_flags query aa rcode @ qdcount @
                        [0, 0, 0, 0, 0, 0] @ qsection,
                      m_answers = [], m_authority = [], m_additional = [] \<rparr>)
        })
   }"

definition add_rr :: "nat \<Rightarrow> owner \<Rightarrow> u16 \<Rightarrow> u32 \<Rightarrow> bytes \<Rightarrow> msg \<Rightarrow> msg" where
  "add_rr count_offset owner typ ttl rdata m =
     (let rr = \<lparr> rr_owner = owner, rr_typ = typ, rr_ttl = ttl, rr_rdata = rdata \<rparr>
      in if count_offset = OFFSET_NSCOUNT then m\<lparr>m_authority := m_authority m @ [rr]\<rparr>
         else if count_offset = OFFSET_ARCOUNT then m\<lparr>m_additional := m_additional m @ [rr]\<rparr>
         else m\<lparr>m_answers := m_answers m @ [rr]\<rparr>)"

definition add_soa :: "nat \<Rightarrow> owner \<Rightarrow> 'k zone_params \<Rightarrow> msg \<Rightarrow> msg" where
  "add_soa count_offset owner params m =
     add_rr count_offset owner TYPE_SOA TTL_SOA
       (encode_domain_name (zp_ns_name params) @ encode_domain_name (zp_hostmaster params) @
        be32 (zp_serial params) @ be32 (zp_refresh params) @ be32 (zp_retry params) @
        be32 (zp_expire params) @ be32 (zp_minimum params)) m"

definition add_ns :: "nat \<Rightarrow> owner \<Rightarrow> rstr \<Rightarrow> msg \<Rightarrow> msg" where
  "add_ns count_offset owner ns_name m =
     add_rr count_offset owner TYPE_NS TTL_RR (encode_domain_name ns_name) m"

definition add_ns_set :: "nat \<Rightarrow> 'k zone_params \<Rightarrow> msg \<Rightarrow> msg" where
  "add_ns_set count_offset params m =
     foldl (\<lambda>m name. add_ns count_offset Question name m) m (zp_ns_names params)"

definition add_a :: "nat \<Rightarrow> owner \<Rightarrow> ipv4 \<Rightarrow> msg \<Rightarrow> msg" where
  "add_a count_offset owner ip m = add_rr count_offset owner TYPE_A TTL_RR (octets4 ip) m"

definition add_aaaa :: "nat \<Rightarrow> owner \<Rightarrow> ipv6 \<Rightarrow> msg \<Rightarrow> msg" where
  "add_aaaa count_offset owner ip m = add_rr count_offset owner TYPE_AAAA TTL_RR (octets6 ip) m"

definition add_txt :: "rstr \<Rightarrow> msg \<Rightarrow> msg exec" where
  "add_txt txt m = (
     let len = min (length txt) 255 in do {
       bytes \<leftarrow> subslice txt 0 len;
       ret (add_rr OFFSET_ANCOUNT Question TYPE_TXT TTL_RR ([of_nat len] @ bytes) m)
     })"

definition add_dnskey :: "'k zone_params \<Rightarrow> msg \<Rightarrow> msg" where
  "add_dnskey params m =
     (case zp_dnssec params of
        None \<Rightarrow> m
      | Some key \<Rightarrow> add_rr OFFSET_ANCOUNT Question TYPE_DNSKEY TTL_SOA (dnskey_rdata key) m)"

definition add_cds :: "'k crypto \<Rightarrow> 'k zone_params \<Rightarrow> msg \<Rightarrow> msg" where
  "add_cds cr params m =
     (case zp_dnssec params of
        None \<Rightarrow> m
      | Some key \<Rightarrow>
          add_rr OFFSET_ANCOUNT Question TYPE_CDS TTL_SOA (ds_rdata cr key (zp_zone params)) m)"

definition add_cdnskey :: "'k zone_params \<Rightarrow> msg \<Rightarrow> msg" where
  "add_cdnskey params m =
     (case zp_dnssec params of
        None \<Rightarrow> m
      | Some key \<Rightarrow> add_rr OFFSET_ANCOUNT Question TYPE_CDNSKEY TTL_SOA (dnskey_rdata key) m)"

definition add_in_bailiwick_glue :: "'k zone_params \<Rightarrow> msg \<Rightarrow> msg exec" where
  "add_in_bailiwick_glue params m =
     fold_exec (\<lambda>m name. do {
         b \<leftarrow> name_in_bailiwick name (zp_zone params);
         ret (if b then
                (let m = add_a OFFSET_ARCOUNT (Name name) (zp_glue_ip params) m
                 in case zp_glue_ip6 params of
                      Some ip6 \<Rightarrow> add_aaaa OFFSET_ARCOUNT (Name name) ip6 m
                    | None \<Rightarrow> m)
              else m)
       }) m (zp_ns_names params)"

subsection \<open>Writing sections\<close>

definition owner_eq :: "owner \<Rightarrow> owner \<Rightarrow> bool" where
  "owner_eq a b \<longleftrightarrow>
     (case (a, b) of
        (Question, Question) \<Rightarrow> True
      | (Name x, Name y) \<Rightarrow> names_eq x y
      | _ \<Rightarrow> False)"

definition write_rr :: "bytes \<Rightarrow> owner \<Rightarrow> u16 \<Rightarrow> u32 \<Rightarrow> bytes \<Rightarrow> bytes" where
  "write_rr buf owner typ ttl rdata =
     buf @ (case owner of Question \<Rightarrow> [0xC0, 0x0C] | Name name \<Rightarrow> encode_domain_name name) @
     be16 typ @ be16 CLASS_IN @ be32 ttl @ be16 (of_nat (length rdata)) @ rdata"

text \<open>The two loops of \<open>emit_section\<close>: cutting into groups, and writing a group.\<close>

definition group_step :: "rr list list \<Rightarrow> rr \<Rightarrow> rr list list exec" where
  "group_step groups rr =
     (if groups = [] then ret (groups @ [[rr]])
      else do {
        first \<leftarrow> idx (last groups) 0;
        ret (if owner_eq (rr_owner first) (rr_owner rr) \<and> rr_typ first = rr_typ rr
             then butlast groups @ [last groups @ [rr]]
             else groups @ [[rr]])
      })"

definition emit_group ::
    "'k crypto \<Rightarrow> clock \<Rightarrow> nat \<Rightarrow> bytes \<Rightarrow> 'k zone_params \<Rightarrow> bytes \<times> nat \<Rightarrow> rr list \<Rightarrow> (bytes \<times> nat) exec"
  where
  "emit_group cr clk count_offset query params st grp = (
     let (buf, n) = st in do {
       first \<leftarrow> idx grp 0;
       let owner = rr_owner first;
       let typ = rr_typ first;
       let ttl = rr_ttl first;
       let rdatas = sort (map rr_rdata grp);
       buf \<leftarrow> fold_exec (\<lambda>buf rdata. bump_count (write_rr buf owner typ ttl rdata) count_offset)
         buf rdatas;
       (if typ \<noteq> TYPE_RRSIG then
          (case (if zp_do_bit params then zp_dnssec params else None) of
             None \<Rightarrow> ret (buf, n)
           | Some key \<Rightarrow> do {
               owner_wire \<leftarrow>
                 (case owner of
                    Question \<Rightarrow> owner_canonical_wire query True None
                  | Name name \<Rightarrow> owner_canonical_wire query False (Some name));
               let rrsig = sign_rrsig cr clk n key owner_wire typ ttl rdatas (zp_zone params);
               buf \<leftarrow> bump_count (write_rr buf owner TYPE_RRSIG ttl rrsig) count_offset;
               ret (buf, n + 1)
             })
        else ret (buf, n))
     })"

definition emit_section ::
    "'k crypto \<Rightarrow> clock \<Rightarrow> nat \<Rightarrow> rr list \<Rightarrow> bytes \<Rightarrow> 'k zone_params \<Rightarrow> bytes \<times> nat \<Rightarrow> (bytes \<times> nat) exec"
  where
  "emit_section cr clk count_offset rrs query params st = do {
     groups \<leftarrow> fold_exec group_step [] rrs;
     fold_exec (emit_group cr clk count_offset query params) st groups
   }"

definition finish :: "'k crypto \<Rightarrow> clock \<Rightarrow> msg \<Rightarrow> bytes \<Rightarrow> 'k zone_params \<Rightarrow> bytes exec" where
  "finish cr clk m query params = do {
     st \<leftarrow> emit_section cr clk OFFSET_ANCOUNT (m_answers m) query params (m_buf m, 0);
     st \<leftarrow> emit_section cr clk OFFSET_NSCOUNT (m_authority m) query params st;
     (buf, n) \<leftarrow> emit_section cr clk OFFSET_ARCOUNT (m_additional m) query params st;
     maybe_append_opt buf query (sign params)
   }"

subsection \<open>The builders\<close>

definition error_response :: "bytes \<Rightarrow> byte \<Rightarrow> bytes exec" where
  "error_response query rcode =
     (if length query < 12 then ret []
      else do {
        ident \<leftarrow> subslice query 0 2;
        qdcount \<leftarrow> subslice query 4 6;
        let buf = ident @ response_flags query False rcode @ qdcount @ [0, 0, 0, 0, 0, 0];
        e \<leftarrow> question_section_end query;
        buf \<leftarrow> (case e of
                 None \<Rightarrow> ret buf
               | Some e \<Rightarrow> do { qsection \<leftarrow> subslice query 12 e; ret (buf @ qsection) });
        maybe_append_opt buf query False
      })"

definition build_refused_response :: "bytes \<Rightarrow> bytes exec" where
  "build_refused_response query = error_response query RCODE_REFUSED"

definition build_notimp_response :: "bytes \<Rightarrow> bytes exec" where
  "build_notimp_response query = error_response query RCODE_NOTIMP"

definition nodata :: "'k crypto \<Rightarrow> clock \<Rightarrow> bytes \<Rightarrow> 'k zone_params \<Rightarrow> u16 list \<Rightarrow> bytes exec" where
  "nodata cr clk query params existing_types = do {
     m \<leftarrow> with_question query True RCODE_NOERROR;
     (case m of
        None \<Rightarrow> ret []
      | Some m \<Rightarrow> (
          let m = add_soa OFFSET_NSCOUNT (Name (zp_zone params)) params m in
          if sign params then do {
            e \<leftarrow> question_section_end query;
            (case e of
               None \<Rightarrow> finish cr clk m query params
             | Some e \<Rightarrow> do {
                 qname \<leftarrow> subslice query 12 (e - 4);
                 let types = nsec_types existing_types;
                 rdata \<leftarrow> nsec_rdata qname types;
                 finish cr clk
                   (add_rr OFFSET_NSCOUNT Question TYPE_NSEC (zp_minimum params) rdata m) query params
               })
          }
          else finish cr clk m query params))
   }"

definition build_nodata_response ::
    "'k crypto \<Rightarrow> clock \<Rightarrow> bytes \<Rightarrow> 'k zone_params \<Rightarrow> u16 list \<Rightarrow> bytes exec" where
  "build_nodata_response cr clk query params existing_types =
     nodata cr clk query params existing_types"

definition build_txt_response ::
    "'k crypto \<Rightarrow> clock \<Rightarrow> bytes \<Rightarrow> rstr \<Rightarrow> 'k zone_params \<Rightarrow> bytes exec" where
  "build_txt_response cr clk query txt_data params = do {
     m \<leftarrow> with_question query True RCODE_NOERROR;
     (case m of
        None \<Rightarrow> ret []
      | Some m \<Rightarrow> do { m \<leftarrow> add_txt txt_data m; finish cr clk m query params })
   }"

definition build_apex_response ::
    "'k crypto \<Rightarrow> clock \<Rightarrow> bytes \<Rightarrow> u16 \<Rightarrow> 'k zone_params \<Rightarrow> bytes exec" where
  "build_apex_response cr clk query qtype params = do {
     m \<leftarrow> with_question query True RCODE_NOERROR;
     (case m of
        None \<Rightarrow> ret []
      | Some m \<Rightarrow>
          if qtype = TYPE_SOA then do {
            m \<leftarrow> add_in_bailiwick_glue params
              (add_ns_set OFFSET_NSCOUNT params (add_soa OFFSET_ANCOUNT Question params m));
            finish cr clk m query params
          }
          else if qtype = TYPE_NS then do {
            m \<leftarrow> add_in_bailiwick_glue params (add_ns_set OFFSET_ANCOUNT params m);
            finish cr clk m query params
          }
          else if qtype = TYPE_A then
            finish cr clk (add_a OFFSET_ANCOUNT Question (zp_glue_ip params) m) query params
          else if qtype = TYPE_AAAA then
            (case zp_glue_ip6 params of
               None \<Rightarrow> nodata cr clk query params (apex_types params)
             | Some ip6 \<Rightarrow>
                 finish cr clk (add_aaaa OFFSET_ANCOUNT Question ip6 m) query params)
          else if qtype = TYPE_TXT then
            (case zp_spf params of
               None \<Rightarrow> nodata cr clk query params (apex_types params)
             | Some spf \<Rightarrow> do { m \<leftarrow> add_txt spf m; finish cr clk m query params })
          else if qtype = TYPE_DNSKEY then
            (if zp_dnssec params = None then nodata cr clk query params (apex_types params)
             else finish cr clk (add_dnskey params m) query params)
          else if qtype = TYPE_CDS then
            (if zp_dnssec params = None then nodata cr clk query params (apex_types params)
             else finish cr clk (add_cds cr params m) query params)
          else if qtype = TYPE_CDNSKEY then
            (if zp_dnssec params = None then nodata cr clk query params (apex_types params)
             else finish cr clk (add_cdnskey params m) query params)
          else if qtype = TYPE_NSEC then
            (if zp_dnssec params = None then nodata cr clk query params (apex_types params)
             else do {
               e \<leftarrow> question_section_end query;
               (case e of
                  None \<Rightarrow> ret []
                | Some e \<Rightarrow> do {
                    qname \<leftarrow> subslice query 12 (e - 4);
                    let types = nsec_types (apex_types params);
                    rdata \<leftarrow> nsec_rdata qname types;
                    finish cr clk
                      (add_rr OFFSET_ANCOUNT Question TYPE_NSEC (zp_minimum params) rdata m)
                      query params
                  })
             })
          else if qtype = TYPE_ANY then do {
            let m = add_a OFFSET_ANCOUNT Question (zp_glue_ip params)
              (add_ns_set OFFSET_ANCOUNT params (add_soa OFFSET_ANCOUNT Question params m));
            let m = (case zp_glue_ip6 params of
                       Some ip6 \<Rightarrow> add_aaaa OFFSET_ANCOUNT Question ip6 m
                     | None \<Rightarrow> m);
            m \<leftarrow> (case zp_spf params of Some spf \<Rightarrow> add_txt spf m | None \<Rightarrow> ret m);
            let m = (if zp_dnssec params \<noteq> None
                     then add_cdnskey params (add_cds cr params (add_dnskey params m)) else m);
            m \<leftarrow> add_in_bailiwick_glue params m;
            finish cr clk m query params
          }
          else nodata cr clk query params (apex_types params))
   }"

definition address_types :: "ipv4 option \<times> ipv6 option \<Rightarrow> u16 list" where
  "address_types ip =
     (if fst ip \<noteq> None then [TYPE_A] else []) @ (if snd ip \<noteq> None then [TYPE_AAAA] else [])"

definition build_address_response ::
    "'k crypto \<Rightarrow> clock \<Rightarrow> bytes \<Rightarrow> u16 \<Rightarrow> ipv4 option \<times> ipv6 option \<Rightarrow> 'k zone_params \<Rightarrow> bytes exec"
  where
  "build_address_response cr clk query qtype ip params = (
     let want_a = (qtype = TYPE_A \<or> qtype = TYPE_ANY);
         want_aaaa = (qtype = TYPE_AAAA \<or> qtype = TYPE_ANY);
         v4 = (if want_a then fst ip else None);
         v6 = (if want_aaaa then snd ip else None)
     in if v4 = None \<and> v6 = None then nodata cr clk query params (address_types ip)
        else do {
          m \<leftarrow> with_question query True RCODE_NOERROR;
          (case m of
             None \<Rightarrow> ret []
           | Some m \<Rightarrow> (
               let m = (case v4 of Some ip \<Rightarrow> add_a OFFSET_ANCOUNT Question ip m | None \<Rightarrow> m);
                   m = (case v6 of Some ip \<Rightarrow> add_aaaa OFFSET_ANCOUNT Question ip m | None \<Rightarrow> m)
               in finish cr clk m query params))
        })"

section \<open>Counting\<close>

text \<open>A saturating 16-bit counter after \<open>k\<close> more records.\<close>

definition sat_plus :: "u16 \<Rightarrow> nat \<Rightarrow> u16" where
  "sat_plus c k = of_nat (min 65535 (unat c + k))"

lemma unat_sat_plus [simp]: "unat (sat_plus c k) = min 65535 (unat c + k)"
  by (auto simp: sat_plus_def unat_of_nat take_bit_nat_eq_self)

lemma sat_plus_0 [simp]: "sat_plus c 0 = c"
  by (simp add: word_unat_eq_iff)

lemma sat_plus_plus [simp]: "sat_plus (sat_plus c j) k = sat_plus c (j + k)"
  by (simp add: word_unat_eq_iff)

lemma sat_add_1: "sat_add c 1 = sat_plus c 1"
  by (simp add: word_unat_eq_iff unat_sat_add)

lemma bump_count_at:
  assumes "length pre = off"
  shows "bump_count (pre @ be16 c @ post) off = ret (pre @ be16 (sat_plus c 1) @ post)"
proof -
  have "idx (pre @ be16 c @ post) off = ret (ucast (drop_bit 8 c))"
    and "idx (pre @ be16 c @ post) (off + 1) = ret (ucast c)"
    using assms by (simp_all add: idx_def be16_def nth_append)
  moreover have "do { buf \<leftarrow> upd (pre @ be16 c @ post) off x; upd buf (off + 1) y } =
      ret (pre @ [x, y] @ post)" for x y
    using assms by (simp add: upd_def be16_def list_update_append)
  ultimately show ?thesis
    by (simp add: bump_count_def sat_add_1 Let_def be16_def [of "sat_plus c (Suc 0)"])
qed

section \<open>Records on the wire\<close>

definition rr_wire :: "rr \<Rightarrow> bytes" where
  "rr_wire r = write_rr [] (rr_owner r) (rr_typ r) (rr_ttl r) (rr_rdata r)"

definition wires :: "rr list \<Rightarrow> bytes" where
  "wires rrs = concat (map rr_wire rrs)"

lemma wires_simps [simp]: "wires [] = []" "wires (r # rs) = rr_wire r @ wires rs"
  "wires (rs @ ss) = wires rs @ wires ss"
  by (simp_all add: wires_def)

lemma write_rr_wire:
  "write_rr buf owner typ ttl rdata =
     buf @ rr_wire \<lparr> rr_owner = owner, rr_typ = typ, rr_ttl = ttl, rr_rdata = rdata \<rparr>"
  by (simp add: rr_wire_def write_rr_def)

text \<open>Writing one record into a packet whose counter stands behind \<open>pre\<close>.\<close>

lemma bump_write_rr:
  assumes "length pre = off"
  shows "bump_count (write_rr (pre @ be16 c @ post) owner typ ttl rdata) off =
    ret (pre @ be16 (sat_plus c 1) @ post @
      rr_wire \<lparr> rr_owner = owner, rr_typ = typ, rr_ttl = ttl, rr_rdata = rdata \<rparr>)"
  using bump_count_at [OF assms, of c "post @ rr_wire
      \<lparr> rr_owner = owner, rr_typ = typ, rr_ttl = ttl, rr_rdata = rdata \<rparr>"]
  by (simp add: write_rr_wire)

lemma write_rdatas:
  assumes "length pre = off"
  shows "fold_exec (\<lambda>buf rdata. bump_count (write_rr buf owner typ ttl rdata) off)
      (pre @ be16 c @ post) rdatas =
    ret (pre @ be16 (sat_plus c (length rdatas)) @ post @
      wires (map (\<lambda>d. \<lparr> rr_owner = owner, rr_typ = typ, rr_ttl = ttl, rr_rdata = d \<rparr>) rdatas))"
  by (induction rdatas arbitrary: c post) (simp_all add: bump_write_rr [OF assms])

section \<open>Runs of records\<close>

text \<open>The groups of \<open>emit_section\<close>, as a plain function.\<close>

definition add_run :: "rr list list \<Rightarrow> rr \<Rightarrow> rr list list" where
  "add_run groups r =
     (if groups \<noteq> [] \<and> owner_eq (rr_owner (hd (last groups))) (rr_owner r) \<and>
         rr_typ (hd (last groups)) = rr_typ r
      then butlast groups @ [last groups @ [r]]
      else groups @ [[r]])"

definition runs :: "rr list \<Rightarrow> rr list list" where
  "runs rrs = foldl add_run [] rrs"

lemma add_run_nonempty: "[] \<notin> set gs \<Longrightarrow> [] \<notin> set (add_run gs r)"
  by (auto simp: add_run_def dest: in_set_butlastD)

lemma group_step_eq: "[] \<notin> set gs \<Longrightarrow> group_step gs r = ret (add_run gs r)"
proof -
  assume "[] \<notin> set gs"
  then have "last gs \<noteq> []" if "gs \<noteq> []" using that last_in_set by metis
  then show ?thesis by (auto simp: group_step_def add_run_def idx_def hd_conv_nth)
qed

lemma group_fold: "fold_exec group_step [] rrs = ret (runs rrs)" and runs_nonempty: "[] \<notin> set (runs rrs)"
  using fold_exec_ret [of "\<lambda>gs. [] \<notin> set gs" rrs group_step add_run "[]"]
  by (simp_all add: group_step_eq add_run_nonempty runs_def)

lemma concat_add_run: "concat (add_run gs r) = concat gs @ [r]"
proof -
  have "concat gs = concat (butlast gs) @ last gs" if "gs \<noteq> []"
    using that by (metis append_butlast_last_id concat.simps concat_append append_Nil2)
  then show ?thesis by (auto simp: add_run_def)
qed

lemma concat_runs [simp]: "concat (runs rrs) = rrs"
proof -
  have "concat (foldl add_run gs rrs) = concat gs @ rrs" for gs
    by (induction rrs arbitrary: gs) (simp_all add: concat_add_run)
  from this [of "[]"] show ?thesis by (simp add: runs_def)
qed

text \<open>A run has one owner and one type.\<close>

definition uniform :: "rr list \<Rightarrow> bool" where
  "uniform g \<longleftrightarrow> g \<noteq> [] \<and>
     (\<forall>r \<in> set g. owner_eq (rr_owner (hd g)) (rr_owner r) \<and> rr_typ r = rr_typ (hd g))"

lemma owner_eq_refl [simp]: "owner_eq a a"
  by (cases a) (simp_all add: owner_eq_def)

lemma uniform_add_run:
  assumes "\<forall>g \<in> set gs. uniform g" and "g \<in> set (add_run gs r)"
  shows "uniform g"
proof -
  from assms(2) consider "g \<in> set gs" | "g = [r]" |
    "gs \<noteq> []" "g = last gs @ [r]" "owner_eq (rr_owner (hd (last gs))) (rr_owner r)"
    "rr_typ (hd (last gs)) = rr_typ r"
    by (auto simp: add_run_def dest: in_set_butlastD split: if_splits)
  then show ?thesis
  proof cases
    case 1
    with assms(1) show ?thesis by blast
  next
    case 2
    then show ?thesis by (simp add: uniform_def)
  next
    case 3
    then have u: "uniform (last gs)" using assms(1) by simp
    then have "last gs \<noteq> []" by (simp add: uniform_def)
    with u 3(3,4) show ?thesis unfolding 3(2) uniform_def by simp
  qed
qed

lemma runs_uniform: "g \<in> set (runs rrs) \<Longrightarrow> uniform g"
proof -
  have "\<forall>g \<in> set gs. uniform g \<Longrightarrow> \<forall>g \<in> set (foldl add_run gs rrs). uniform g" for gs
    by (induction rrs arbitrary: gs) (auto dest: uniform_add_run)
  from this [of "[]"] show "g \<in> set (runs rrs) \<Longrightarrow> uniform g" by (simp add: runs_def)
qed

section \<open>What a section holds\<close>

text \<open>
  The canonical owner of a record, the key that signs its run (none for an RRSIG), the records a
  run becomes, and those of a whole section, with the number of the first clock reading.
\<close>

fun canonical_owner :: "bytes \<Rightarrow> owner \<Rightarrow> bytes" where
  "canonical_owner q Question =
     (case qend q of None \<Rightarrow> [] | Some e \<Rightarrow> lower_wire (take (e - 16) (drop 12 q)))"
| "canonical_owner q (Name n) = encode_domain_name n"

definition signing_key :: "'k zone_params \<Rightarrow> u16 \<Rightarrow> 'k dnssec_key option" where
  "signing_key p typ = (if typ \<noteq> TYPE_RRSIG \<and> zp_do_bit p then zp_dnssec p else None)"

definition sorted_run :: "rr list \<Rightarrow> rr list" where
  "sorted_run g = map (\<lambda>d. (hd g)\<lparr>rr_rdata := d\<rparr>) (sort (map rr_rdata g))"

definition rrsig_of ::
    "'k crypto \<Rightarrow> clock \<Rightarrow> nat \<Rightarrow> bytes \<Rightarrow> 'k zone_params \<Rightarrow> 'k dnssec_key \<Rightarrow> rr list \<Rightarrow> rr" where
  "rrsig_of cr clk n q p key g =
     (hd g)\<lparr>rr_typ := TYPE_RRSIG,
       rr_rdata := sign_rrsig cr clk n key (canonical_owner q (rr_owner (hd g))) (rr_typ (hd g))
         (rr_ttl (hd g)) (sort (map rr_rdata g)) (zp_zone p)\<rparr>"

definition signed_run ::
    "'k crypto \<Rightarrow> clock \<Rightarrow> nat \<Rightarrow> bytes \<Rightarrow> 'k zone_params \<Rightarrow> rr list \<Rightarrow> rr list" where
  "signed_run cr clk n q p g = sorted_run g @
     (case signing_key p (rr_typ (hd g)) of
        None \<Rightarrow> [] | Some key \<Rightarrow> [rrsig_of cr clk n q p key g])"

definition next_reading :: "'k zone_params \<Rightarrow> nat \<Rightarrow> rr list \<Rightarrow> nat" where
  "next_reading p n g = (if signing_key p (rr_typ (hd g)) = None then n else Suc n)"

fun signed_runs ::
    "'k crypto \<Rightarrow> clock \<Rightarrow> nat \<Rightarrow> bytes \<Rightarrow> 'k zone_params \<Rightarrow> rr list list \<Rightarrow> rr list \<times> nat" where
  "signed_runs cr clk n q p [] = ([], n)"
| "signed_runs cr clk n q p (g # gs) =
     (case signed_runs cr clk (next_reading p n g) q p gs of
        (rs, n') \<Rightarrow> (signed_run cr clk n q p g @ rs, n'))"

lemma length_sorted_run [simp]: "length (sorted_run g) = length g"
  by (simp add: sorted_run_def)

lemma rr_update_fields:
  "\<lparr> rr_owner = rr_owner r, rr_typ = rr_typ r, rr_ttl = rr_ttl r, rr_rdata = d \<rparr> = r\<lparr>rr_rdata := d\<rparr>"
  "\<lparr> rr_owner = rr_owner r, rr_typ = t, rr_ttl = rr_ttl r, rr_rdata = d \<rparr> = r\<lparr>rr_typ := t, rr_rdata := d\<rparr>"
  by (cases r, simp)+

lemma owner_canonical_wire_eq:
  assumes "qend q \<noteq> None"
  shows "(case owner of
      Question \<Rightarrow> owner_canonical_wire q True None
    | Name name \<Rightarrow> owner_canonical_wire q False (Some name)) = ret (canonical_owner q owner)"
  using assms owner_canonical_wire_question [of q]
  by (auto simp: owner_canonical_wire_def split: owner.split)

lemma emit_group_eq:
  assumes "qend q \<noteq> None" and "length pre = off" and "g \<noteq> []"
  shows "emit_group cr clk off q p (pre @ be16 c @ post, n) g =
    ret (pre @ be16 (sat_plus c (length (signed_run cr clk n q p g))) @ post @
           wires (signed_run cr clk n q p g), next_reading p n g)"
proof -
  let ?h = "hd g" and ?ds = "sort (map rr_rdata g)"
  have first: "idx g 0 = ret ?h" using assms(3) by (simp add: idx_def hd_conv_nth)
  have "wires (map (\<lambda>d. \<lparr> rr_owner = rr_owner ?h, rr_typ = rr_typ ?h, rr_ttl = rr_ttl ?h, rr_rdata = d \<rparr>) ?ds) =
      wires (sorted_run g)"
    by (simp add: sorted_run_def rr_update_fields)
  then have records: "fold_exec (\<lambda>buf rdata. bump_count
        (write_rr buf (rr_owner ?h) (rr_typ ?h) (rr_ttl ?h) rdata) off) (pre @ be16 c @ post) ?ds =
      ret (pre @ be16 (sat_plus c (length g)) @ post @ wires (sorted_run g))"
    using write_rdatas [OF assms(2), of "rr_owner ?h" "rr_typ ?h" "rr_ttl ?h" c post ?ds] by simp
  show ?thesis
  proof (cases "signing_key p (rr_typ ?h)")
    case None
    then show ?thesis
      by (auto simp: emit_group_def Let_def first records signed_run_def next_reading_def
          signing_key_def split: if_splits)
  next
    case (Some key)
    let ?sig = "sign_rrsig cr clk n key (canonical_owner q (rr_owner ?h)) (rr_typ ?h) (rr_ttl ?h) ?ds (zp_zone p)"
    have "bump_count (write_rr (pre @ be16 (sat_plus c (length g)) @ post @ wires (sorted_run g))
        (rr_owner ?h) TYPE_RRSIG (rr_ttl ?h) ?sig) off =
      ret (pre @ be16 (sat_plus c (Suc (length g))) @ post @ wires (sorted_run g) @
        rr_wire (rrsig_of cr clk n q p key g))"
      using bump_write_rr [OF assms(2), of "sat_plus c (length g)" "post @ wires (sorted_run g)"]
      by (simp add: rrsig_of_def rr_update_fields)
    with Some show ?thesis
      by (auto simp: emit_group_def Let_def first records signed_run_def next_reading_def
          signing_key_def owner_canonical_wire_eq [OF assms(1)] split: if_splits)
  qed
qed

lemma emit_groups_eq:
  assumes "qend q \<noteq> None" and "length pre = off"
  shows "[] \<notin> set gs \<Longrightarrow>
    fold_exec (emit_group cr clk off q p) (pre @ be16 c @ post, n) gs =
      (case signed_runs cr clk n q p gs of (rs, n') \<Rightarrow>
         ret (pre @ be16 (sat_plus c (length rs)) @ post @ wires rs, n'))"
proof (induction gs arbitrary: c post n)
  case (Cons g gs)
  then have "g \<noteq> []" by auto
  with Cons show ?case
    by (simp add: emit_group_eq [OF assms] case_prod_unfold)
qed simp

lemma emit_section_eq:
  assumes "qend q \<noteq> None" and "length pre = off"
  shows "emit_section cr clk off rrs q p (pre @ be16 c @ post, n) =
    (case signed_runs cr clk n q p (runs rrs) of (rs, n') \<Rightarrow>
       ret (pre @ be16 (sat_plus c (length rs)) @ post @ wires rs, n'))"
  by (simp add: emit_section_def group_fold emit_groups_eq [OF assms runs_nonempty])

section \<open>Whole messages\<close>

text \<open>The question section of a query, the OPT record of a reply, and a reply with its sections.\<close>

definition qsection_of :: "bytes \<Rightarrow> bytes" where
  "qsection_of q = (case qend q of None \<Rightarrow> [] | Some e \<Rightarrow> take (e - 12) (drop 12 q))"

definition opt_wire :: "bool \<Rightarrow> bytes" where
  "opt_wire d = [0, 0, 41, 4, 208, 0, 0] @ be16 (if d then 0x8000 else 0) @ [0, 0]"

definition opt_part :: "bytes \<Rightarrow> bool \<Rightarrow> bytes" where
  "opt_part q d = (if has_opt q then opt_wire d else [])"

definition rr_count :: "nat \<Rightarrow> u16" where
  "rr_count k = sat_plus 0 k"

definition reply :: "bytes \<Rightarrow> bytes \<Rightarrow> bool \<Rightarrow> rr list \<Rightarrow> rr list \<Rightarrow> rr list \<Rightarrow> bytes" where
  "reply flags q d an ns ar =
     take 2 q @ flags @ take 2 (drop 4 q) @ be16 (rr_count (length an)) @ be16 (rr_count (length ns)) @
     be16 (rr_count (length ar + (if has_opt q then 1 else 0))) @ qsection_of q @
     wires (an @ ns @ ar) @ opt_part q d"

text \<open>The sections as \<open>finish\<close> signs them, one after the other.\<close>

definition signed_sections ::
    "'k crypto \<Rightarrow> clock \<Rightarrow> bytes \<Rightarrow> 'k zone_params \<Rightarrow> rr list \<times> rr list \<times> rr list \<Rightarrow>
     rr list \<times> rr list \<times> rr list" where
  "signed_sections cr clk q p sections =
     (case sections of (an, ns, ar) \<Rightarrow>
        (case signed_runs cr clk 0 q p (runs an) of (an', n1) \<Rightarrow>
        (case signed_runs cr clk n1 q p (runs ns) of (ns', n2) \<Rightarrow>
        (case signed_runs cr clk n2 q p (runs ar) of (ar', n3) \<Rightarrow> (an', ns', ar')))))"

definition answer ::
    "'k crypto \<Rightarrow> clock \<Rightarrow> bytes \<Rightarrow> 'k zone_params \<Rightarrow> rr list \<times> rr list \<times> rr list \<Rightarrow> bytes" where
  "answer cr clk q p sections =
     (if qend q = None then []
      else case signed_sections cr clk q p sections of (an, ns, ar) \<Rightarrow>
             reply (response_flags q True RCODE_NOERROR) q (sign p) an ns ar)"

lemma length_response_flags [simp]: "length (response_flags q aa rcode) = 2"
  by (simp add: response_flags_def Let_def)

lemma count_0 [simp]: "rr_count 0 = 0" and sat_plus_count [simp]: "sat_plus (rr_count k) j = rr_count (k + j)"
  by (simp_all add: rr_count_def)

lemma unat_count [simp]: "unat (rr_count k) = min 65535 k"
  by (simp add: rr_count_def)

lemma maybe_append_opt_at:
  assumes "length pre = 10"
  shows "maybe_append_opt (pre @ be16 c @ post) q d =
    ret (pre @ be16 (sat_plus c (if has_opt q then 1 else 0)) @ post @ opt_part q d)"
proof -
  have "be16 41 = [0, 41]" and "be16 1232 = [4, 208]" and "be16 0 = [0, 0]" by code_simp+
  then show ?thesis
    using bump_count_at [OF assms, of c post] assms
    by (simp add: maybe_append_opt_def query_has_opt_eq opt_part_def opt_wire_def)
qed

lemma qend_slices:
  assumes "qend q = Some e"
  shows "subslice q 0 2 = ret (take 2 q)" and "subslice q 4 6 = ret (take 2 (drop 4 q))"
    and "subslice q 12 e = ret (qsection_of q)" and "length (take 2 q) = 2"
    and "length (take 2 (drop 4 q)) = 2"
proof -
  have "17 \<le> e" and "e \<le> length q" using qend_bounds [OF assms] by simp_all
  then show "subslice q 0 2 = ret (take 2 q)" and "subslice q 4 6 = ret (take 2 (drop 4 q))"
    and "subslice q 12 e = ret (qsection_of q)" and "length (take 2 q) = 2"
    and "length (take 2 (drop 4 q)) = 2"
    by (simp_all add: subslice_def qsection_of_def assms)
qed

definition question_msg :: "bytes \<Rightarrow> bytes \<Rightarrow> rr list \<times> rr list \<times> rr list \<Rightarrow> msg" where
  "question_msg flags q sections =
     \<lparr> m_buf = take 2 q @ flags @ take 2 (drop 4 q) @ [0, 0, 0, 0, 0, 0] @ qsection_of q,
       m_answers = fst sections, m_authority = fst (snd sections), m_additional = snd (snd sections) \<rparr>"

lemma with_question_eq:
  "with_question q aa rcode =
     ret (if qend q = None then None
          else Some (question_msg (response_flags q aa rcode) q ([], [], [])))"
  using qend_slices [of q]
  by (auto simp: with_question_def question_section_end_eq question_msg_def)

lemma finish_eq:
  assumes "qend q \<noteq> None"
  shows "finish cr clk (question_msg (response_flags q True 0) q sections) q p =
    ret (answer cr clk q p sections)"
proof -
  obtain e where e: "qend q = Some e" using assms by auto
  obtain an ns ar where sections: "sections = (an, ns, ar)" by (cases sections)
  let ?pre = "take 2 q @ response_flags q True 0 @ take 2 (drop 4 q)"
  have z: "[0, 0, 0, 0, 0, 0] = be16 0 @ be16 0 @ be16 0" by (simp add: be16_def)
  have len: "length ?pre = 6" using qend_slices(4,5) [OF e] by simp
  have l8: "length (?pre @ be16 c) = 8" and l10: "length (?pre @ be16 c @ be16 d) = 10" for c d
    using len by simp_all
  obtain an' n1 where an: "signed_runs cr clk 0 q p (runs an) = (an', n1)" by fastforce
  obtain ns' n2 where ns: "signed_runs cr clk n1 q p (runs ns) = (ns', n2)" by fastforce
  obtain ar' n3 where ar: "signed_runs cr clk n2 q p (runs ar) = (ar', n3)" by fastforce
  note an_eq = emit_section_eq [OF assms len, of cr clk an p "0" "be16 0 @ be16 0 @ qsection_of q" 0]
  note ns_eq = emit_section_eq [OF assms l8, of cr clk ns p "rr_count (length an')" "0"
      "be16 0 @ qsection_of q @ wires an'" n1]
  note ar_eq = emit_section_eq [OF assms l10, of cr clk ar p "rr_count (length an')" "rr_count (length ns')"
      "0" "qsection_of q @ wires an' @ wires ns'" n2]
  note opt_eq = maybe_append_opt_at [OF l10, of "rr_count (length an')" "rr_count (length ns')"
      "rr_count (length ar')" "qsection_of q @ wires an' @ wires ns' @ wires ar'" q "sign p"]
  show ?thesis
    using an_eq ns_eq ar_eq opt_eq
    by (simp add: finish_def question_msg_def z sections an ns ar rr_count_def [symmetric] assms
        answer_def signed_sections_def reply_def)
qed

section \<open>The records of each reply\<close>

definition question_rr :: "u16 \<Rightarrow> u32 \<Rightarrow> bytes \<Rightarrow> rr" where
  "question_rr typ ttl rdata = \<lparr> rr_owner = Question, rr_typ = typ, rr_ttl = ttl, rr_rdata = rdata \<rparr>"

definition soa_rr :: "owner \<Rightarrow> 'k zone_params \<Rightarrow> rr" where
  "soa_rr owner p = \<lparr> rr_owner = owner, rr_typ = TYPE_SOA, rr_ttl = TTL_SOA,
     rr_rdata = encode_domain_name (zp_ns_name p) @ encode_domain_name (zp_hostmaster p) @
       be32 (zp_serial p) @ be32 (zp_refresh p) @ be32 (zp_retry p) @ be32 (zp_expire p) @
       be32 (zp_minimum p) \<rparr>"

definition ns_rrs :: "'k zone_params \<Rightarrow> rr list" where
  "ns_rrs p = map (\<lambda>n. question_rr TYPE_NS TTL_RR (encode_domain_name n)) (zp_ns_names p)"

definition a_rr :: "owner \<Rightarrow> ipv4 \<Rightarrow> rr" where
  "a_rr owner ip = \<lparr> rr_owner = owner, rr_typ = TYPE_A, rr_ttl = TTL_RR, rr_rdata = octets4 ip \<rparr>"

definition aaaa_rr :: "owner \<Rightarrow> ipv6 \<Rightarrow> rr" where
  "aaaa_rr owner ip = \<lparr> rr_owner = owner, rr_typ = TYPE_AAAA, rr_ttl = TTL_RR, rr_rdata = octets6 ip \<rparr>"

definition txt_rr :: "rstr \<Rightarrow> rr" where
  "txt_rr txt = question_rr TYPE_TXT TTL_RR (of_nat (min (length txt) 255) # take 255 txt)"

definition dnskey_rr :: "'k dnssec_key \<Rightarrow> rr" where
  "dnskey_rr key = question_rr TYPE_DNSKEY TTL_SOA (dk_dnskey_rdata key)"

definition cds_rr :: "'k crypto \<Rightarrow> 'k zone_params \<Rightarrow> 'k dnssec_key \<Rightarrow> rr" where
  "cds_rr cr p key = question_rr TYPE_CDS TTL_SOA (ds_rdata cr key (zp_zone p))"

definition cdnskey_rr :: "'k dnssec_key \<Rightarrow> rr" where
  "cdnskey_rr key = question_rr TYPE_CDNSKEY TTL_SOA (dk_dnskey_rdata key)"

text \<open>The NSEC record of the question for the existing types.\<close>

definition nsec_data :: "bytes \<Rightarrow> u16 list \<Rightarrow> bytes" where
  "nsec_data qname types =
     (case nsec_rdata qname (nsec_types types) of Some rdata \<Rightarrow> rdata | None \<Rightarrow> [])"

definition qname_of :: "bytes \<Rightarrow> bytes" where
  "qname_of q = (case qend q of None \<Rightarrow> [] | Some e \<Rightarrow> take (e - 16) (drop 12 q))"

definition nsec_rr :: "bytes \<Rightarrow> 'k zone_params \<Rightarrow> u16 list \<Rightarrow> rr" where
  "nsec_rr q p types = question_rr TYPE_NSEC (zp_minimum p) (nsec_data (qname_of q) types)"

definition glue_of :: "'k zone_params \<Rightarrow> rstr \<Rightarrow> rr list" where
  "glue_of p n = (if in_bailiwick n (zp_zone p)
     then a_rr (Name n) (zp_glue_ip p) #
       (case zp_glue_ip6 p of Some ip \<Rightarrow> [aaaa_rr (Name n) ip] | None \<Rightarrow> [])
     else [])"

definition glue_rrs :: "'k zone_params \<Rightarrow> rr list" where
  "glue_rrs p = concat (map (glue_of p) (zp_ns_names p))"

text \<open>The unsigned sections (answer, authority, additional) of the builders.\<close>

definition nodata_content ::
    "bytes \<Rightarrow> 'k zone_params \<Rightarrow> u16 list \<Rightarrow> rr list \<times> rr list \<times> rr list" where
  "nodata_content q p types =
     ([], soa_rr (Name (zp_zone p)) p # (if sign p then [nsec_rr q p types] else []), [])"

definition if_some :: "'a option \<Rightarrow> ('a \<Rightarrow> 'b list) \<Rightarrow> 'b list" where
  "if_some x f = (case x of None \<Rightarrow> [] | Some y \<Rightarrow> f y)"

definition apex_answers :: "'k crypto \<Rightarrow> bytes \<Rightarrow> u16 \<Rightarrow> 'k zone_params \<Rightarrow> rr list" where
  "apex_answers cr q qtype p =
     (if qtype = TYPE_SOA then [soa_rr Question p]
      else if qtype = TYPE_NS then ns_rrs p
      else if qtype = TYPE_A then [a_rr Question (zp_glue_ip p)]
      else if qtype = TYPE_AAAA then if_some (zp_glue_ip6 p) (\<lambda>ip. [aaaa_rr Question ip])
      else if qtype = TYPE_TXT then if_some (zp_spf p) (\<lambda>spf. [txt_rr spf])
      else if qtype = TYPE_DNSKEY then if_some (zp_dnssec p) (\<lambda>key. [dnskey_rr key])
      else if qtype = TYPE_CDS then if_some (zp_dnssec p) (\<lambda>key. [cds_rr cr p key])
      else if qtype = TYPE_CDNSKEY then if_some (zp_dnssec p) (\<lambda>key. [cdnskey_rr key])
      else if qtype = TYPE_NSEC then if_some (zp_dnssec p) (\<lambda>key. [nsec_rr q p (apex_types p)])
      else if qtype = TYPE_ANY then
        soa_rr Question p # ns_rrs p @ [a_rr Question (zp_glue_ip p)] @
        if_some (zp_glue_ip6 p) (\<lambda>ip. [aaaa_rr Question ip]) @
        if_some (zp_spf p) (\<lambda>spf. [txt_rr spf]) @ if_some (zp_dnssec p) (\<lambda>key. [dnskey_rr key, cds_rr cr p key, cdnskey_rr key])
      else [])"

definition apex_content ::
    "'k crypto \<Rightarrow> bytes \<Rightarrow> u16 \<Rightarrow> 'k zone_params \<Rightarrow> rr list \<times> rr list \<times> rr list" where
  "apex_content cr q qtype p =
     (if apex_answers cr q qtype p = [] \<and> qtype \<noteq> TYPE_NS then nodata_content q p (apex_types p)
      else (apex_answers cr q qtype p,
            if qtype = TYPE_SOA then ns_rrs p else [],
            if qtype \<in> {TYPE_SOA, TYPE_NS, TYPE_ANY} then glue_rrs p else []))"

definition address_answers :: "u16 \<Rightarrow> ipv4 option \<times> ipv6 option \<Rightarrow> rr list" where
  "address_answers qtype ip =
     (if qtype \<in> {TYPE_A, TYPE_ANY} then if_some (fst ip) (\<lambda>a. [a_rr Question a]) else []) @
     (if qtype \<in> {TYPE_AAAA, TYPE_ANY} then if_some (snd ip) (\<lambda>a. [aaaa_rr Question a]) else [])"

definition address_content ::
    "bytes \<Rightarrow> u16 \<Rightarrow> ipv4 option \<times> ipv6 option \<Rightarrow> 'k zone_params \<Rightarrow> rr list \<times> rr list \<times> rr list" where
  "address_content q qtype ip p =
     (if address_answers qtype ip = [] then nodata_content q p (address_types ip)
      else (address_answers qtype ip, [], []))"

subsection \<open>The builders write exactly these records\<close>

text \<open>The names of the parameters are UTF-8, as every Rust string is.\<close>

definition params_utf8 :: "'k zone_params \<Rightarrow> bool" where
  "params_utf8 p \<longleftrightarrow> (\<forall>n \<in> set (zp_ns_names p). utf8_valid n)"

text \<open>Adding records to a section of a message in progress.\<close>

lemmas add_defs = add_rr_def add_soa_def add_ns_def add_a_def add_aaaa_def add_dnskey_def
  add_cds_def add_cdnskey_def question_msg_def soa_rr_def a_rr_def aaaa_rr_def question_rr_def
  dnskey_rdata_def

lemma add_question_msg:
  "add_soa 6 owner p (question_msg f q (an, ns, ar)) = question_msg f q (an @ [soa_rr owner p], ns, ar)"
  "add_soa 8 owner p (question_msg f q (an, ns, ar)) = question_msg f q (an, ns @ [soa_rr owner p], ar)"
  "add_a 6 owner ip (question_msg f q (an, ns, ar)) = question_msg f q (an @ [a_rr owner ip], ns, ar)"
  "add_a 10 owner ip (question_msg f q (an, ns, ar)) = question_msg f q (an, ns, ar @ [a_rr owner ip])"
  "add_aaaa 6 owner ip6 (question_msg f q (an, ns, ar)) =
     question_msg f q (an @ [aaaa_rr owner ip6], ns, ar)"
  "add_aaaa 10 owner ip6 (question_msg f q (an, ns, ar)) =
     question_msg f q (an, ns, ar @ [aaaa_rr owner ip6])"
  "add_rr 6 Question typ ttl d (question_msg f q (an, ns, ar)) =
     question_msg f q (an @ [question_rr typ ttl d], ns, ar)"
  "add_rr 8 Question typ ttl d (question_msg f q (an, ns, ar)) =
     question_msg f q (an, ns @ [question_rr typ ttl d], ar)"
  by (simp_all add: add_defs)

lemma add_ns_set_answer:
  "add_ns_set 6 p (question_msg f q (an, ns, ar)) = question_msg f q (an @ ns_rrs p, ns, ar)"
proof -
  have "foldl (\<lambda>m name. add_ns 6 Question name m) (question_msg f q (an, ns, ar)) names =
      question_msg f q (an @ map (\<lambda>n. question_rr TYPE_NS TTL_RR (encode_domain_name n)) names, ns, ar)"
    for names
    by (induction names arbitrary: an) (simp_all add: add_ns_def add_question_msg)
  then show ?thesis by (simp add: add_ns_set_def ns_rrs_def)
qed

lemma add_ns_set_authority:
  "add_ns_set 8 p (question_msg f q (an, ns, ar)) = question_msg f q (an, ns @ ns_rrs p, ar)"
proof -
  have "foldl (\<lambda>m name. add_ns 8 Question name m) (question_msg f q (an, ns, ar)) names =
      question_msg f q (an, ns @ map (\<lambda>n. question_rr TYPE_NS TTL_RR (encode_domain_name n)) names, ar)"
    for names
    by (induction names arbitrary: ns) (simp_all add: add_ns_def add_question_msg)
  then show ?thesis by (simp add: add_ns_set_def ns_rrs_def)
qed

lemma add_txt_eq:
  "add_txt txt (question_msg f q (an, ns, ar)) = ret (question_msg f q (an @ [txt_rr txt], ns, ar))"
proof -
  have "take (min (length txt) 255) txt = take 255 txt" by (metis min.commute take_all_iff take_take linorder_le_cases min_absorb1)
  then show ?thesis
    by (simp add: add_txt_def Let_def subslice_def txt_rr_def add_question_msg)
qed

lemma add_glue_eq:
  assumes "params_utf8 p"
  shows "add_in_bailiwick_glue p (question_msg f q (an, ns, ar)) =
    ret (question_msg f q (an, ns, ar @ glue_rrs p))"
proof -
  let ?step = "\<lambda>m name. do {
         b \<leftarrow> name_in_bailiwick name (zp_zone p);
         ret (if b then
                (let m = add_a OFFSET_ARCOUNT (Name name) (zp_glue_ip p) m
                 in case zp_glue_ip6 p of
                      Some ip6 \<Rightarrow> add_aaaa OFFSET_ARCOUNT (Name name) ip6 m
                    | None \<Rightarrow> m)
              else m)
       }"
  have step: "?step (question_msg f q (an, ns, ar)) n = ret (question_msg f q (an, ns, ar @ glue_of p n))"
    if "utf8_valid n" for n ar
    using that
    by (auto simp: name_in_bailiwick_eq glue_of_def Let_def add_question_msg split: option.split)
  have "\<forall>n \<in> set names. utf8_valid n \<Longrightarrow> fold_exec ?step (question_msg f q (an, ns, ar)) names =
      ret (question_msg f q (an, ns, ar @ concat (map (glue_of p) names)))" for names
    by (induction names arbitrary: ar) (simp_all add: step)
  with assms show ?thesis
    by (simp add: add_in_bailiwick_glue_def params_utf8_def glue_rrs_def)
qed

lemma nsec_rdata_ret: "nsec_rdata qname (nsec_types types) = ret (nsec_data qname types)"
  using type_bitmap_ret [of "nsec_types types"]
  by (auto simp: nsec_rdata_def nsec_data_def lowercase_wire_name_eq)

lemma qname_slice:
  assumes "qend q = Some e"
  shows "subslice q 12 (e - 4) = ret (qname_of q)"
proof -
  have "17 \<le> e" and "e \<le> length q" using qend_bounds [OF assms] by simp_all
  then have "12 \<le> e - 4" and "e - 4 \<le> length q" and "e - 4 - 12 = e - 16" by arith+
  then show ?thesis by (simp only: subslice_def qname_of_def assms option.case simp_thms if_True)
qed

lemma if_some_Nil [simp]: "if_some x (\<lambda>y. [f y]) = [] \<longleftrightarrow> x = None"
  by (simp add: if_some_def split: option.split)

lemmas builder_simps = with_question_eq add_question_msg add_ns_set_answer add_ns_set_authority
  add_txt_eq question_section_end_eq qname_slice nsec_rdata_ret

lemma no_question: "qend q = None \<Longrightarrow> answer cr clk q p sections = []"
  by (simp add: answer_def)

lemma nodata_eq [exec_simps]:
  "nodata cr clk q p types = ret (answer cr clk q p (nodata_content q p types))"
proof (cases "qend q")
  case None
  then show ?thesis by (simp add: nodata_def with_question_eq no_question)
next
  case (Some e)
  then have fin: "finish cr clk (question_msg (response_flags q True 0) q sections) q p =
      ret (answer cr clk q p sections)" for sections
    by (simp add: finish_eq)
  show ?thesis
    using fin Some
    by (simp add: nodata_def builder_simps nodata_content_def nsec_rr_def Let_def)
qed

lemma build_nodata_response_eq [exec_simps]:
  "build_nodata_response cr clk q p types = ret (answer cr clk q p (nodata_content q p types))"
  by (simp add: build_nodata_response_def nodata_eq)

lemma build_txt_response_eq [exec_simps]:
  "build_txt_response cr clk q txt p = ret (answer cr clk q p ([txt_rr txt], [], []))"
proof (cases "qend q")
  case None
  then show ?thesis by (simp add: build_txt_response_def with_question_eq no_question)
next
  case (Some e)
  then show ?thesis
    using finish_eq [of q cr clk "([txt_rr txt], [], [])" p]
    by (simp add: build_txt_response_def builder_simps)
qed

lemma build_address_response_eq [exec_simps]:
  "build_address_response cr clk q qtype ip p =
     ret (answer cr clk q p (address_content q qtype ip p))"
proof (cases "qend q")
  case None
  then show ?thesis
    by (auto simp: build_address_response_def with_question_eq nodata_eq no_question Let_def)
next
  case (Some e)
  then have fin: "finish cr clk (question_msg (response_flags q True 0) q sections) q p =
      ret (answer cr clk q p sections)" for sections
    by (simp add: finish_eq)
  obtain v4 v6 where ip: "ip = (v4, v6)" by (cases ip)
  show ?thesis
    using fin Some
    by (cases v4; cases v6)
      (auto simp: ip build_address_response_def builder_simps nodata_eq address_content_def
        address_answers_def if_some_def Let_def)
qed

lemma apex_bad_question:
  "qend q = None \<Longrightarrow> build_apex_response cr clk q qtype p = ret []"
  by (simp add: build_apex_response_def with_question_eq)

lemma build_apex_response_eq:
  assumes "params_utf8 p"
  shows "build_apex_response cr clk q qtype p = ret (answer cr clk q p (apex_content cr q qtype p))"
proof (cases "qend q")
  case None
  then show ?thesis by (simp add: apex_bad_question no_question)
next
  case (Some e)
  then have fin: "finish cr clk (question_msg (response_flags q True 0) q sections) q p =
      ret (answer cr clk q p sections)" for sections
    by (simp add: finish_eq)
  note glue = add_glue_eq [OF assms]
  consider "qtype = 6" | "qtype = 2" | "qtype = 1" | "qtype = 28" | "qtype = 16" | "qtype = 48" |
    "qtype = 59" | "qtype = 60" | "qtype = 47" | "qtype = 255" |
    "qtype \<notin> {6, 2, 1, 28, 16, 48, 59, 60, 47, 255}" by blast
  then show ?thesis
  proof cases
    case 10
    then show ?thesis
      using fin Some glue
      by (cases "zp_glue_ip6 p"; cases "zp_spf p"; cases "zp_dnssec p")
        (simp_all add: build_apex_response_def builder_simps apex_content_def apex_answers_def
          if_some_def Let_def dnskey_rr_def cds_rr_def cdnskey_rr_def add_dnskey_def add_cds_def
          add_cdnskey_def dnskey_rdata_def)
  qed (use fin Some glue in \<open>auto simp: build_apex_response_def builder_simps nodata_eq
        apex_content_def apex_answers_def if_some_def Let_def nsec_rr_def dnskey_rr_def cds_rr_def
        cdnskey_rr_def add_dnskey_def add_cds_def add_cdnskey_def dnskey_rdata_def
        split: option.splits\<close>)
qed

lemma error_response_eq:
  "error_response q rcode =
     ret (if length q < 12 then [] else reply (response_flags q False rcode) q False [] [] [])"
proof (cases "length q < 12")
  case False
  let ?pre = "take 2 q @ response_flags q False rcode @ take 2 (drop 4 q) @ be16 0 @ be16 0"
  have z: "[0, 0, 0, 0, 0, 0] = be16 0 @ be16 0 @ be16 0" by (simp add: be16_def)
  have len: "length ?pre = 10" using False by simp
  have sub: "subslice q 0 2 = ret (take 2 q)" "subslice q 4 6 = ret (take 2 (drop 4 q))"
    using False by (simp_all add: subslice_def)
  have opt: "maybe_append_opt (?pre @ be16 0 @ qsection_of q) q False =
      ret (?pre @ be16 (sat_plus 0 (if has_opt q then 1 else 0)) @ qsection_of q @ opt_part q False)"
    by (rule maybe_append_opt_at [OF len])
  show ?thesis
  proof (cases "qend q")
    case None
    then have "qsection_of q = []" by (simp add: qsection_of_def)
    with False opt None show ?thesis
      by (simp add: error_response_def sub question_section_end_eq Let_def z reply_def rr_count_def)
  next
    case (Some e)
    with False opt qend_slices(3) [OF Some] show ?thesis
      by (simp add: error_response_def sub question_section_end_eq Let_def z reply_def rr_count_def)
  qed
qed (simp add: error_response_def)

section \<open>Header flags\<close>

text \<open>
  The flag bytes of every reply: QR set, the opcode and RD of the query copied, AA as asked,
  TC and RA clear, and the response code in the low four bits.
\<close>

theorem response_flags_bits:
  "let f0 = hd (response_flags q aa rcode); f1 = last (response_flags q aa rcode) in
     bit f0 7 \<and> take_bit 4 (drop_bit 3 f0) = take_bit 4 (drop_bit 3 (get0 q 2)) \<and>
     bit f0 2 = aa \<and> \<not> bit f0 1 \<and> bit f0 0 = bit (get0 q 2) 0 \<and>
     \<not> bit f1 7 \<and> f1 = take_bit 4 rcode"
proof -
  have m: "(0x78 :: byte) = push_bit 3 (mask 4)" and n: "(0x0f :: byte) = mask 4"
    by (simp_all add: mask_eq_exp_minus_1)
  have e: "(0x80 :: byte) = push_bit 7 1" "(0x04 :: byte) = push_bit 2 1" by simp_all
  show ?thesis
    by (auto intro!: bit_word_eqI
        simp: response_flags_def Let_def m n e bit_simps take_bit_eq_mask [symmetric]
        simp del: push_bit_of_1)
qed

text \<open>
  A reader of the second 16-bit field of a header, by the layout of RFC 1035, section 4.1.1; the
  properties state the flags of a reply with it and not with the masks of the code.
\<close>

record header_flags =
  fl_qr :: bool
  fl_opcode :: u16
  fl_aa :: bool
  fl_tc :: bool
  fl_rd :: bool
  fl_ra :: bool
  fl_z :: u16
  fl_rcode :: u16

definition read_flags :: "u16 \<Rightarrow> header_flags" where
  "read_flags f = \<lparr>
     fl_qr = bit f 15, fl_opcode = take_bit 4 (drop_bit 11 f), fl_aa = bit f 10, fl_tc = bit f 9,
     fl_rd = bit f 8, fl_ra = bit f 7, fl_z = take_bit 3 (drop_bit 4 f), fl_rcode = take_bit 4 f \<rparr>"

definition flags_of :: "bytes \<Rightarrow> header_flags" where
  "flags_of message = read_flags (of_be16 (message ! 2) (message ! 3))"

text \<open>The flags of a reply to the query \<open>q\<close>: QR set, opcode and RD copied, TC, RA and Z clear.\<close>

definition reply_flags :: "bytes \<Rightarrow> bool \<Rightarrow> u16 \<Rightarrow> header_flags" where
  "reply_flags q aa rcode = \<lparr>
     fl_qr = True, fl_opcode = fl_opcode (flags_of q), fl_aa = aa, fl_tc = False,
     fl_rd = fl_rd (flags_of q), fl_ra = False, fl_z = 0, fl_rcode = rcode \<rparr>"

lemma bit_of_be16: "bit (of_be16 a b) n \<longleftrightarrow> n < 16 \<and> (if n < 8 then bit b n else bit a (n - 8))"
  by (auto simp: of_be16_def bit_simps dest: bit_imp_le_length)

lemma read_response_flags:
  assumes "3 < length q"
  shows "read_flags (of_be16 (response_flags q aa rcode ! 0) (response_flags q aa rcode ! 1)) =
    reply_flags q aa (ucast (take_bit 4 rcode))"
proof -
  have m: "(0x78 :: byte) = push_bit 3 (mask 4)" and n: "(0x0f :: byte) = mask 4"
    by (simp_all add: mask_eq_exp_minus_1)
  have e: "(0x80 :: byte) = push_bit 7 1" "(0x04 :: byte) = push_bit 2 1" by simp_all
  show ?thesis
    using assms
    by (auto intro!: bit_word_eqI simp: read_flags_def reply_flags_def flags_of_def response_flags_def
        get0_def Let_def m n e bit_of_be16 bit_simps simp del: push_bit_of_1)
qed

section \<open>The contract of a builder\<close>

text \<open>
  What the query handler relies on: for parameters that satisfy \<open>wf\<close> a builder returns, and
  what it returns is empty or a reply to the query with the flags \<open>flags q\<close>.
\<close>

locale responder =
  fixes build :: "bytes \<Rightarrow> bytes exec"
    and flags :: "bytes \<Rightarrow> bytes"
    and wf :: bool
  assumes responds: "wf \<Longrightarrow> build q = ret r \<Longrightarrow> r = [] \<or> 12 \<le> length q \<and>
      (\<exists>d an ns ar. r = reply (flags q) q d an ns ar)"
    and total: "wf \<Longrightarrow> \<exists>r. build q = ret r"
    and two_flags: "length (flags q) = 2"
begin

lemma no_panic: "wf \<Longrightarrow> build q \<noteq> panic"
  using total by auto

lemma echo:
  assumes "wf" and "build q = ret r" and "r \<noteq> []"
  shows "take 2 r = take 2 q \<and> take 2 (drop 2 r) = flags q \<and> take 2 (drop 4 r) = take 2 (drop 4 q) \<and>
    take (length (qsection_of q)) (drop 12 r) = qsection_of q"
proof -
  obtain d an ns ar where r: "r = reply (flags q) q d an ns ar" and q: "12 \<le> length q"
    using responds [OF assms(1,2)] assms(3) by blast
  have len: "length (take 2 q) = 2" "length (take 2 (drop 4 q)) = 2" "length (flags q) = 2"
    using q two_flags by simp_all
  have "take 2 (a @ f @ b @ rest) = a \<and> take 2 (drop 2 (a @ f @ b @ rest)) = f \<and>
      take 2 (drop 4 (a @ f @ b @ rest)) = b \<and> drop 6 (a @ f @ b @ rest) = rest"
    if "length a = 2" "length f = 2" "length b = 2" for a f b rest :: bytes
    using that by (simp add: drop_append take_append)
  note parts = this [OF len(1,3,2)]
  have "take (length s) (drop 12 r) = s" if "drop 6 r = be16 x @ be16 y @ be16 z @ s @ t"
    for x y z s t
  proof -
    have "drop 12 r = drop 6 (drop 6 r)" by simp
    also have "\<dots> = s @ t" unfolding that by (simp add: drop_append)
    finally show ?thesis by simp
  qed
  with parts show ?thesis unfolding r reply_def by blast
qed

end

lemma answer_shape:
  "answer cr clk q p sections = [] \<or> 12 \<le> length q \<and>
     (\<exists>d an ns ar. answer cr clk q p sections = reply (response_flags q True RCODE_NOERROR) q d an ns ar)"
proof (cases "qend q")
  case (Some e)
  then have "12 \<le> length q" using qend_bounds [OF Some] by linarith
  with Some show ?thesis by (auto simp: answer_def split: prod.split)
qed (simp add: no_question)

interpretation refused_reply: responder build_refused_response "\<lambda>q. response_flags q False RCODE_REFUSED" True
  by unfold_locales (auto simp: build_refused_response_def error_response_eq)

interpretation notimp_reply: responder build_notimp_response "\<lambda>q. response_flags q False RCODE_NOTIMP" True
  by unfold_locales (auto simp: build_notimp_response_def error_response_eq)

text \<open>A builder that writes the records \<open>content q\<close> authoritatively.\<close>

locale answering =
  fixes build :: "bytes \<Rightarrow> bytes exec"
    and cr :: "'k crypto"
    and clk :: clock
    and p :: "'k zone_params"
    and content :: "bytes \<Rightarrow> rr list \<times> rr list \<times> rr list"
    and wf :: bool
  assumes answers: "wf \<Longrightarrow> build q = ret (answer cr clk q p (content q))"

sublocale answering \<subseteq> responder build "\<lambda>q. response_flags q True RCODE_NOERROR" wf
proof
  fix q r
  assume "wf" and "build q = ret r"
  then have "r = answer cr clk q p (content q)" by (simp add: answers)
  with answer_shape [of cr clk q p "content q"]
  show "r = [] \<or> 12 \<le> length q \<and>
      (\<exists>d an ns ar. r = reply (response_flags q True RCODE_NOERROR) q d an ns ar)" by blast
qed (simp_all add: answers)

interpretation nodata_reply: answering "\<lambda>q. build_nodata_response cr clk q p types" cr clk p
    "\<lambda>q. nodata_content q p types" True for cr clk p types
  by unfold_locales (rule build_nodata_response_eq)

interpretation txt_reply: answering "\<lambda>q. build_txt_response cr clk q t p" cr clk p
    "\<lambda>q. ([txt_rr t], [], [])" True for cr clk t p
  by unfold_locales (rule build_txt_response_eq)

interpretation address_reply: answering "\<lambda>q. build_address_response cr clk q qtype ip p" cr clk p
    "\<lambda>q. address_content q qtype ip p" True for cr clk qtype ip p
  by unfold_locales (rule build_address_response_eq)

interpretation apex_reply: answering "\<lambda>q. build_apex_response cr clk q qtype p" cr clk p
    "\<lambda>q. apex_content cr q qtype p" "params_utf8 p" for cr clk qtype p
  by unfold_locales (rule build_apex_response_eq)

text \<open>
  No builder panics, on any query: with UTF-8 names in the configuration every slice, index
  and \<open>expect\<close> on the way is in range.
\<close>

theorem builders_total:
  assumes "params_utf8 p"
  shows "build_apex_response cr clk q qtype p \<noteq> panic \<and>
    build_address_response cr clk q qtype ip p \<noteq> panic \<and>
    build_txt_response cr clk q t p \<noteq> panic \<and>
    build_nodata_response cr clk q p types \<noteq> panic \<and>
    build_refused_response q \<noteq> panic \<and> build_notimp_response q \<noteq> panic"
  by (intro conjI apex_reply.no_panic [OF assms] address_reply.no_panic [OF TrueI]
      txt_reply.no_panic [OF TrueI] nodata_reply.no_panic [OF TrueI]
      refused_reply.no_panic [OF TrueI] notimp_reply.no_panic [OF TrueI])

text \<open>A zone for the witnesses: a name server in the zone, one outside, a signing key.\<close>

definition toy_params :: "bytes zone_params" where
  "toy_params = \<lparr> zp_zone = lit ''nip.nu'', zp_ns_name = lit ''ns1.addr.se'',
     zp_ns_names = [lit ''ns.addr.se'', lit ''ns1.nip.nu''], zp_glue_ip = Ipv4 37 27 198 249,
     zp_glue_ip6 = None, zp_hostmaster = lit ''hostmaster.nip.nu'', zp_serial = 1,
     zp_refresh = 3600, zp_retry = 1800, zp_expire = 604800, zp_minimum = 3600,
     zp_spf = Some (lit ''v=spf1 -all''), zp_dnssec = Some toy_key, zp_do_bit = True \<rparr>"

lemma toy_params_utf8: "params_utf8 toy_params"
proof -
  have "list_all utf8_valid [lit ''ns.addr.se'', lit ''ns1.nip.nu'']" by code_simp
  then show ?thesis by (simp add: params_utf8_def toy_params_def)
qed

theorem builders_total_witness:
  "build_apex_response toy_crypto (\<lambda>_. None) [1, 2, 3] 255 toy_params \<noteq> panic"
  using builders_total [OF toy_params_utf8] by blast

section \<open>Truncation\<close>

definition truncated :: "bytes \<Rightarrow> bytes \<Rightarrow> bytes" where
  "truncated response q =
     take 2 response @ [get0 response 2 OR 0x02, get0 response 3] @ take 2 (drop 4 q) @
     [0, 0, 0, 0, 0, if has_opt q \<and> length (qsection_of q) + 23 \<le> udp_limit q then 1 else 0] @
     qsection_of q @
     (if length (qsection_of q) + 23 \<le> udp_limit q then opt_part q False else [])"

lemma length_2_exD: "length xs = 2 \<Longrightarrow> \<exists>a b. xs = [a, b]"
  by (auto simp: numeral_2_eq_2 length_Suc_conv)

lemma length_reply_part: "length (opt_wire d) = 11"
  by (simp add: opt_wire_def)

lemma qsection_length: "qend q = Some e \<Longrightarrow> length (qsection_of q) = e - 12"
  using qend_bounds [of q e] by (auto simp: qsection_of_def)

lemma maybe_truncate_udp_eq [exec_simps]:
  "maybe_truncate_udp response q =
     ret (if length response \<le> udp_limit q \<or> qend q = None then response else truncated response q)"
proof (cases "length response \<le> udp_limit q \<or> qend q = None")
  case True
  then show ?thesis
    by (auto simp: maybe_truncate_udp_def udp_response_limit_eq question_section_end_eq)
next
  case False
  then obtain e where e: "qend q = Some e" by auto
  have long: "512 < length response" using False udp_limit_bounds [of q] by linarith
  let ?hd = "take 2 response @ [get0 response 2 OR 2, get0 response 3] @ take 2 (drop 4 q)"
  let ?body = "qsection_of q"
  have len: "length (?hd @ [0, 0, 0, 0]) = 10" using qend_slices(5) [OF e] long by simp
  have z: "[0, 0, 0, 0, 0, 0] = [0, 0, 0, 0] @ be16 0" by (simp add: be16_def)
  let ?c = "sat_plus 0 (if has_opt q then 1 else 0)"
  let ?full = "(?hd @ [0, 0, 0, 0]) @ be16 ?c @ ?body @ opt_part q False"
  have full: "maybe_append_opt (?hd @ [0, 0, 0, 0, 0, 0] @ ?body) q False = ret ?full"
    using maybe_append_opt_at [OF len, of 0 ?body q False] by (simp add: z)
  have c: "be16 ?c = [0, if has_opt q then 1 else 0]"
    by (simp add: sat_plus_def) code_simp
  have body: "length ?body = e - 12" "17 \<le> e"
    using qsection_length [OF e] qend_bounds [OF e] by simp_all
  have step: "maybe_truncate_udp response q =
      (if udp_limit q < length ?full
       then do { t \<leftarrow> upd (take (12 + (e - 12)) ?full) 10 0; upd t 11 0 }
       else ret ?full)"
    using False long e qend_slices(2,3) [OF e] full
    by (simp add: maybe_truncate_udp_def udp_response_limit_eq question_section_end_eq
        subslice_ret Let_def)
  have "take (12 + (e - 12)) ?full = (?hd @ [0, 0, 0, 0]) @ be16 ?c @ ?body"
    using split_at [of "(?hd @ [0, 0, 0, 0]) @ be16 ?c @ ?body" "12 + (e - 12)" "opt_part q False"]
      len body(1) by (simp only: append_assoc length_append length_be16)
  moreover have "do { t \<leftarrow> upd ((?hd @ [0, 0, 0, 0]) @ [0, x] @ ?body) 10 0; upd t 11 0 } =
      ret ((?hd @ [0, 0, 0, 0]) @ [0, 0] @ ?body)" for x
    using len by (simp add: upd_def list_update_append)
  ultimately have clear: "do { t \<leftarrow> upd (take (12 + (e - 12)) ?full) 10 0; upd t 11 0 } =
      ret ((?hd @ [0, 0, 0, 0]) @ [0, 0] @ ?body)"
    by (simp only: c)
  have size: "length ?full = length ?body + 12 + (if has_opt q then 11 else 0)"
    using len by (simp add: opt_part_def length_reply_part)
  have trunc: "truncated response q =
      (if udp_limit q < length ?full then (?hd @ [0, 0, 0, 0]) @ [0, 0] @ ?body else ?full)"
  proof (cases "has_opt q")
    case True
    then have "udp_limit q < length ?full \<longleftrightarrow> \<not> length ?body + 23 \<le> udp_limit q"
      unfolding size by auto
    moreover have "be16 (sat_plus 0 (Suc 0)) = [0, 1]" using c True by simp
    ultimately show ?thesis using True by (simp add: truncated_def)
  next
    case no: False
    moreover have "be16 0 = [0, 0]" by code_simp
    ultimately show ?thesis by (simp add: truncated_def opt_part_def)
  qed
  have "maybe_truncate_udp response q = ret (truncated response q)"
    by (cases "udp_limit q < length ?full") (simp_all only: step clear trunc if_True if_False)
  then show ?thesis using False by (simp only: if_False)
qed

lemma bit_of_be16_tc: "bit (of_be16 (a OR 2) b) n \<longleftrightarrow> n = 9 \<or> bit (of_be16 a b) n"
proof -
  have "bit (2 ^ 1 :: byte) k \<longleftrightarrow> k = 1" for k by (subst bit_exp_iff) auto
  then have two: "bit (2 :: byte) k \<longleftrightarrow> k = 1" for k by simp
  show ?thesis by (simp only: bit_of_be16 bit_or_iff two) (simp, arith)
qed

lemma read_flags_tc:
  "read_flags (of_be16 (a OR 2) b) = (read_flags (of_be16 a b))\<lparr>fl_tc := True\<rparr>"
proof -
  have "take_bit 4 (drop_bit 11 (of_be16 (a OR 2) b)) = take_bit 4 (drop_bit 11 (of_be16 a b))"
    and "take_bit 3 (drop_bit 4 (of_be16 (a OR 2) b)) = take_bit 3 (drop_bit 4 (of_be16 a b))"
    and "take_bit 4 (of_be16 (a OR 2) b) = take_bit 4 (of_be16 a b)"
    by (auto intro!: bit_word_eqI simp: bit_take_bit_iff bit_drop_bit_eq bit_of_be16_tc)
  then show ?thesis by (simp add: read_flags_def bit_of_be16_tc)
qed

text \<open>
  C33: truncation never panics.  A reply within the limit is sent unchanged.  A longer one becomes
  exactly: its identifier; its flags with TC set and every other bit as it was; the question count
  of the query; no answers and no authority; the question section of the query; and, when the
  query has an OPT record and there is room for it, an OPT record, counted as the only additional
  one.  The result fits the limit whenever header and question alone do.
\<close>

theorem maybe_truncate_udp_fits:
  assumes "qend q = Some e"
  shows "\<exists>r. maybe_truncate_udp response q = ret r \<and>
    (length response \<le> udp_limit q \<longrightarrow> r = response) \<and>
    (\<not> length response \<le> udp_limit q \<longrightarrow>
       take 2 r = take 2 response \<and> flags_of r = (flags_of response)\<lparr>fl_tc := True\<rparr> \<and>
       take 2 (drop 4 r) = take 2 (drop 4 q) \<and>
       drop 6 r =
         (if has_opt q \<and> e + 11 \<le> udp_limit q
          then [0, 0, 0, 0, 0, 1] @ take (e - 12) (drop 12 q) @ [0, 0, 41, 4, 208, 0, 0, 0, 0, 0, 0]
          else [0, 0, 0, 0, 0, 0] @ take (e - 12) (drop 12 q)) \<and>
       length r \<le> max (udp_limit q) e)"
proof -
  have e: "17 \<le> e" "e \<le> length q" using qend_bounds [OF assms] by simp_all
  have limit: "512 \<le> udp_limit q" using udp_limit_bounds [of q] by simp
  show ?thesis
  proof (cases "length response \<le> udp_limit q")
    case True
    then show ?thesis by (simp add: maybe_truncate_udp_eq)
  next
    case False
    then have "4 \<le> length response" using limit by linarith
    then obtain r0 r1 r2 r3 rest where r: "response = r0 # r1 # r2 # r3 # rest"
      by (auto simp: numeral_eq_Suc Suc_le_length_iff)
    have "length (take 2 (drop 4 q)) = 2" using e by simp
    then obtain d0 d1 where d: "take 2 (drop 4 q) = [d0, d1]"
      by (metis length_2_exD)
    have body: "length (qsection_of q) = e - 12" by (rule qsection_length [OF assms])
    have sec: "qsection_of q = take (e - 12) (drop 12 q)" by (simp add: qsection_of_def assms)
    have room: "length (qsection_of q) + 23 \<le> udp_limit q \<longleftrightarrow> e + 11 \<le> udp_limit q"
      using body e by arith
    have "be16 0 = [0, 0]" by code_simp
    then have opt: "opt_part q False = (if has_opt q then [0, 0, 41, 4, 208, 0, 0, 0, 0, 0, 0] else [])"
      by (simp add: opt_part_def opt_wire_def)
    let ?t = "truncated response q"
    have t: "?t = [r0, r1, r2 OR 2, r3, d0, d1] @
        (if has_opt q \<and> e + 11 \<le> udp_limit q
         then [0, 0, 0, 0, 0, 1] @ take (e - 12) (drop 12 q) @ [0, 0, 41, 4, 208, 0, 0, 0, 0, 0, 0]
         else [0, 0, 0, 0, 0, 0] @ take (e - 12) (drop 12 q))"
      unfolding truncated_def room opt by (simp add: r d get0_def sec)
    have "length (take (e - 12) (drop 12 q)) = e - 12" using e by simp
    then have "length ?t = (if has_opt q \<and> e + 11 \<le> udp_limit q then 23 else 12) + (e - 12)"
      unfolding t by simp
    then have "length ?t = (if has_opt q \<and> e + 11 \<le> udp_limit q then e + 11 else e)"
      using e by (auto split: if_splits)
    then have "length ?t \<le> max (udp_limit q) e" by auto
    moreover have "flags_of ?t = (flags_of response)\<lparr>fl_tc := True\<rparr>"
      unfolding t flags_of_def by (simp add: r read_flags_tc)
    moreover have "maybe_truncate_udp response q = ret ?t"
      using False assms by (simp add: maybe_truncate_udp_eq)
    moreover have "take 2 ?t = take 2 response" and "take 2 (drop 4 ?t) = take 2 (drop 4 q)"
      unfolding t by (simp_all add: r d)
    moreover have "drop 6 ?t =
         (if has_opt q \<and> e + 11 \<le> udp_limit q
          then [0, 0, 0, 0, 0, 1] @ take (e - 12) (drop 12 q) @ [0, 0, 41, 4, 208, 0, 0, 0, 0, 0, 0]
          else [0, 0, 0, 0, 0, 0] @ take (e - 12) (drop 12 q))"
      by (simp add: t)
    ultimately show ?thesis using False by blast
  qed
qed

theorem maybe_truncate_udp_fits_witness:
  "let q = question [0, 7, 1, 0, 0, 1, 0, 0, 0, 0, 0, 0] [lit ''nip'', lit ''nu''] 255 1 []
   in \<exists>r. maybe_truncate_udp ([0, 7, 0x85, 0] @ replicate 600 1) q = ret r \<and>
        take 2 r = [0, 7] \<and>
        flags_of r = \<lparr> fl_qr = True, fl_opcode = 0, fl_aa = True, fl_tc = True, fl_rd = True,
                       fl_ra = False, fl_z = 0, fl_rcode = 0 \<rparr> \<and>
        take 2 (drop 4 r) = [0, 1] \<and>
        drop 6 r = [0, 0, 0, 0, 0, 0, 3, 110, 105, 112, 2, 110, 117, 0, 0, 255, 0, 1]"
proof -
  let ?q = "question [0, 7, 1, 0, 0, 1, 0, 0, 0, 0, 0, 0] [lit ''nip'', lit ''nu''] 255 1 []"
  let ?r = "[0, 7, 0x85, 0] @ replicate 600 1 :: bytes"
  have e: "qend ?q = Some 24" and l: "udp_limit ?q = 512" and o: "\<not> has_opt ?q"
    and c: "take 2 (drop 4 ?q) = [0, 1]"
    and s: "take 12 (drop 12 ?q) = [3, 110, 105, 112, 2, 110, 117, 0, 0, 255, 0, 1]"
    by code_simp+
  have f: "flags_of ?r = \<lparr> fl_qr = True, fl_opcode = 0, fl_aa = True, fl_tc = False, fl_rd = True,
      fl_ra = False, fl_z = 0, fl_rcode = 0 \<rparr>" by code_simp
  show ?thesis
    using maybe_truncate_udp_fits [OF e, of ?r] unfolding f by (auto simp: l o c s)
qed

text \<open>
  C39: names are not limited to 255 bytes, so a question can be longer than the UDP limit; then
  the truncated reply still is as long as header and question, beyond the limit.
\<close>

theorem truncation_exceeds_limit:
  assumes "qend q = Some e" and "udp_limit q < e" and "udp_limit q < length response"
  shows "\<exists>r. maybe_truncate_udp response q = ret r \<and> length r = e \<and> udp_limit q < length r"
proof -
  have e: "17 \<le> e" "e \<le> length q" using qend_bounds [OF assms(1)] by simp_all
  have "4 \<le> length response" using assms(3) udp_limit_bounds [of q] by linarith
  moreover have "length (qsection_of q) = e - 12" by (rule qsection_length [OF assms(1)])
  moreover have "\<not> e - 12 + 23 \<le> udp_limit q" using assms(2) e by arith
  ultimately have "length (truncated response q) = e"
    using e by (simp add: truncated_def)
  with assms show ?thesis by (simp add: maybe_truncate_udp_eq)
qed

theorem truncation_exceeds_limit_witness:
  "let q = question [0, 7, 1, 0, 0, 1, 0, 0, 0, 0, 0, 0] (replicate 9 (replicate 63 97)) 1 1 [] in
   \<exists>r. maybe_truncate_udp (replicate 700 0) q = ret r \<and> length r = 593 \<and> udp_limit q = 512"
proof -
  let ?q = "question [0, 7, 1, 0, 0, 1, 0, 0, 0, 0, 0, 0] (replicate 9 (replicate 63 97)) 1 1 []"
  have "qlabels_ok (replicate 9 (replicate 63 97))" by (simp add: qlabels_ok_def label_ok_def)
  then have e: "qend ?q = Some 593"
    by (subst qend_question) (simp_all add: enc_labels_def enc_label_def length_concat sum_list_replicate)
  have l: "udp_limit ?q = 512"
    by (simp add: udp_limit_def opt_of_def question_def enc_labels_def of_be16_def)
  show ?thesis
    using truncation_exceeds_limit [OF e, of "replicate 700 0"] by (auto simp: Let_def l)
qed

section \<open>Signed sections\<close>

lemma runs_hd_typ: "g \<in> set (runs rrs) \<Longrightarrow> hd g \<in> set rrs"
proof -
  assume g: "g \<in> set (runs rrs)"
  then have "g \<noteq> []" using runs_uniform by (auto simp: uniform_def)
  then have "hd g \<in> set g" by simp
  with g have "hd g \<in> set (concat (runs rrs))" unfolding set_concat by blast
  then show ?thesis unfolding concat_runs .
qed

lemma signed_runs_unsigned:
  assumes "\<not> sign p"
  shows "signed_runs cr clk n q p gs = (concat (map sorted_run gs), n)"
proof -
  have "signing_key p t = None" for t using assms by (auto simp: signing_key_def sign_def)
  then show ?thesis by (induction gs) (simp_all add: signed_run_def next_reading_def)
qed

lemma signed_runs_signed:
  assumes "zp_dnssec p = Some key" and "zp_do_bit p" and "\<forall>g \<in> set gs. rr_typ (hd g) \<noteq> TYPE_RRSIG"
  shows "signed_runs cr clk n q p gs =
    (concat (map (\<lambda>(i, g). sorted_run g @ [rrsig_of cr clk i q p key g]) (enumerate n gs)),
     n + length gs)"
  using assms(3)
  by (induction gs arbitrary: n) (simp_all add: signed_run_def next_reading_def signing_key_def assms(1,2))

text \<open>
  Asked without the DO bit, or without a key, a section is the given records, each run of one
  owner and type in the order of its data; nothing is added and nothing is lost.
\<close>

theorem unsigned_section:
  assumes "\<not> sign p" and "length pre = off" and "qend q \<noteq> None"
  shows "\<exists>out. emit_section cr clk off rrs q p (pre @ be16 c @ post, n) =
      ret (pre @ be16 (sat_plus c (length rrs)) @ post @ wires out, n) \<and>
    out = concat (map sorted_run (runs rrs)) \<and>
    length out = length rrs \<and> mset (map rr_rdata out) = mset (map rr_rdata rrs)"
proof -
  have len: "length (concat (map sorted_run (runs rrs))) = length rrs"
  proof -
    have "length (concat (map sorted_run gs)) = length (concat gs)" for gs
      by (induction gs) simp_all
    then show ?thesis by (metis concat_runs)
  qed
  have "mset (map rr_rdata (concat (map sorted_run gs))) = mset (map rr_rdata (concat gs))" for gs
    by (induction gs) (simp_all add: sorted_run_def o_def)
  then have "mset (map rr_rdata (concat (map sorted_run (runs rrs)))) = mset (map rr_rdata rrs)"
    by (metis concat_runs)
  with len show ?thesis
    by (simp add: emit_section_eq [OF assms(3,2)] signed_runs_unsigned [OF assms(1)])
qed

theorem unsigned_section_witness:
  "let rrs = [txt_rr [65], txt_rr []]; pre = [0, 7, 133, 0, 0, 1];
       q = question [0, 7, 1, 0, 0, 1, 0, 0, 0, 0, 0, 0] [[97]] 16 1 [] in
   \<exists>out. emit_section toy_crypto (\<lambda>_. None) 6 rrs q (toy_params\<lparr>zp_do_bit := False\<rparr>)
      (pre @ be16 0 @ [0, 0, 0, 0], 0) =
      ret (pre @ be16 (sat_plus 0 (length rrs)) @ [0, 0, 0, 0] @ wires out, 0) \<and>
    out = [txt_rr [], txt_rr [65]]"
proof -
  let ?q = "question [0, 7, 1, 0, 0, 1, 0, 0, 0, 0, 0, 0] [[97]] 16 1 []"
  have q: "qend ?q \<noteq> None" by code_simp
  have ns: "\<not> sign (toy_params\<lparr>zp_do_bit := False\<rparr>)" by (simp add: sign_def)
  have six: "length [0, 7, 133, 0, 0, 1 :: byte] = 6" by simp
  have out: "concat (map sorted_run (runs [txt_rr [65], txt_rr []])) = [txt_rr [], txt_rr [65]]"
    by code_simp
  show ?thesis
    using unsigned_section [OF ns six q, of toy_crypto "\<lambda>_. None" "[txt_rr [65], txt_rr []]" 0
        "[0, 0, 0, 0]" 0]
    unfolding Let_def out by blast
qed

text \<open>
  Asked with the DO bit in a zone with a key, every run of a section is followed by one RRSIG
  of the same owner and TTL that covers its type, with a signature that verifies under the DNSKEY
  record over the run as written: its data in ascending order, at the canonical owner.
\<close>

theorem signed_section:
  assumes "zp_dnssec p = Some key" and "zp_do_bit p" and "key_wf cr key"
    and "\<And>k m. verify (cr_point cr k) m (cr_sign cr k m)"
    and "\<forall>r \<in> set rrs. rr_typ r \<noteq> TYPE_RRSIG" and "length pre = off" and "qend q \<noteq> None"
  shows "\<exists>sigs. emit_section cr clk off rrs q p (pre @ be16 c @ post, n) =
      ret (pre @ be16 (sat_plus c (length rrs + length (runs rrs))) @ post @
             wires (concat (map2 (\<lambda>g s. sorted_run g @ [s]) (runs rrs) sigs)), n + length (runs rrs)) \<and>
    list_all2 (\<lambda>g s. rr_owner s = rr_owner (hd g) \<and> rr_typ s = TYPE_RRSIG \<and> rr_ttl s = rr_ttl (hd g) \<and>
      (\<exists>prefix sig i. rr_rdata s = prefix @ sig \<and>
         prefix = rrsig_prefix clk i key (canonical_owner q (rr_owner (hd g))) (rr_typ (hd g))
           (rr_ttl (hd g)) (zp_zone p) \<and>
         verify (4 # drop 4 (dk_dnskey_rdata key)) (prefix @ concat (map
           (signed_rr (canonical_owner q (rr_owner (hd g))) (rr_typ (hd g)) (rr_ttl (hd g)))
           (sort (map rr_rdata g)))) sig)) (runs rrs) sigs"
proof -
  let ?sigs = "map (\<lambda>(i, g). rrsig_of cr clk i q p key g) (enumerate n (runs rrs))"
  let ?out = "concat (map2 (\<lambda>g s. sorted_run g @ [s]) (runs rrs) ?sigs)"
  have "\<forall>g \<in> set (runs rrs). rr_typ (hd g) \<noteq> TYPE_RRSIG"
    using assms(5) runs_hd_typ by blast
  then have "signed_runs cr clk n q p (runs rrs) =
      (concat (map (\<lambda>(i, g). sorted_run g @ [rrsig_of cr clk i q p key g]) (enumerate n (runs rrs))),
       n + length (runs rrs))"
    by (rule signed_runs_signed [OF assms(1,2)])
  moreover have "map (\<lambda>(i, g). sorted_run g @ [rrsig_of cr clk i q p key g]) (enumerate m gs) =
      map2 (\<lambda>g s. sorted_run g @ [s]) gs (map (\<lambda>(i, g). rrsig_of cr clk i q p key g) (enumerate m gs))"
    for m gs
    by (induction gs arbitrary: m) simp_all
  moreover have "length (concat (map2 (\<lambda>g s. sorted_run g @ [s]) gs
      (map (\<lambda>(i, g). rrsig_of cr clk i q p key g) (enumerate m gs)))) = length (concat gs) + length gs"
    for m gs
    by (induction gs arbitrary: m) simp_all
  ultimately have eq: "emit_section cr clk off rrs q p (pre @ be16 c @ post, n) =
      ret (pre @ be16 (sat_plus c (length rrs + length (runs rrs))) @ post @ wires ?out,
           n + length (runs rrs))"
    by (simp add: emit_section_eq [OF assms(7,6)])
  have all: "list_all2 P gs (map (\<lambda>(i, g). f i g) (enumerate m gs))"
    if "\<And>i g. P g (f i g)" for P f m and gs :: "rr list list"
    using that by (induction gs arbitrary: m) simp_all
  have point: "cr_point cr (dk_signing_key key) = 4 # drop 4 (dk_dnskey_rdata key)"
    using assms(3) by (simp add: key_wf_def)
  show ?thesis
    by (intro exI conjI, rule eq, rule all)
      (use assms(4) [of "dk_signing_key key"] in
        \<open>auto simp: rrsig_of_def sign_rrsig_eq Let_def point\<close>)
qed

theorem signed_section_witness:
  "let rrs = [txt_rr [65]]; pre = [0, 7, 133, 0, 0, 1];
       q = question [0, 7, 1, 0, 0, 1, 0, 0, 0, 0, 0, 0] [[97]] 16 1 [] in
   \<exists>sig. emit_section toy_crypto (\<lambda>_. Some 1700000000) 6 rrs q toy_params
      (pre @ be16 0 @ [0, 0, 0, 0], 0) =
     ret (pre @ be16 2 @ [0, 0, 0, 0] @ wires (rrs @ [sig]), 1) \<and> rr_typ sig = TYPE_RRSIG"
proof -
  let ?q = "question [0, 7, 1, 0, 0, 1, 0, 0, 0, 0, 0, 0] [[97]] 16 1 []"
  have q: "qend ?q \<noteq> None" by code_simp
  have k: "zp_dnssec toy_params = Some toy_key" and d: "zp_do_bit toy_params"
    by (simp_all add: toy_params_def)
  have six: "length [0, 7, 133, 0, 0, 1 :: byte] = 6" by simp
  have t: "\<forall>r \<in> set [txt_rr [65]]. rr_typ r \<noteq> TYPE_RRSIG"
    by (simp add: txt_rr_def question_rr_def)
  have r: "runs [txt_rr [65]] = [[txt_rr [65]]]" by code_simp
  have s: "sorted_run [txt_rr [65]] = [txt_rr [65]]" by code_simp
  have c: "sat_plus 0 (length [txt_rr [65]] + length [[txt_rr [65]]]) = 2" by code_simp
  show ?thesis
    using signed_section [where verify = toy_verify, OF k d toy_key_wf toy_verify_sign t six q,
        of "\<lambda>_. Some 1700000000" 0 "[0, 0, 0, 0]" 0]
    unfolding Let_def r c by (auto simp: list_all2_Cons1 s)
qed

end
