(* ===== verification/Message.thy ===== *)
theory Message
  imports Response
begin

text \<open>
  A reader of DNS messages, and what it reads in the replies of \<open>src/dns/response.rs\<close>: the
  header fields, the question, and record by record the sections that were built, with the
  counts of the header equal to the numbers of records.
\<close>

section \<open>Reading records\<close>

text \<open>
  A record as a resolver sees it; its owner is a list of labels, or \<open>None\<close> for the compression
  pointer to offset 12, where the name of the question stands.
\<close>

record wire_rr =
  wr_owner :: "rstr list option"
  wr_typ :: u16
  wr_class :: u16
  wr_ttl :: u32
  wr_rdata :: bytes

definition dec_owner :: "bytes \<Rightarrow> (rstr list option \<times> bytes) option" where
  "dec_owner bs =
     (case bs of
        a # b # rest \<Rightarrow>
          if a = 0xC0 \<and> b = 0x0C then Some (None, rest)
          else if 0xC0 \<le> a then None
          else map_option (\<lambda>(ls, r). (Some ls, r)) (wire_labels bs)
      | _ \<Rightarrow> map_option (\<lambda>(ls, r). (Some ls, r)) (wire_labels bs))"

definition dec_rr :: "bytes \<Rightarrow> (wire_rr \<times> bytes) option" where
  "dec_rr bs = do {
     (owner, bs) \<leftarrow> dec_owner bs;
     (typ, bs) \<leftarrow> dec16 bs;
     (cls, bs) \<leftarrow> dec16 bs;
     (ttl, bs) \<leftarrow> dec32 bs;
     (len, bs) \<leftarrow> dec16 bs;
     (if length bs < unat len then None
      else Some (\<lparr> wr_owner = owner, wr_typ = typ, wr_class = cls, wr_ttl = ttl,
                   wr_rdata = take (unat len) bs \<rparr>, drop (unat len) bs))
   }"

definition enc_owner :: "rstr list option \<Rightarrow> bytes" where
  "enc_owner owner = (case owner of None \<Rightarrow> [0xC0, 0x0C] | Some ls \<Rightarrow> enc_labels ls)"

definition enc_rr :: "wire_rr \<Rightarrow> bytes" where
  "enc_rr r = enc_owner (wr_owner r) @ be16 (wr_typ r) @ be16 (wr_class r) @ be32 (wr_ttl r) @
     be16 (of_nat (length (wr_rdata r))) @ wr_rdata r"

definition owner_ok :: "rstr list option \<Rightarrow> bool" where
  "owner_ok owner \<longleftrightarrow> (case owner of None \<Rightarrow> True | Some ls \<Rightarrow> \<forall>l \<in> set ls. label_ok l)"

definition wire_rr_ok :: "wire_rr \<Rightarrow> bool" where
  "wire_rr_ok r \<longleftrightarrow> owner_ok (wr_owner r) \<and> length (wr_rdata r) \<le> 65535"

lemma enc_labels_first:
  assumes "\<forall>l \<in> set ls. label_ok l"
  shows "\<exists>a bs. enc_labels ls = a # bs \<and> unat a \<le> 63"
proof (cases ls)
  case (Cons l ls')
  then have "label_ok l" using assms by simp
  then show ?thesis
    using label_ok_length [of l] Cons by (simp add: enc_labels_def enc_label_def label_ok_def)
qed (simp add: enc_labels_def)

interpretation owner: codec enc_owner dec_owner owner_ok
proof
  fix owner rest
  assume ok: "owner_ok owner"
  show "dec_owner (enc_owner owner @ rest) = Some (owner, rest)"
  proof (cases owner)
    case None
    then show ?thesis by (simp add: enc_owner_def dec_owner_def)
  next
    case (Some ls)
    with ok have ls: "\<forall>l \<in> set ls. label_ok l" by (simp add: owner_ok_def)
    then obtain a bs where a: "enc_labels ls = a # bs" "unat a \<le> 63"
      using enc_labels_first by blast
    then have small: "a \<noteq> 0xC0" "\<not> 0xC0 \<le> a" by (auto simp: word_order_nat)
    have "wire_labels (a # bs @ rest) = Some (ls, rest)"
      using wire_name.dec_enc [OF ls, of rest] a(1) by simp
    then show ?thesis
      using Some a(1) small by (auto simp: enc_owner_def dec_owner_def split: list.split)
  qed
qed

interpretation wire_rr: codec enc_rr dec_rr wire_rr_ok
proof
  fix r rest
  assume ok: "wire_rr_ok r"
  then have len: "unat (of_nat (length (wr_rdata r)) :: u16) = length (wr_rdata r)"
    by (simp add: wire_rr_ok_def unat_of_nat take_bit_nat_eq_self)
  have "dec_owner (enc_owner (wr_owner r) @ x) = Some (wr_owner r, x)" for x
    using ok by (intro owner.dec_enc) (simp add: wire_rr_ok_def)
  with len show "dec_rr (enc_rr r @ rest) = Some (r, rest)"
    by (simp add: dec_rr_def enc_rr_def)
qed

section \<open>The records of the builders, as read\<close>

definition view :: "rr \<Rightarrow> wire_rr" where
  "view r = \<lparr>
     wr_owner = (case rr_owner r of Question \<Rightarrow> None | Name n \<Rightarrow> Some (map to_lower (labels n))),
     wr_typ = rr_typ r, wr_class = CLASS_IN, wr_ttl = rr_ttl r, wr_rdata = rr_rdata r \<rparr>"

definition rr_ok :: "rr \<Rightarrow> bool" where
  "rr_ok r \<longleftrightarrow> (case rr_owner r of Question \<Rightarrow> True | Name n \<Rightarrow> name_ok n) \<and> length (rr_rdata r) \<le> 65535"

lemma rr_wire_view: "rr_wire r = enc_rr (view r)"
  by (auto simp: rr_wire_def write_rr_def enc_rr_def view_def enc_owner_def
      encode_domain_name_labels split: owner.split)

lemma view_ok: "rr_ok r \<Longrightarrow> wire_rr_ok (view r)"
  by (auto simp: rr_ok_def wire_rr_ok_def view_def owner_ok_def name_ok_def split: owner.splits)

lemma wires_decode:
  assumes "\<forall>r \<in> set rrs. rr_ok r"
  shows "decode_many dec_rr (length rrs) (wires rrs @ rest) = Some (map view rrs, rest)"
  using wire_rr.decode_many_concat [of "map view rrs" rest] assms
  by (simp add: wires_def view_ok o_def rr_wire_view [abs_def])

section \<open>Reading messages\<close>

record message =
  ms_id :: u16
  ms_flags :: u16
  ms_question :: "rstr list \<times> u16 \<times> u16"
  ms_answers :: "wire_rr list"
  ms_authority :: "wire_rr list"
  ms_additional :: "wire_rr list"

text \<open>A message with one question; it must be used up to its last byte.\<close>

definition read_message :: "bytes \<Rightarrow> message option" where
  "read_message bs = do {
     (ident, bs) \<leftarrow> dec16 bs;
     (flags, bs) \<leftarrow> dec16 bs;
     (qd, bs) \<leftarrow> dec16 bs;
     (an, bs) \<leftarrow> dec16 bs;
     (ns, bs) \<leftarrow> dec16 bs;
     (ar, bs) \<leftarrow> dec16 bs;
     (ls, bs) \<leftarrow> wire_labels bs;
     (qtype, bs) \<leftarrow> dec16 bs;
     (qclass, bs) \<leftarrow> dec16 bs;
     (ans, bs) \<leftarrow> decode_many dec_rr (unat an) bs;
     (auth, bs) \<leftarrow> decode_many dec_rr (unat ns) bs;
     (adds, bs) \<leftarrow> decode_many dec_rr (unat ar) bs;
     (if qd = 1 \<and> bs = []
      then Some \<lparr> ms_id = ident, ms_flags = flags, ms_question = (ls, qtype, qclass),
                  ms_answers = ans, ms_authority = auth, ms_additional = adds \<rparr>
      else None)
   }"

lemma read_message_question:
  assumes "read_message r = Some m" and "ms_question m = (ls, t, c)"
  shows "\<exists>rest. drop 12 r = enc_labels ls @ be16 t @ be16 c @ rest"
proof -
  from assms obtain b1 b2 b3 b4 b5 b6 b7 b8 b9 x1 x2 x3 x4 x5 x6 where
    "dec16 r = Some (x1, b1)" "dec16 b1 = Some (x2, b2)" "dec16 b2 = Some (x3, b3)"
    "dec16 b3 = Some (x4, b4)" "dec16 b4 = Some (x5, b5)" "dec16 b5 = Some (x6, b6)"
    and w: "wire_labels b6 = Some (ls, b7)" "dec16 b7 = Some (t, b8)" "dec16 b8 = Some (c, b9)"
    by (auto simp: read_message_def bind_eq_Some_conv split: if_splits)
  then have "b6 = drop 12 r" by (auto dest!: dec16_rest)
  with w show ?thesis by (auto dest!: wire_labels_enc dec16_enc)
qed

section \<open>Reading a reply\<close>

text \<open>The OPT record a reply carries.\<close>

definition opt_view :: "bool \<Rightarrow> wire_rr" where
  "opt_view d = \<lparr> wr_owner = Some [], wr_typ = TYPE_OPT, wr_class = EDNS_UDP_SIZE,
     wr_ttl = (if d then 0x8000 else 0), wr_rdata = [] \<rparr>"

lemma opt_wire_view: "opt_wire d = enc_rr (opt_view d)"
proof -
  have "opt_wire True = enc_rr (opt_view True)" and "opt_wire False = enc_rr (opt_view False)"
    by code_simp+
  then show ?thesis by (cases d) simp_all
qed

lemma opt_view_ok: "wire_rr_ok (opt_view d)"
  by (simp add: opt_view_def wire_rr_ok_def owner_ok_def)

text \<open>A query with one question.\<close>

definition query_hdr :: "bytes \<Rightarrow> bool" where
  "query_hdr hdr \<longleftrightarrow> length hdr = 12 \<and> take 2 (drop 4 hdr) = [0, 1]"

lemma qsection_of_question:
  assumes "length hdr = 12" and "qlabels_ok ls"
  shows "qsection_of (question hdr ls qtype qclass rest) = enc_labels ls @ be16 qtype @ be16 qclass"
proof -
  have "16 + length (enc_labels ls) - 12 = length (enc_labels ls @ be16 qtype @ be16 qclass)" by simp
  moreover have "drop 12 (question hdr ls qtype qclass rest) =
      (enc_labels ls @ be16 qtype @ be16 qclass) @ rest"
    using assms(1) by (simp add: question_def)
  ultimately show ?thesis
    using split_at [OF refl, of "enc_labels ls @ be16 qtype @ be16 qclass" rest]
    by (simp only: qsection_of_def qend_question [OF assms] option.case)
qed

lemma qname_of_question:
  assumes "length hdr = 12" and "qlabels_ok ls"
  shows "qname_of (question hdr ls qtype qclass rest) = enc_labels ls"
  using assms by (simp add: qname_of_def qend_question question_name)

lemma dec16_pair: "length xs = 2 \<Longrightarrow> dec16 (xs @ rest) = Some (of_be16 (xs ! 0) (xs ! 1), rest)"
  using length_2_exD by fastforce

definition reply_message :: "bytes \<Rightarrow> bytes \<Rightarrow> bool \<Rightarrow> rstr list \<Rightarrow> u16 \<Rightarrow> u16 \<Rightarrow>
    rr list \<times> rr list \<times> rr list \<Rightarrow> message" where
  "reply_message flags q d ls qtype qclass sections = \<lparr>
     ms_id = of_be16 (q ! 0) (q ! 1), ms_flags = of_be16 (flags ! 0) (flags ! 1),
     ms_question = (ls, qtype, qclass),
     ms_answers = map view (fst sections), ms_authority = map view (fst (snd sections)),
     ms_additional = map view (snd (snd sections)) @ (if has_opt q then [opt_view d] else []) \<rparr>"

lemma read_reply:
  assumes "query_hdr hdr" and "qlabels_ok ls" and q: "q = question hdr ls qtype qclass rest"
    and "length flags = 2" and "\<forall>r \<in> set (an @ ns @ ar). rr_ok r"
    and "length an \<le> 65535" and "length ns \<le> 65535" and "length ar < 65535"
  shows "read_message (reply flags q d an ns ar) =
    Some (reply_message flags q d ls qtype qclass (an, ns, ar))"
proof -
  have hdr: "length hdr = 12" "take 2 (drop 4 hdr) = [0, 1]" using assms(1) by (simp_all add: query_hdr_def)
  have ident: "length (take 2 q) = 2" "take 2 q ! 0 = q ! 0" "take 2 q ! 1 = q ! 1"
    and qd: "take 2 (drop 4 q) = [0, 1]"
    using hdr by (simp_all add: q question_def nth_append)
  have one: "of_be16 0 1 = 1" by code_simp
  have ok: "\<forall>r \<in> set an. rr_ok r" "\<forall>r \<in> set ns. rr_ok r" "\<forall>r \<in> set ar. rr_ok r"
    using assms(5) by auto
  have name: "wire_labels (enc_labels ls @ x) = Some (ls, x)" for x
    using assms(2) by (intro wire_name.dec_enc) (simp add: qlabels_ok_def)
  have "decode_many dec_rr (length (map view ar @ (if has_opt q then [opt_view d] else [])))
      (concat (map enc_rr (map view ar @ (if has_opt q then [opt_view d] else []))) @ []) =
      Some (map view ar @ (if has_opt q then [opt_view d] else []), [])"
    using ok(3) by (intro wire_rr.decode_many_concat)
      (auto simp: view_ok opt_view_ok)
  moreover have "concat (map enc_rr (map view ar @ (if has_opt q then [opt_view d] else []))) =
      wires ar @ opt_part q d"
    by (simp add: wires_def opt_part_def opt_wire_view rr_wire_view [abs_def] o_def)
  ultimately have adds: "decode_many dec_rr (length ar + (if has_opt q then 1 else 0))
      (wires ar @ opt_part q d) =
      Some (map view ar @ (if has_opt q then [opt_view d] else []), [])"
    by (cases "has_opt q") simp_all
  have counts: "unat (rr_count (length an)) = length an" "unat (rr_count (length ns)) = length ns"
    "unat (rr_count (length ar + (if has_opt q then 1 else 0))) = length ar + (if has_opt q then 1 else 0)"
    using assms(6-8) by simp_all
  show ?thesis
    using qsection_of_question [OF hdr(1) assms(2), of qtype qclass rest, folded q]
    unfolding reply_def read_message_def reply_message_def
    by (simp add: dec16_pair [OF ident(1)] dec16_pair [OF assms(4)] ident(2,3) qd one name
        wires_decode [OF ok(1)] wires_decode [OF ok(2)] adds counts del: unat_count)
qed

section \<open>Sizes\<close>

text \<open>
  Parameters whose records fit their 16-bit length fields: names of at most 253 bytes with labels
  of at most 63, at most 1000 name servers, and the output lengths of SHA-256 and of P-256
  signatures.
\<close>

definition short_name :: "rstr \<Rightarrow> bool" where
  "short_name n \<longleftrightarrow> name_ok n \<and> length n \<le> 253"

definition params_fit :: "'k crypto \<Rightarrow> 'k zone_params \<Rightarrow> bool" where
  "params_fit cr p \<longleftrightarrow>
     short_name (zp_zone p) \<and> short_name (zp_ns_name p) \<and> short_name (zp_hostmaster p) \<and>
     list_all short_name (zp_ns_names p) \<and> length (zp_ns_names p) \<le> 1000 \<and>
     (case zp_dnssec p of None \<Rightarrow> True | Some key \<Rightarrow> length (dk_dnskey_rdata key) = 68) \<and>
     (\<forall>m. length (cr_sha256 cr m) = 32) \<and> (\<forall>k m. length (cr_sign cr k m) \<le> 64)"

lemma length_split_on: "sum_list (map length (split_on c s)) + length (split_on c s) = Suc (length s)"
  by (induction s) (auto split: list.splits)

lemma length_encode_domain_name: "length (encode_domain_name n) \<le> length n + 2"
proof (cases "trim_end DOT n = []")
  case False
  have "length (trim_end DOT n) \<le> length n"
    using trim_end_prefix [of n DOT] by (metis le_add1 length_append)
  moreover have "length (concat (map (\<lambda>p. of_nat (length p) # to_lower p) ps)) =
      sum_list (map length ps) + length ps" for ps
    by (induction ps) simp_all
  ultimately show ?thesis
    using False length_split_on [of DOT "trim_end DOT n"] by (simp add: encode_domain_name_def Let_def)
qed (simp add: encode_domain_name_def)

lemma short_encoding: "short_name n \<Longrightarrow> length (encode_domain_name n) \<le> 255"
  using length_encode_domain_name [of n] by (simp add: short_name_def)

text \<open>A bitmap takes at most 34 bytes per type.\<close>

lemma flush_window_length: "flush_window out w bits m = ret out' \<Longrightarrow> length out' \<le> length out + length bits + 2"
  by (auto simp: flush_window_def subslice_def Let_def split: if_splits)

lemma bitmap_fold_length:
  "fold_exec bitmap_step (out, w, bits, m) ts = ret (out', w', bits', m') \<Longrightarrow> length bits = 32 \<Longrightarrow>
     length bits' = 32 \<and> length out' \<le> length out + 34 * length ts"
proof (induction ts arbitrary: out w bits m)
  case (Cons t ts)
  then obtain out1 w1 bits1 m1 where
    step: "bitmap_step (out, w, bits, m) t = ret (out1, w1, bits1, m1)" and
    rest: "fold_exec bitmap_step (out1, w1, bits1, m1) ts = ret (out', w', bits', m')"
    by (auto split: Option.bind_splits)
  from step Cons.prems(2) have "length bits1 = 32 \<and> length out1 \<le> length out + 34"
    by (auto simp: bitmap_step_def Let_def upd_def dest!: flush_window_length
        split: option.splits if_splits Option.bind_splits)
  with Cons.IH [OF rest] show ?case by auto
qed simp

lemma type_bitmap_length: "type_bitmap types = ret out \<Longrightarrow> length out \<le> 34 * length types + 34"
proof (cases "types = []")
  case False
  assume r: "type_bitmap types = ret out"
  let ?ts = "remdups_adj (sort types)"
  have "?ts \<noteq> []" using False by (metis remdups_adj_Nil_iff set_empty set_sort)
  with r obtain out1 w bits m where
    f: "fold_exec bitmap_step ([], None, replicate 32 0, 0) ?ts = ret (out1, w, bits, m)" and
    e: "(case w of Some w \<Rightarrow> flush_window out1 w bits m | None \<Rightarrow> ret out1) = ret out"
    by (auto simp: type_bitmap_def Let_def split: Option.bind_splits)
  have "length bits = 32" "length out1 \<le> 34 * length ?ts"
    using bitmap_fold_length [OF f] by simp_all
  moreover have "length ?ts \<le> length types" by (metis length_sort remdups_adj_length)
  ultimately show ?thesis
    using e by (auto dest!: flush_window_length split: option.splits)
qed (auto simp: type_bitmap_def)

lemma nsec_data_length: "length (nsec_data qname types) \<le> length qname + 34 * length types + 104"
proof -
  obtain out where out: "type_bitmap (nsec_types types) = ret out" using type_bitmap_ret by blast
  have "length (nsec_types types) \<le> length types + 2"
    unfolding nsec_types_def by (rule order_trans [OF remdups_adj_length]) simp
  with type_bitmap_length [OF out] have "length out \<le> 34 * length types + 102" by simp
  then show ?thesis
    by (simp add: nsec_data_def nsec_rdata_def lowercase_wire_name_eq out)
qed

section \<open>Every record of a reply is readable\<close>

definition rrs_ok :: "rr list \<Rightarrow> bool" where
  "rrs_ok rrs \<longleftrightarrow> list_all rr_ok rrs"

lemma rrs_ok_simps [simp]: "rrs_ok []" "rrs_ok (r # rs) \<longleftrightarrow> rr_ok r \<and> rrs_ok rs"
  "rrs_ok (rs @ ss) \<longleftrightarrow> rrs_ok rs \<and> rrs_ok ss" "rrs_ok (concat rss) \<longleftrightarrow> (\<forall>rs \<in> set rss. rrs_ok rs)"
  by (auto simp: rrs_ok_def list_all_iff)

lemma sign_rrsig_length:
  assumes "params_fit cr p"
  shows "length (sign_rrsig cr clk n key owner typ ttl ds (zp_zone p)) \<le> 400"
proof -
  have "length (encode_domain_name (zp_zone p)) \<le> 255"
    using assms short_encoding by (simp add: params_fit_def)
  moreover have "length (cr_sign cr k m) \<le> 64" for k m
    using assms by (simp add: params_fit_def)
  ultimately have "length (encode_domain_name (zp_zone p)) + length (cr_sign cr k m) \<le> 382" for k m
    by (rule order_trans [OF add_mono]) simp
  then show ?thesis by (simp add: sign_rrsig_eq rrsig_prefix_def Let_def)
qed

lemma sorted_run_ok: "g \<noteq> [] \<Longrightarrow> rrs_ok g \<Longrightarrow> rrs_ok (sorted_run g)"
  using hd_in_set [of g] by (fastforce simp: rrs_ok_def list_all_iff sorted_run_def rr_ok_def)

lemma signed_run_ok:
  assumes "params_fit cr p" and "g \<noteq> []" and "rrs_ok g"
  shows "rrs_ok (signed_run cr clk n q p g) \<and> length (signed_run cr clk n q p g) \<le> Suc (length g)"
proof -
  have "rr_ok (rrsig_of cr clk n q p key g)" for key
    using assms(2,3) sign_rrsig_length [OF assms(1)]
    by (cases g) (auto simp: rr_ok_def rrsig_of_def order_trans [OF sign_rrsig_length [OF assms(1)]])
  then show ?thesis
    using sorted_run_ok [OF assms(2,3)] by (auto simp: signed_run_def split: option.split)
qed

lemma signed_runs_ok:
  assumes "params_fit cr p"
  shows "[] \<notin> set gs \<Longrightarrow> \<forall>g \<in> set gs. rrs_ok g \<Longrightarrow> signed_runs cr clk n q p gs = (rs, n') \<Longrightarrow>
    rrs_ok rs \<and> length rs \<le> 2 * length (concat gs)"
proof (induction gs arbitrary: n rs n')
  case (Cons g gs)
  obtain rs' n1 where rest: "signed_runs cr clk (next_reading p n g) q p gs = (rs', n1)" by fastforce
  have g: "g \<noteq> []" "rrs_ok g" using Cons.prems by auto
  have "rrs_ok rs' \<and> length rs' \<le> 2 * length (concat gs)"
    using Cons.IH [OF _ _ rest] Cons.prems by auto
  moreover have "1 \<le> length g" using g(1) by (cases g) simp_all
  ultimately show ?case
    using signed_run_ok [OF assms g, of clk n q] Cons.prems(3) rest by auto
qed simp

lemma section_ok:
  assumes "params_fit cr p" and "rrs_ok rrs" and "signed_runs cr clk n q p (runs rrs) = (rs, n')"
  shows "rrs_ok rs \<and> length rs \<le> 2 * length rrs"
proof -
  have "\<forall>g \<in> set (runs rrs). rrs_ok g"
    using assms(2) rrs_ok_simps(4) [of "runs rrs"] by (simp only: concat_runs)
  from signed_runs_ok [OF assms(1) runs_nonempty this assms(3)] show ?thesis by simp
qed

definition content_ok :: "rr list \<times> rr list \<times> rr list \<Rightarrow> bool" where
  "content_ok sections \<longleftrightarrow> (case sections of (an, ns, ar) \<Rightarrow>
     rrs_ok an \<and> rrs_ok ns \<and> rrs_ok ar \<and>
     length an \<le> 30000 \<and> length ns \<le> 30000 \<and> length ar \<le> 30000)"

lemma content_ok_simp [simp]:
  "content_ok (an, ns, ar) \<longleftrightarrow> rrs_ok an \<and> rrs_ok ns \<and> rrs_ok ar \<and>
     length an \<le> 30000 \<and> length ns \<le> 30000 \<and> length ar \<le> 30000"
  by (simp add: content_ok_def)

lemma read_answer:
  assumes "query_hdr hdr" and "qlabels_ok ls" and q: "q = question hdr ls qtype qclass rest"
    and "params_fit cr p" and "content_ok sections"
  shows "read_message (answer cr clk q p sections) =
    Some (reply_message (response_flags q True RCODE_NOERROR) q (sign p) ls qtype qclass
      (signed_sections cr clk q p sections))"
proof -
  obtain an ns ar where s: "sections = (an, ns, ar)" by (cases sections)
  obtain an' n1 where an: "signed_runs cr clk 0 q p (runs an) = (an', n1)" by fastforce
  obtain ns' n2 where ns: "signed_runs cr clk n1 q p (runs ns) = (ns', n2)" by fastforce
  obtain ar' n3 where ar: "signed_runs cr clk n2 q p (runs ar) = (ar', n3)" by fastforce
  have ok: "rrs_ok an' \<and> length an' \<le> 60000" "rrs_ok ns' \<and> length ns' \<le> 60000"
    "rrs_ok ar' \<and> length ar' \<le> 60000"
    using section_ok [OF assms(4) _ an] section_ok [OF assms(4) _ ns] section_ok [OF assms(4) _ ar]
      assms(5) by (auto simp: content_ok_def s)
  have "qend q \<noteq> None" using qend_question [OF _ assms(2)] assms(1) by (simp add: q query_hdr_def)
  then have a: "answer cr clk q p sections =
      reply (response_flags q True RCODE_NOERROR) q (sign p) an' ns' ar'"
    by (auto simp: answer_def signed_sections_def s an ns ar)
  show ?thesis
    unfolding a using ok
    by (subst read_reply [OF assms(1-3)])
      (auto simp: rrs_ok_def list_all_iff signed_sections_def s an ns ar)
qed

text \<open>The records of each builder.\<close>

lemma length_octets [simp]: "length (octets4 a) = 4" "length (octets6 b) = 16"
  by (cases a, simp) (cases b, simp add: octets6_def)

lemma rr_ok_question [simp]: "rr_ok (question_rr typ ttl d) \<longleftrightarrow> length d \<le> 65535"
  by (simp add: rr_ok_def question_rr_def)

lemma rr_ok_address [simp]:
  "rr_ok (a_rr Question ip)" "rr_ok (aaaa_rr Question ip6)"
  "rr_ok (a_rr (Name n) ip) \<longleftrightarrow> name_ok n" "rr_ok (aaaa_rr (Name n) ip6) \<longleftrightarrow> name_ok n"
  by (simp_all add: rr_ok_def a_rr_def aaaa_rr_def)

lemma rr_ok_txt [simp]: "rr_ok (txt_rr t)"
  by (simp add: txt_rr_def)

lemma soa_length:
  assumes "params_fit cr p"
  shows "length (rr_rdata (soa_rr owner p)) \<le> 65535"
proof -
  have "length (encode_domain_name (zp_ns_name p)) \<le> 255" "length (encode_domain_name (zp_hostmaster p)) \<le> 255"
    using assms short_encoding by (simp_all add: params_fit_def)
  then show ?thesis by (simp add: soa_rr_def)
qed

lemma rr_ok_soa:
  assumes "params_fit cr p"
  shows "rr_ok (soa_rr Question p)" and "rr_ok (soa_rr (Name (zp_zone p)) p)"
proof -
  have "rr_owner (soa_rr owner p) = owner" for owner by (simp add: soa_rr_def)
  moreover have "name_ok (zp_zone p)" using assms by (simp add: params_fit_def short_name_def)
  ultimately show "rr_ok (soa_rr Question p)" and "rr_ok (soa_rr (Name (zp_zone p)) p)"
    using soa_length [OF assms] by (simp_all add: rr_ok_def)
qed

lemma ns_rrs_ok:
  assumes "params_fit cr p"
  shows "rrs_ok (ns_rrs p) \<and> length (ns_rrs p) \<le> 1000"
proof -
  have "length (encode_domain_name n) \<le> 65535" if "n \<in> set (zp_ns_names p)" for n
    using assms that short_encoding [of n] by (simp add: params_fit_def list_all_iff)
  then show ?thesis using assms by (auto simp: rrs_ok_def list_all_iff ns_rrs_def params_fit_def)
qed

lemma glue_rrs_ok:
  assumes "params_fit cr p"
  shows "rrs_ok (glue_rrs p) \<and> length (glue_rrs p) \<le> 2000"
proof -
  have ok: "rrs_ok (glue_of p n)" if "n \<in> set (zp_ns_names p)" for n
    using assms that
    by (simp add: params_fit_def list_all_iff short_name_def glue_of_def split: option.split)
  have "length (glue_of p n) \<le> 2" for n by (simp add: glue_of_def split: option.split)
  then have "length (concat (map (glue_of p) ns)) \<le> 2 * length ns" for ns
    by (induction ns) (simp_all add: add_mono [of _ 2, THEN order_trans])
  then have "length (glue_rrs p) \<le> 2 * length (zp_ns_names p)" by (simp add: glue_rrs_def)
  with ok assms show ?thesis by (auto simp: glue_rrs_def params_fit_def)
qed

lemma dnssec_rrs_ok:
  assumes "params_fit cr p" and "zp_dnssec p = Some key"
  shows "rr_ok (dnskey_rr key)" and "rr_ok (cds_rr cr p key)" and "rr_ok (cdnskey_rr key)"
  using assms by (simp_all add: params_fit_def dnskey_rr_def cds_rr_def cdnskey_rr_def ds_rdata_def Let_def)

lemma nsec_rr_ok:
  assumes "length q \<le> 60000" and "length types \<le> 20"
  shows "rr_ok (nsec_rr q p types)"
proof -
  have "length (qname_of q) \<le> length q" by (auto simp: qname_of_def min_le_iff_disj split: option.split)
  with assms nsec_data_length [of "qname_of q" types]
  have "length (nsec_data (qname_of q) types) \<le> 65535" by linarith
  then show ?thesis by (simp add: nsec_rr_def)
qed

lemma nodata_content_ok:
  assumes "params_fit cr p" and "length q \<le> 60000" and "length types \<le> 20"
  shows "content_ok (nodata_content q p types)"
  using rr_ok_soa [OF assms(1)] nsec_rr_ok [OF assms(2,3), of p]
  by (simp add: nodata_content_def)

lemma apex_types_length: "length (apex_types p) \<le> 20"
  by (simp add: apex_types_def)

lemma apex_content_ok:
  assumes "params_fit cr p" and "length q \<le> 60000"
  shows "content_ok (apex_content cr q qtype p)"
proof -
  have answers: "rrs_ok (apex_answers cr q qtype p) \<and> length (apex_answers cr q qtype p) \<le> 2000"
    using rr_ok_soa [OF assms(1)] ns_rrs_ok [OF assms(1)] dnssec_rrs_ok [OF assms(1)]
      nsec_rr_ok [OF assms(2) apex_types_length [of p], of p]
    by (auto simp: apex_answers_def if_some_def split: option.split)
  show ?thesis
    using answers ns_rrs_ok [OF assms(1)] glue_rrs_ok [OF assms(1)]
      nodata_content_ok [OF assms apex_types_length [of p]]
    by (auto simp: apex_content_def)
qed

lemma address_content_ok:
  assumes "params_fit cr p" and "length q \<le> 60000"
  shows "content_ok (address_content q qtype ip p)"
proof -
  have "length (address_types ip) \<le> 20" by (simp add: address_types_def)
  moreover have "rrs_ok (address_answers qtype ip) \<and> length (address_answers qtype ip) \<le> 2"
    by (auto simp: address_answers_def if_some_def split: option.split)
  ultimately show ?thesis
    using nodata_content_ok [OF assms] by (simp add: address_content_def)
qed

context answering begin

lemma reads_back:
  assumes wf and "query_hdr hdr" and "qlabels_ok ls" and "params_fit cr p"
    and "q = question hdr ls qtype qclass rest" and "content_ok (content q)"
  shows "\<exists>r. build q = ret r \<and> read_message r =
    Some (reply_message (response_flags q True RCODE_NOERROR) q (sign p) ls qtype qclass
      (signed_sections cr clk q p (content q)))"
  using answers [OF assms(1), of q] read_answer [OF assms(2,3,5,4,6)] by blast

end

text \<open>
  Every authoritative reply is a well-formed DNS message: read from its first to its last
  byte it has the identifier of the query, the flags, the question, and in each section exactly
  the records that were meant (signed run by run when asked), with header counts to match; for
  every query of one question and at most 60000 bytes, and parameters that fit.
\<close>

theorem replies_read_back:
  assumes "query_hdr hdr" and "qlabels_ok ls" and "params_fit cr p" and "params_utf8 p"
    and "q = question hdr ls qtype qclass rest" and "length q \<le> 60000" and "length types \<le> 20"
  shows "let reads = (\<lambda>build content. \<exists>r. build = ret r \<and> read_message r =
      Some (reply_message (response_flags q True RCODE_NOERROR) q (sign p) ls qtype qclass
        (signed_sections cr clk q p content))) in
    reads (build_apex_response cr clk q qtype p) (apex_content cr q qtype p) \<and>
    reads (build_address_response cr clk q qtype ip p) (address_content q qtype ip p) \<and>
    reads (build_txt_response cr clk q txt_data p) ([txt_rr txt_data], [], []) \<and>
    reads (build_nodata_response cr clk q p types) (nodata_content q p types)"
  unfolding Let_def
  using apex_reply.reads_back [OF assms(4,1,2,3,5) apex_content_ok [OF assms(3,6)]]
    address_reply.reads_back [OF TrueI assms(1,2,3,5) address_content_ok [OF assms(3,6)]]
    txt_reply.reads_back [OF TrueI assms(1,2,3,5), of txt_data]
    nodata_reply.reads_back [OF TrueI assms(1,2,3,5) nodata_content_ok [OF assms(3,6,7)]]
  by simp

lemma toy_names_short: "list_all short_name
    (map lit [''nip.nu'', ''ns1.addr.se'', ''ns.addr.se'', ''ns1.nip.nu'', ''hostmaster.nip.nu''])"
  by code_simp

lemma toy_params_fit: "params_fit toy_crypto toy_params"
proof -
  have "length (dk_dnskey_rdata toy_key) = 68" using toy_key_wf by (simp add: key_wf_def)
  then show ?thesis using toy_names_short
    by (auto simp: params_fit_def toy_params_def toy_crypto_def min_def)
qed

definition toy_hdr :: bytes where
  "toy_hdr = [0x12, 0x34, 1, 0, 0, 1, 0, 0, 0, 0, 0, 0]"

theorem replies_read_back_witness:
  "let q = question toy_hdr [lit ''NIP'', lit ''nu''] 255 1 [] in
   \<exists>r m. build_apex_response toy_crypto (\<lambda>_. Some 1700000000) q 255 toy_params = ret r \<and>
     read_message r = Some m \<and> ms_id m = 0x1234 \<and>
     ms_question m = ([lit ''NIP'', lit ''nu''], 255, 1)"
proof -
  let ?q = "question toy_hdr [lit ''NIP'', lit ''nu''] 255 1 []"
  have h: "query_hdr toy_hdr" by code_simp
  have l: "qlabels_ok [lit ''NIP'', lit ''nu'']" by code_simp
  have len: "length ?q \<le> 60000" by code_simp
  have i: "of_be16 (?q ! 0) (?q ! 1) = 0x1234" by code_simp
  have t: "length ([] :: u16 list) \<le> 20" by simp
  show ?thesis
    using replies_read_back [OF h l toy_params_fit toy_params_utf8 refl len t, unfolded Let_def,
        THEN conjunct1, of "\<lambda>_. Some 1700000000"]
    unfolding Let_def by (auto simp: reply_message_def i [simplified])
qed

end
