(* ===== verification/Query.thy ===== *)
theory Query
  imports Config Message
begin

text \<open>
  \<open>src/dns/query.rs\<close>: reading the question, the zone test, and the decision which reply a query
  gets.  Logging is left out; the result of \<open>handle_query_internal\<close> is always \<open>Ok\<close>, so the model
  returns its value.
\<close>

section \<open>The program\<close>

definition is_version_query :: "rstr \<Rightarrow> bool" where
  "is_version_query domain \<longleftrightarrow>
     eq_ignore_ascii_case domain (lit ''version'') \<or> eq_ignore_ascii_case domain (lit ''ver'') \<or>
     eq_ignore_ascii_case domain (lit ''v'')"

text \<open>\<open>query.get(2).map(|b| (b >> 3) & 0x0f).unwrap_or(0)\<close>\<close>

definition opcode :: "bytes \<Rightarrow> byte" where
  "opcode query = (if 2 < length query then drop_bit 3 (query ! 2) AND 0x0f else 0)"

definition zone_params_of :: "'k config \<Rightarrow> bool \<Rightarrow> 'k zone_params" where
  "zone_params_of cf do_bit = \<lparr>
     zp_zone = cf_glue_name cf, zp_ns_name = cf_soa_name cf, zp_ns_names = cf_ns_names cf,
     zp_glue_ip = cf_glue_ip cf, zp_glue_ip6 = cf_glue_ip6 cf, zp_hostmaster = cf_hostmaster cf,
     zp_serial = cf_serial cf, zp_refresh = cf_refresh cf, zp_retry = cf_retry cf,
     zp_expire = cf_expire cf, zp_minimum = cf_minimum cf,
     zp_spf = (if cf_spf cf \<noteq> [] then Some (cf_spf cf) else None),
     zp_dnssec = cf_dnssec cf, zp_do_bit = do_bit \<rparr>"

definition dmarc_owner :: "rstr \<Rightarrow> rstr" where
  "dmarc_owner zone = lit ''_dmarc.'' @ trim_end DOT zone"

definition is_configured_ns :: "rstr \<Rightarrow> 'k config \<Rightarrow> bool" where
  "is_configured_ns domain cf \<longleftrightarrow>
     list_ex (\<lambda>ns. names_eq domain ns) (cf_ns_names cf) \<or> names_eq domain (cf_soa_name cf)"

definition is_in_zone :: "rstr \<Rightarrow> rstr \<Rightarrow> bool exec" where
  "is_in_zone domain0 zone0 = (
     let domain = trim_end DOT domain0; zone = trim_end DOT zone0 in
     if zone = [] then ret False
     else if eq_ignore_ascii_case domain zone then ret True
     else if length domain \<le> length zone + 1 then ret False
     else let split_at = length domain - length zone in do {
       b \<leftarrow> idx domain (split_at - 1);
       (if b \<noteq> DOT then ret False
        else do {
          tail \<leftarrow> str_from domain split_at;
          ret (eq_ignore_ascii_case tail zone)
        })
     })"

text \<open>The loop of \<open>parse_query\<close>: \<open>None\<close> inside is its early \<open>return None\<close>.\<close>

function parse_query_loop :: "bytes \<Rightarrow> nat \<Rightarrow> rstr \<Rightarrow> rstr option exec" where
  "parse_query_loop query pos domain =
     (if pos < length query then
        (case idx query pos of
           None \<Rightarrow> panic
         | Some b \<Rightarrow>
             (let len = unat b in
              if len = 0 then ret (Some domain)
              else if length query < pos + 1 + len then ret None
              else
                (let domain = (if domain = [] then domain else domain @ [DOT])
                 in case subslice query (pos + 1) (pos + 1 + len) of
                      None \<Rightarrow> panic
                    | Some label \<Rightarrow>
                        if utf8_valid label
                        then parse_query_loop query (pos + 1 + len) (domain @ label)
                        else ret None)))
      else ret (Some domain))"
  by pat_completeness auto
termination
  by (relation "measure (\<lambda>(query, pos, domain). length query - pos)") auto

declare parse_query_loop.simps [simp del]

definition parse_query :: "bytes \<Rightarrow> rstr option exec" where
  "parse_query query =
     (if length query < 12 then ret None
      else do {
        q1 \<leftarrow> idx query 4;
        q2 \<leftarrow> idx query 5;
        (if of_be16 q1 q2 \<noteq> 1 then ret None
         else do {
           domain \<leftarrow> parse_query_loop query 12 [];
           ret (case domain of
                  None \<Rightarrow> None
                | Some d \<Rightarrow> if d = [] then None else Some d)
         })
      })"

definition handle_query_internal :: "'k crypto \<Rightarrow> clock \<Rightarrow> bytes \<Rightarrow> 'k config \<Rightarrow> bytes exec" where
  "handle_query_internal cr clk query cf =
     (if opcode query \<noteq> 0 then build_notimp_response query
      else do {
        domain \<leftarrow> parse_query query;
        (case domain of
           None \<Rightarrow> ret []
         | Some domain \<Rightarrow> do {
             types \<leftarrow> parse_qtype_qclass query;
             (case types of
                None \<Rightarrow> ret []
              | Some (qtype, qclass) \<Rightarrow>
                  if qclass \<noteq> 1 then build_refused_response query
                  else do {
                    in_zone \<leftarrow> is_in_zone domain (cf_glue_name cf);
                    (if \<not> in_zone \<and> \<not> is_version_query domain
                     then build_refused_response query
                     else do {
                       do_bit \<leftarrow> query_dnssec_ok query;
                       let params = zone_params_of cf do_bit;
                       (if is_version_query domain then
                          (if qtype = TYPE_TXT \<or> qtype = TYPE_ANY then
                             build_txt_response cr clk query (lit ''RustyAlias v'' @ cf_version cf) params
                           else do {
                             in_zone \<leftarrow> is_in_zone domain (cf_glue_name cf);
                             (if in_zone then build_nodata_response cr clk query params [TYPE_TXT]
                              else build_refused_response query)
                           })
                        else if cf_dmarc cf \<noteq> [] \<and> names_eq domain (dmarc_owner (cf_glue_name cf)) then
                          (if qtype = TYPE_TXT \<or> qtype = TYPE_ANY then
                             build_txt_response cr clk query (cf_dmarc cf) params
                           else build_nodata_response cr clk query params [TYPE_TXT])
                        else if names_eq domain (cf_glue_name cf) then
                          build_apex_response cr clk query qtype params
                        else do {
                          ns_in_zone \<leftarrow>
                            (if is_configured_ns domain cf then is_in_zone domain (cf_glue_name cf)
                             else ret False);
                          (if ns_in_zone then
                             build_address_response cr clk query qtype
                               (Some (cf_glue_ip cf), cf_glue_ip6 cf) params
                           else do {
                             ip \<leftarrow> interpret_ip domain;
                             (case ip of
                                Some ip \<Rightarrow> build_address_response cr clk query qtype ip params
                              | None \<Rightarrow> build_nodata_response cr clk query params [])
                           })
                        })
                     })
                  })
           })
      })"

text \<open>\<open>handle_query\<close>: what is sent back over UDP, \<open>None\<close> for nothing.\<close>

definition handle_query :: "'k crypto \<Rightarrow> clock \<Rightarrow> bytes \<Rightarrow> 'k config \<Rightarrow> bytes option exec" where
  "handle_query cr clk query cf = do {
     response \<leftarrow> handle_query_internal cr clk query cf;
     (if response = [] then ret None
      else do {
        response \<leftarrow> maybe_truncate_udp response query;
        ret (Some response)
      })
   }"

section \<open>The question name\<close>

text \<open>What the loop computes, on the bytes from its position on.\<close>

function join_labels :: "bytes \<Rightarrow> rstr \<Rightarrow> rstr option" where
  "join_labels [] d = Some d"
| "join_labels (n # bs) d =
     (if n = 0 then Some d
      else if length bs < unat n \<or> \<not> utf8_valid (take (unat n) bs) then None
      else join_labels (drop (unat n) bs) ((if d = [] then d else d @ [DOT]) @ take (unat n) bs))"
  by pat_completeness auto
termination
  by (relation "measure (length \<circ> fst)") auto

lemma parse_query_loop_eq: "parse_query_loop q pos d = ret (join_labels (drop pos q) d)"
proof (induction q pos d rule: parse_query_loop.induct)
  case (1 q pos d)
  show ?case
  proof (cases "pos < length q")
    case False
    then show ?thesis by (subst parse_query_loop.simps) simp
  next
    case True
    let ?b = "q ! pos" and ?n = "unat (q ! pos)"
    let ?label = "take ?n (drop (pos + 1) q)"
    have split: "drop pos q = ?b # drop (pos + 1) q" using True by (simp add: Cons_nth_drop_Suc)
    have i: "idx q pos = ret ?b" using True by (rule idx_ret)
    show ?thesis
    proof (cases "?n = 0 \<or> length q < pos + 1 + ?n")
      case True
      have "?b = 0 \<longleftrightarrow> ?n = 0" by (metis unsigned_0 word_unat_eq_iff)
      with True \<open>pos < length q\<close> show ?thesis
        by (subst parse_query_loop.simps) (auto simp: i Let_def split)
    next
      case False
      then have f: "(?n = 0) = False" "(length q < pos + 1 + ?n) = False" by simp_all
      from False have nz: "?b \<noteq> 0" and len: "\<not> length (drop (pos + 1) q) < ?n" by auto
      have sub: "subslice q (pos + 1) (pos + 1 + ?n) = ret ?label"
        using False by (simp add: subslice_def)
      let ?d = "(if d = [] then d else d @ [DOT]) @ ?label"
      show ?thesis
      proof (cases "utf8_valid ?label")
        case True
        have step: "parse_query_loop q pos d = parse_query_loop q (pos + 1 + ?n) ?d"
          using \<open>pos < length q\<close> f True
          by (subst parse_query_loop.simps) (simp only: i Let_def option.case sub if_True if_False simp_thms)
        have "drop (pos + 1 + ?n) q = drop ?n (drop (pos + 1) q)" by (simp add: add.commute)
        moreover have "parse_query_loop q (pos + 1 + ?n) ?d = ret (join_labels (drop (pos + 1 + ?n) q) ?d)"
          using "1.IH" [OF \<open>pos < length q\<close> i refl _ _ refl sub True] False by simp
        ultimately show ?thesis
          unfolding step split using nz len True by (simp only: join_labels.simps if_False simp_thms)
      next
        case invalid: False
        then have "parse_query_loop q pos d = ret None"
          using \<open>pos < length q\<close> f
          by (subst parse_query_loop.simps) (simp only: i Let_def option.case sub if_True if_False simp_thms)
        then show ?thesis
          unfolding split using nz invalid by (simp only: join_labels.simps if_False if_True simp_thms)
      qed
    qed
  qed
qed

definition query_domain :: "bytes \<Rightarrow> rstr option" where
  "query_domain q =
     (if length q < 12 \<or> of_be16 (q ! 4) (q ! 5) \<noteq> 1 then None
      else case join_labels (drop 12 q) [] of
             None \<Rightarrow> None
           | Some d \<Rightarrow> if d = [] then None else Some d)"

lemma parse_query_eq [exec_simps]: "parse_query q = ret (query_domain q)"
  by (auto simp: parse_query_def query_domain_def parse_query_loop_eq idx_def split: option.split)

lemma join_labels_utf8:
  "join_labels bs d = Some d' \<Longrightarrow> utf8_valid d \<Longrightarrow> utf8_valid d'"
proof (induction bs d rule: join_labels.induct)
  case (2 n bs d)
  have "utf8_valid ((if d = [] then d else d @ [DOT]) @ take (unat n) bs)"
    if "utf8_valid (take (unat n) bs)"
    using "2.prems"(2) that by (simp add: utf8_valid_append)
  with 2 show ?case by (auto split: if_splits)
qed simp

lemma query_domain_utf8: "query_domain q = Some d \<Longrightarrow> utf8_valid d"
  by (auto simp: query_domain_def join_labels_utf8 split: if_splits option.splits)

definition utf8_labels :: "rstr list \<Rightarrow> bool" where
  "utf8_labels ls \<longleftrightarrow> (\<forall>l \<in> set ls. label_ok l \<and> utf8_valid l)"

lemma join_labels_enc:
  "utf8_labels ls \<Longrightarrow> join_labels (enc_labels ls @ rest) d =
     Some (if d = [] then join_with [DOT] ls else if ls = [] then d else d @ DOT # join_with [DOT] ls)"
proof (induction ls arbitrary: d)
  case Nil
  then show ?case by (simp add: enc_labels_def)
next
  case (Cons l ls)
  have l: "label_ok l" "utf8_valid l" "utf8_labels ls" using Cons.prems by (simp_all add: utf8_labels_def)
  have n: "unat (of_nat (length l) :: byte) = length l" "(of_nat (length l) :: byte) \<noteq> 0"
    using label_ok_length [OF l(1)] by simp_all
  have "l \<noteq> []" using l(1) by (simp add: label_ok_def)
  have "enc_labels (l # ls) @ rest = of_nat (length l) # l @ enc_labels ls @ rest"
    by (simp add: enc_labels_def enc_label_def)
  then have "join_labels (enc_labels (l # ls) @ rest) d =
      join_labels (enc_labels ls @ rest) ((if d = [] then d else d @ [DOT]) @ l)"
    using n l(2) by simp
  with Cons.IH [OF l(3)] \<open>l \<noteq> []\<close> show ?case by (cases ls) auto
qed

lemma query_hdr_count: "query_hdr hdr \<Longrightarrow> length hdr = 12 \<and> of_be16 (hdr ! 4) (hdr ! 5) = 1"
proof -
  assume h: "query_hdr hdr"
  then have "take 2 (drop 4 hdr) ! 0 = 0" and "take 2 (drop 4 hdr) ! 1 = 1" and l: "length hdr = 12"
    by (simp_all add: query_hdr_def)
  then have "hdr ! 4 = 0" and "hdr ! 5 = 1" by simp_all
  moreover have "of_be16 0 1 = 1" by code_simp
  ultimately show ?thesis using l by simp
qed

lemma query_domain_question:
  assumes "query_hdr hdr" and "utf8_labels ls" and "ls \<noteq> []"
  shows "query_domain (question hdr ls qtype qclass rest) = Some (join_with [DOT] ls)"
proof -
  have hdr: "length hdr = 12" "of_be16 (hdr ! 4) (hdr ! 5) = 1" using query_hdr_count [OF assms(1)] by simp_all
  obtain l ls' where ls: "ls = l # ls'" using assms(3) by (cases ls) simp_all
  have "l \<noteq> []" using assms(2) by (simp add: utf8_labels_def ls label_ok_def)
  then have "join_with [DOT] ls \<noteq> []" by (cases ls') (simp_all add: ls)
  with hdr join_labels_enc [OF assms(2), of "be16 qtype @ be16 qclass @ rest" "[]"] show ?thesis
    by (simp add: query_domain_def question_def nth_append)
qed

text \<open>
  C18: \<open>parse_query\<close> never panics, and it returns the name of a well-formed question: its labels,
  in order, joined by dots.
\<close>

theorem parse_query_question:
  assumes "query_hdr hdr" and "utf8_labels ls" and "ls \<noteq> []"
  shows "parse_query (question hdr ls qtype qclass rest) = ret (Some (join_with [DOT] ls))"
  using query_domain_question [OF assms] by (simp add: parse_query_eq)

theorem parse_query_question_witness:
  "parse_query (question toy_hdr [lit ''10-0-0-1'', lit ''nip'', lit ''nu''] 1 1 []) =
     ret (Some (lit ''10-0-0-1.nip.nu''))"
proof -
  have "query_hdr toy_hdr" and "utf8_labels [lit ''10-0-0-1'', lit ''nip'', lit ''nu'']"
    and "join_with [DOT] [lit ''10-0-0-1'', lit ''nip'', lit ''nu''] = lit ''10-0-0-1.nip.nu''"
    by code_simp+
  with parse_query_question [of toy_hdr "[lit ''10-0-0-1'', lit ''nip'', lit ''nu'']" 1 1 "[]"]
  show ?thesis by simp
qed

section \<open>The zone test\<close>

definition in_zone :: "rstr \<Rightarrow> rstr \<Rightarrow> bool" where
  "in_zone domain zone \<longleftrightarrow> trim_end DOT zone \<noteq> [] \<and> in_bailiwick domain zone"

lemma is_in_zone_eq [exec_simps]:
  assumes "utf8_valid domain"
  shows "is_in_zone domain zone = ret (in_zone domain zone)"
proof -
  let ?n = "trim_end DOT domain" and ?z = "trim_end DOT zone"
  have valid: "utf8_valid ?n" using assms by (rule utf8_valid_trim_end) simp
  show ?thesis
  proof (cases "length ?z + 1 < length ?n")
    case False
    with label_suffix_length show ?thesis
      by (auto simp: is_in_zone_def in_zone_def in_bailiwick_def names_eq_def Let_def)
  next
    case True
    have i: "idx ?n (length ?n - length ?z - 1) = ret (?n ! (length ?n - length ?z - 1))"
      using True by (intro idx_ret) linarith
    have le: "\<not> length ?n \<le> length ?z + 1" using True by linarith
    show ?thesis
      using label_suffix_slice [OF valid True]
      by (simp add: is_in_zone_def in_zone_def in_bailiwick_def names_eq_def Let_def i le
          label_suffix_iff [OF True] del: diff_diff_left One_nat_def add_is_0 not_le)
  qed
qed

lemma label_suffix_labels:
  "label_suffix n z \<longleftrightarrow> (\<exists>p. p \<noteq> [] \<and> to_lower n = p @ DOT # to_lower z)"
proof
  assume "label_suffix n z"
  then obtain k where k: "k < length n" "0 < k" "to_lower n ! k = DOT"
    "drop (Suc k) (to_lower n) = to_lower z"
    by (auto simp: label_suffix_def)
  then have "to_lower n = take k (to_lower n) @ DOT # to_lower z"
    by (metis id_take_nth_drop length_to_lower)
  moreover have "take k (to_lower n) \<noteq> []" using k(1,2) by (cases n) auto
  ultimately show "\<exists>p. p \<noteq> [] \<and> to_lower n = p @ DOT # to_lower z" by blast
next
  assume "\<exists>p. p \<noteq> [] \<and> to_lower n = p @ DOT # to_lower z"
  then obtain p where p: "p \<noteq> []" "to_lower n = p @ DOT # to_lower z" by blast
  have "length n = length p + 1 + length z" using p(2) by (metis add.assoc add.commute length_Cons length_append length_to_lower plus_1_eq_Suc)
  with p show "label_suffix n z"
    unfolding label_suffix_def by (intro exI [of _ "length p"]) (simp add: nth_append)
qed

text \<open>
  C17: the zone test respects label boundaries: a UTF-8 name is in the zone exactly when, up to
  ASCII case and trailing dots, it is the zone or ends in a dot and the zone behind at least one
  byte; the empty zone holds no name, and the test never panics.
\<close>

theorem is_in_zone_iff:
  assumes "utf8_valid domain"
  shows "\<exists>b. is_in_zone domain zone = ret b \<and>
    (b \<longleftrightarrow> (let d = to_lower (trim_end DOT domain); z = to_lower (trim_end DOT zone) in
       z \<noteq> [] \<and> (d = z \<or> (\<exists>p. p \<noteq> [] \<and> d = p @ DOT # z))))"
  by (simp add: is_in_zone_eq [OF assms] in_zone_def in_bailiwick_def names_eq_iff label_suffix_labels Let_def)

theorem is_in_zone_iff_witness:
  "is_in_zone (lit ''fakens.addr.se'') (lit ''ns.addr.se.'') = ret False"
proof -
  have v: "utf8_valid (lit ''fakens.addr.se'')" by code_simp
  have d: "to_lower (trim_end DOT (lit ''fakens.addr.se'')) = lit ''fakens.addr.se''"
    and z: "to_lower (trim_end DOT (lit ''ns.addr.se.'')) = lit ''ns.addr.se''"
    by code_simp+
  have "lit ''fakens.addr.se'' = p @ DOT # lit ''ns.addr.se'' \<Longrightarrow> False" for p
  proof -
    assume eq: "lit ''fakens.addr.se'' = p @ DOT # lit ''ns.addr.se''"
    then have "length p = 3" by (auto dest: arg_cong [of _ _ length] simp: lit_def)
    then have "(p @ DOT # lit ''ns.addr.se'') ! 3 = DOT" by (simp add: nth_append)
    then have "lit ''fakens.addr.se'' ! 3 = DOT" by (simp only: eq)
    moreover have "lit ''fakens.addr.se'' ! 3 \<noteq> DOT" by code_simp
    ultimately show False by simp
  qed
  moreover have "lit ''fakens.addr.se'' \<noteq> lit ''ns.addr.se''" by code_simp
  ultimately show ?thesis
    using is_in_zone_iff [OF v, of "lit ''ns.addr.se.''"] unfolding d z Let_def by auto
qed

section \<open>The decision\<close>

text \<open>What the server should do with a query, without bytes: drop it, refuse it, or answer with
  the records of three sections.\<close>

datatype outcome = Drop | Refuse | Not_implemented | Answer "rr list \<times> rr list \<times> rr list"

definition qtypes :: "bytes \<Rightarrow> (u16 \<times> u16) option" where
  "qtypes q = (case qend q of None \<Rightarrow> None
     | Some e \<Rightarrow> Some (of_be16 (q ! (e - 4)) (q ! (e - 3)), of_be16 (q ! (e - 2)) (q ! (e - 1))))"

definition zone_records ::
    "'k crypto \<Rightarrow> bytes \<Rightarrow> 'k config \<Rightarrow> rstr \<Rightarrow> u16 \<Rightarrow> rr list \<times> rr list \<times> rr list" where
  "zone_records cr q cf domain qtype =
     (let p = zone_params_of cf (wants_dnssec q) in
      if cf_dmarc cf \<noteq> [] \<and> names_eq domain (dmarc_owner (cf_glue_name cf)) then
        (if qtype \<in> {TYPE_TXT, TYPE_ANY} then ([txt_rr (cf_dmarc cf)], [], [])
         else nodata_content q p [TYPE_TXT])
      else if names_eq domain (cf_glue_name cf) then apex_content cr q qtype p
      else if is_configured_ns domain cf then
        address_content q qtype (Some (cf_glue_ip cf), cf_glue_ip6 cf) p
      else case labels_ip (split_on DOT domain) of
             Some ip \<Rightarrow> address_content q qtype ip p
           | None \<Rightarrow> nodata_content q p [])"

definition outcome :: "'k crypto \<Rightarrow> bytes \<Rightarrow> 'k config \<Rightarrow> outcome" where
  "outcome cr q cf =
     (if opcode q \<noteq> 0 then Not_implemented
      else case (query_domain q, qtypes q) of
        (Some domain, Some (qtype, qclass)) \<Rightarrow>
          if qclass \<noteq> 1 then Refuse
          else if is_version_query domain then
            (if qtype \<in> {TYPE_TXT, TYPE_ANY} then
               Answer ([txt_rr (lit ''RustyAlias v'' @ cf_version cf)], [], [])
             else if in_zone domain (cf_glue_name cf) then
               Answer (nodata_content q (zone_params_of cf (wants_dnssec q)) [TYPE_TXT])
             else Refuse)
          else if in_zone domain (cf_glue_name cf) then Answer (zone_records cr q cf domain qtype)
          else Refuse
      | _ \<Rightarrow> Drop)"

definition outcome_bytes :: "'k crypto \<Rightarrow> clock \<Rightarrow> bytes \<Rightarrow> 'k config \<Rightarrow> outcome \<Rightarrow> bytes" where
  "outcome_bytes cr clk q cf out =
     (case out of
        Drop \<Rightarrow> []
      | Refuse \<Rightarrow> if length q < 12 then [] else reply (response_flags q False RCODE_REFUSED) q False [] [] []
      | Not_implemented \<Rightarrow>
          if length q < 12 then [] else reply (response_flags q False RCODE_NOTIMP) q False [] [] []
      | Answer sections \<Rightarrow> answer cr clk q (zone_params_of cf (wants_dnssec q)) sections)"

lemma zone_params_utf8: "config_wf cr cf \<Longrightarrow> params_utf8 (zone_params_of cf d)"
  by (simp add: config_wf_def params_utf8_def zone_params_of_def list_all_iff)

lemma handle_query_internal_eq:
  assumes "config_wf cr cf"
  shows "handle_query_internal cr clk q cf = ret (outcome_bytes cr clk q cf (outcome cr q cf))"
proof (cases "opcode q = 0")
  case False
  then show ?thesis
    by (simp add: handle_query_internal_def outcome_def outcome_bytes_def build_notimp_response_def
        error_response_eq)
next
  case op: True
  show ?thesis
  proof (cases "query_domain q")
    case None
    with op show ?thesis
      by (simp add: handle_query_internal_def parse_query_eq outcome_def outcome_bytes_def)
  next
    case (Some domain)
    then have valid: "utf8_valid domain" by (rule query_domain_utf8)
    have types: "parse_qtype_qclass q = ret (qtypes q)"
      by (simp add: parse_qtype_qclass_eq qtypes_def)
    show ?thesis
      using op Some
      by (auto simp: handle_query_internal_def parse_query_eq types outcome_def outcome_bytes_def
          zone_records_def is_in_zone_eq [OF valid] query_dnssec_ok_eq build_refused_response_def
          error_response_eq build_txt_response_eq build_nodata_response_eq interpret_ip_eq
          build_apex_response_eq [OF zone_params_utf8 [OF assms]] build_address_response_eq Let_def
          split: option.split)
  qed
qed

text \<open>
  C4: for a well-formed configuration \<open>handle_query_internal\<close> implements the decision above, on
  every byte string: what it returns is the reply to the outcome, or nothing for a dropped query.
\<close>

theorem handle_query_internal_meets_spec:
  assumes "config_wf cr cf"
  shows "handle_query_internal cr clk q cf = ret (outcome_bytes cr clk q cf (outcome cr q cf))"
  by (rule handle_query_internal_eq [OF assms])

text \<open>A configuration for the witnesses.\<close>

definition toy_config :: "bytes config" where
  "toy_config = \<lparr> cf_glue_name = lit ''nip.nu'', cf_glue_ip = Ipv4 37 27 198 249, cf_glue_ip6 = None,
     cf_soa_name = lit ''ns1.addr.se'', cf_ns_names = [lit ''ns.addr.se'', lit ''ns1.nip.nu''],
     cf_hostmaster = lit ''hostmaster.nip.nu'', cf_serial = 1, cf_refresh = 3600, cf_retry = 1800,
     cf_expire = 604800, cf_minimum = 3600, cf_spf = lit ''v=spf1 -all'', cf_dmarc = lit ''v=DMARC1'',
     cf_version = lit ''1.8.1'', cf_rate_limit_seconds = 0, cf_rate_limit_requests = 0,
     cf_dnssec = None \<rparr>"

lemma toy_config_wf: "config_wf toy_crypto toy_config"
proof -
  have "list_all utf8_valid (map lit [''nip.nu'', ''ns1.addr.se'', ''ns.addr.se'', ''ns1.nip.nu'',
      ''hostmaster.nip.nu'', ''v=spf1 -all'', ''v=DMARC1'', ''1.8.1''])" by code_simp
  then show ?thesis by (simp add: config_wf_def toy_config_def)
qed

theorem handle_query_internal_meets_spec_witness:
  "handle_query_internal toy_crypto (\<lambda>_. None) [0, 0, 0x28] toy_config =
     ret (outcome_bytes toy_crypto (\<lambda>_. None) [0, 0, 0x28] toy_config Not_implemented)"
proof -
  have "outcome toy_crypto [0, 0, 0x28] toy_config = Not_implemented" by code_simp
  then show ?thesis using handle_query_internal_meets_spec [OF toy_config_wf] by simp
qed

lemma handle_query_eq:
  assumes "config_wf cr cf"
  shows "handle_query cr clk q cf =
    (let r = outcome_bytes cr clk q cf (outcome cr q cf) in
     if r = [] then ret None
     else ret (Some (if length r \<le> udp_limit q \<or> qend q = None then r else truncated r q)))"
  by (simp add: handle_query_def handle_query_internal_eq [OF assms] maybe_truncate_udp_eq Let_def)

text \<open>
  No query makes the server panic: for every byte string a client may send over UDP or TCP,
  handling it under a well-formed configuration returns.
\<close>

theorem handle_query_no_panic:
  assumes "config_wf cr cf"
  shows "handle_query cr clk q cf \<noteq> panic \<and> handle_query_internal cr clk q cf \<noteq> panic"
  by (simp add: handle_query_eq [OF assms] handle_query_internal_eq [OF assms] Let_def)

theorem handle_query_no_panic_witness:
  "handle_query toy_crypto (\<lambda>_. None) [0xC0, 0x0C] toy_config \<noteq> panic"
  using handle_query_no_panic [OF toy_config_wf] by blast

lemma qend_None_size:
  assumes "qend q = None"
  shows "length (outcome_bytes cr clk q cf out) \<le> 12"
proof -
  have "\<not> has_opt q" using assms has_opt_qend by blast
  with assms show ?thesis
    by (auto simp: outcome_bytes_def no_question reply_def qsection_of_def opt_part_def
        split: outcome.split)
qed

lemma truncated_length:
  assumes "qend q = Some e"
  shows "length (truncated response q) \<le> max (udp_limit q) e"
proof -
  have b: "length (qsection_of q) = e - 12" "17 \<le> e"
    using qsection_length [OF assms] qend_bounds [OF assms] by simp_all
  show ?thesis
  proof (cases "length (qsection_of q) + 23 \<le> udp_limit q")
    case True
    have "length (opt_part q False) \<le> 11" by (simp add: opt_part_def length_reply_part)
    with True b show ?thesis by (simp add: truncated_def le_max_iff_disj)
  next
    case False
    then have "length (truncated response q) =
        min (length response) 2 + 2 + min (length q - 4) 2 + 6 + (e - 12)"
      by (simp add: truncated_def b(1))
    moreover have "min (length response) 2 \<le> 2" and "min (length q - 4) 2 \<le> 2" by simp_all
    ultimately have "length (truncated response q) \<le> e" using b(2) by linarith
    then show ?thesis by simp
  qed
qed

lemma handle_query_length:
  assumes "config_wf cr cf" and "handle_query cr clk q cf = ret (Some r)"
  shows "length r \<le> max (udp_limit q) (case qend q of None \<Rightarrow> 12 | Some e \<Rightarrow> e)"
proof -
  let ?r = "outcome_bytes cr clk q cf (outcome cr q cf)"
  have r: "r = (if length ?r \<le> udp_limit q \<or> qend q = None then ?r else truncated ?r q)"
    using assms(2) by (auto simp: handle_query_eq [OF assms(1)] Let_def split: if_splits)
  show ?thesis
  proof (cases "qend q")
    case None
    with r qend_None_size [OF None, of cr clk cf "outcome cr q cf"] show ?thesis by simp
  next
    case (Some e)
    with r truncated_length [OF Some, of ?r] show ?thesis by auto
  qed
qed

text \<open>
  A reply over UDP is never longer than the size limit of the query, unless header and
  question alone are.
\<close>

theorem handle_query_size:
  assumes "config_wf cr cf" and "handle_query cr clk q cf = ret (Some r)"
  shows "length r \<le> max (udp_limit q) (case qend q of None \<Rightarrow> 12 | Some e \<Rightarrow> e)"
  by (rule handle_query_length [OF assms])

theorem handle_query_size_witness:
  "\<exists>r. handle_query toy_crypto (\<lambda>_. None) (toy_hdr[2 := 0x28]) toy_config = ret (Some r) \<and>
     length r \<le> 512"
proof -
  let ?q = "toy_hdr[2 := 0x28]"
  have r: "handle_query toy_crypto (\<lambda>_. None) ?q toy_config =
      ret (Some [0x12, 0x34, 168, 4, 0, 1, 0, 0, 0, 0, 0, 0])" by code_simp
  have l: "udp_limit ?q = 512" and e: "qend ?q = None" by code_simp+
  show ?thesis using handle_query_size [OF toy_config_wf r] r unfolding l e by auto
qed

section \<open>Replies without data\<close>

lemma qtypes_question:
  assumes "length hdr = 12" and "qlabels_ok ls"
  shows "qtypes (question hdr ls qtype qclass rest) = Some (qtype, qclass)"
proof -
  let ?q = "question hdr ls qtype qclass rest" and ?n = "length (enc_labels ls)"
  have "?q ! (?n + 12) = ucast (drop_bit 8 qtype)" "?q ! (?n + 13) = ucast qtype"
    "?q ! (?n + 14) = ucast (drop_bit 8 qclass)" "?q ! (?n + 15) = ucast qclass"
    using assms(1) by (simp_all add: question_def nth_append be16_def)
  then show ?thesis
    by (simp add: qtypes_def qend_question [OF assms] add.commute)
qed

text \<open>A reply without records, byte by byte.\<close>

lemma empty_reply_fields:
  assumes "12 \<le> length q" and r_def: "r = reply (response_flags q aa rcode) q False [] [] []"
  shows "take 2 r = take 2 q" and "flags_of r = reply_flags q aa (ucast (take_bit 4 rcode))"
    and "take 2 (drop 4 r) = take 2 (drop 4 q)"
    and "drop 6 r = [0, 0, 0, 0, 0, if has_opt q then 1 else 0] @
      (case qend q of None \<Rightarrow> [] | Some e \<Rightarrow> take (e - 12) (drop 12 q)) @
      (if has_opt q then [0, 0, 41, 4, 208, 0, 0, 0, 0, 0, 0] else [])"
proof -
  have z: "be16 0 = [0, 0]" and one: "be16 (rr_count 1) = [0, 1]" by code_simp+
  obtain f0 f1 where f: "response_flags q aa rcode = [f0, f1]"
    using length_2_exD [of "response_flags q aa rcode"] by auto
  have "length (take 2 q) = 2" and "length (take 2 (drop 4 q)) = 2" using assms(1) by simp_all
  then obtain a b c d where ab: "take 2 q = [a, b]" and cd: "take 2 (drop 4 q) = [c, d]"
    using length_2_exD by blast
  have r: "r = [a, b, f0, f1, c, d] @ [0, 0, 0, 0, 0, if has_opt q then 1 else 0] @
      (case qend q of None \<Rightarrow> [] | Some e \<Rightarrow> take (e - 12) (drop 12 q)) @
      (if has_opt q then [0, 0, 41, 4, 208, 0, 0, 0, 0, 0, 0] else [])"
    using z one by (auto simp: r_def reply_def f ab cd qsection_of_def opt_part_def opt_wire_def)
  show "take 2 r = take 2 q" and "take 2 (drop 4 r) = take 2 (drop 4 q)"
    unfolding r ab cd by simp_all
  show "drop 6 r = [0, 0, 0, 0, 0, if has_opt q then 1 else 0] @
      (case qend q of None \<Rightarrow> [] | Some e \<Rightarrow> take (e - 12) (drop 12 q)) @
      (if has_opt q then [0, 0, 41, 4, 208, 0, 0, 0, 0, 0, 0] else [])"
    unfolding r by simp
  have "flags_of r = read_flags (of_be16 f0 f1)" unfolding r flags_of_def by simp
  then show "flags_of r = reply_flags q aa (ucast (take_bit 4 rcode))"
    using read_response_flags [of q aa rcode] assms(1) by (simp add: f)
qed

text \<open>
  C9: what is not served is refused: a query of class IN for a name outside the zone that is none
  of the version names, or a query of another class, gets a reply with QR set, opcode and RD of
  the query, AA, TC and RA clear and RCODE 5 (REFUSED); any other OPCODE gets RCODE 4 (NOTIMP).
  The reply echoes the identifier, the question count and the question; it has no records but the
  OPT record that answers an OPT record of the query.
\<close>

theorem not_served_is_refused:
  assumes "config_wf cr cf" and "12 \<le> length q"
    and "opcode q \<noteq> 0 \<or> query_domain q = Some d \<and> qtypes q = Some (t, c) \<and>
      (c \<noteq> 1 \<or> \<not> in_zone d (cf_glue_name cf) \<and> \<not> is_version_query d)"
  shows "\<exists>r. handle_query_internal cr clk q cf = ret r \<and> take 2 r = take 2 q \<and>
    flags_of r = \<lparr> fl_qr = True, fl_opcode = fl_opcode (flags_of q), fl_aa = False, fl_tc = False,
      fl_rd = fl_rd (flags_of q), fl_ra = False, fl_z = 0, fl_rcode = (if opcode q \<noteq> 0 then 4 else 5) \<rparr> \<and>
    take 2 (drop 4 r) = take 2 (drop 4 q) \<and>
    drop 6 r = [0, 0, 0, 0, 0, if has_opt q then 1 else 0] @
      (case qend q of None \<Rightarrow> [] | Some e \<Rightarrow> take (e - 12) (drop 12 q)) @
      (if has_opt q then [0, 0, 41, 4, 208, 0, 0, 0, 0, 0, 0] else [])"
proof -
  let ?rcode = "if opcode q \<noteq> 0 then RCODE_NOTIMP else RCODE_REFUSED"
  have "handle_query_internal cr clk q cf = ret (reply (response_flags q False ?rcode) q False [] [] [])"
    using assms(2,3) by (auto simp: handle_query_internal_eq [OF assms(1)] outcome_def outcome_bytes_def)
  moreover have "ucast (take_bit 4 ?rcode) = (if opcode q \<noteq> 0 then 4 else 5 :: u16)"
    by simp
  ultimately show ?thesis
    using empty_reply_fields [OF assms(2) refl, of False ?rcode] unfolding reply_flags_def by simp
qed

theorem not_served_is_refused_witness:
  "\<exists>r. handle_query_internal toy_crypto (\<lambda>_. None)
      (question toy_hdr [lit ''google'', lit ''com''] 1 1 []) toy_config = ret r \<and>
    take 2 r = [0x12, 0x34] \<and>
    flags_of r = \<lparr> fl_qr = True, fl_opcode = 0, fl_aa = False, fl_tc = False, fl_rd = True,
                   fl_ra = False, fl_z = 0, fl_rcode = 5 \<rparr> \<and>
    drop 4 r = [0, 1, 0, 0, 0, 0, 0, 0] @ [6, 103, 111, 111, 103, 108, 101, 3, 99, 111, 109, 0, 0, 1, 0, 1]"
proof -
  let ?q = "question toy_hdr [lit ''google'', lit ''com''] 1 1 []"
  have h: "12 \<le> length ?q" and o: "opcode ?q = 0" and d: "query_domain ?q = Some (lit ''google.com'')"
    and t: "qtypes ?q = Some (1, 1)" and v: "\<not> is_version_query (lit ''google.com'')"
    and z: "\<not> in_zone (lit ''google.com'') (cf_glue_name toy_config)"
    and i: "take 2 ?q = [0x12, 0x34]" and n: "take 2 (drop 4 ?q) = [0, 1]"
    and f: "fl_opcode (flags_of ?q) = 0" "fl_rd (flags_of ?q)" and no: "\<not> has_opt ?q"
    and e: "(case qend ?q of None \<Rightarrow> [] | Some e \<Rightarrow> take (e - 12) (drop 12 ?q)) =
      [6, 103, 111, 111, 103, 108, 101, 3, 99, 111, 109, 0, 0, 1, 0, 1]"
    by code_simp+
  obtain r where r: "handle_query_internal toy_crypto (\<lambda>_. None) ?q toy_config = ret r"
    "take 2 r = [0x12, 0x34]"
    "flags_of r = \<lparr> fl_qr = True, fl_opcode = 0, fl_aa = False, fl_tc = False, fl_rd = True,
        fl_ra = False, fl_z = 0, fl_rcode = 5 \<rparr>"
    "take 2 (drop 4 r) = [0, 1]"
    "drop 6 r = [0, 0, 0, 0, 0, 0] @ [6, 103, 111, 111, 103, 108, 101, 3, 99, 111, 109, 0, 0, 1, 0, 1]"
    using not_served_is_refused [OF toy_config_wf h, of "lit ''google.com''" 1 1 "\<lambda>_. None"]
    unfolding i n f(1) e using o d t v z f(2) no by auto
  have "drop 4 r = take 2 (drop 4 r) @ drop 6 r"
    using append_take_drop_id [of 2 "drop 4 r"] by (simp add: numeral_eq_Suc)
  with r show ?thesis by auto
qed

section \<open>Replies with data\<close>

definition config_fit :: "'k crypto \<Rightarrow> 'k config \<Rightarrow> bool" where
  "config_fit cr cf \<longleftrightarrow> params_fit cr (zone_params_of cf False)"

lemma config_fit_params: "config_fit cr cf \<Longrightarrow> params_fit cr (zone_params_of cf d)"
  by (simp add: config_fit_def params_fit_def zone_params_of_def)

lemma zone_records_ok:
  assumes "config_fit cr cf" and "length q \<le> 60000"
  shows "content_ok (zone_records cr q cf domain qtype)"
proof -
  have fit: "params_fit cr (zone_params_of cf (wants_dnssec q))" using assms(1) by (rule config_fit_params)
  have "content_ok (nodata_content q (zone_params_of cf (wants_dnssec q)) types)"
    if "length types \<le> 20" for types
    using nodata_content_ok [OF fit assms(2) that] .
  then show ?thesis
    using apex_content_ok [OF fit assms(2)] address_content_ok [OF fit assms(2)]
    by (auto simp: zone_records_def Let_def split: option.split)
qed

lemma outcome_content_ok:
  assumes "config_fit cr cf" and "length q \<le> 60000" and "outcome cr q cf = Answer sections"
  shows "content_ok sections"
proof -
  have fit: "params_fit cr (zone_params_of cf (wants_dnssec q))" using assms(1) by (rule config_fit_params)
  show ?thesis
    using assms(3) zone_records_ok [OF assms(1,2)] nodata_content_ok [OF fit assms(2), of "[TYPE_TXT]"]
    by (auto simp: outcome_def split: option.splits prod.splits if_splits)
qed

lemma answered_reads_back:
  assumes "config_wf cr cf" and "config_fit cr cf" and "query_hdr hdr" and "qlabels_ok ls"
    and "q = question hdr ls qtype qclass rest" and "length q \<le> 60000"
    and "outcome cr q cf = Answer sections"
  shows "\<exists>r. handle_query_internal cr clk q cf = ret r \<and>
    read_message r = Some (reply_message (response_flags q True RCODE_NOERROR) q
      (sign (zone_params_of cf (wants_dnssec q))) ls qtype qclass
      (signed_sections cr clk q (zone_params_of cf (wants_dnssec q)) sections))"
  using read_answer [OF assms(3-5) config_fit_params [OF assms(2)]
      outcome_content_ok [OF assms(2,6,7)]] assms(7)
  by (simp add: handle_query_internal_eq [OF assms(1)] outcome_bytes_def)

text \<open>
  C3: end to end: under a well-formed configuration whose names and strings fit their wire fields,
  every query with one question (labels of 1 to 63 bytes without zero bytes, at most 60000 bytes
  in all) that the decision answers gets a well-formed message.  Read from its first to its last
  byte it has the identifier of the query; QR and AA set, TC, RA and Z clear, opcode and RD of the
  query, RCODE 0; the question; and in each section exactly the decided records, signed when the
  zone has a key and the client asked, and an OPT record exactly when the query has one.
\<close>

theorem answered_query_reads_back:
  assumes "config_wf cr cf" and "config_fit cr cf" and "query_hdr hdr" and "qlabels_ok ls"
    and "q = question hdr ls qtype qclass rest" and "length q \<le> 60000"
    and "outcome cr q cf = Answer sections"
    and "signed_sections cr clk q (zone_params_of cf (wants_dnssec q)) sections = (an, ns, ar)"
  shows "\<exists>r m. handle_query_internal cr clk q cf = ret r \<and> read_message r = Some m \<and>
    ms_id m = of_be16 (q ! 0) (q ! 1) \<and>
    read_flags (ms_flags m) = \<lparr> fl_qr = True, fl_opcode = fl_opcode (flags_of q), fl_aa = True,
      fl_tc = False, fl_rd = fl_rd (flags_of q), fl_ra = False, fl_z = 0, fl_rcode = 0 \<rparr> \<and>
    ms_question m = (ls, qtype, qclass) \<and>
    ms_answers m = map view an \<and> ms_authority m = map view ns \<and>
    ms_additional m = map view ar @
      (if has_opt q
       then [\<lparr> wr_owner = Some [], wr_typ = 41, wr_class = 1232,
               wr_ttl = (if cf_dnssec cf \<noteq> None \<and> wants_dnssec q then 0x8000 else 0), wr_rdata = [] \<rparr>]
       else [])"
proof -
  have "3 < length q" using assms(3,5) by (simp add: query_hdr_def question_def)
  from read_response_flags [OF this, of True RCODE_NOERROR]
  have f: "read_flags (of_be16 (response_flags q True RCODE_NOERROR ! 0)
      (response_flags q True RCODE_NOERROR ! 1)) = reply_flags q True 0" by simp
  have s: "sign (zone_params_of cf (wants_dnssec q)) \<longleftrightarrow> cf_dnssec cf \<noteq> None \<and> wants_dnssec q"
    by (auto simp: sign_def zone_params_of_def)
  show ?thesis
    using answered_reads_back [OF assms(1-7), of clk] f
    by (auto simp: reply_message_def assms(8) reply_flags_def opt_view_def s)
qed

lemma toy_config_fit: "config_fit toy_crypto toy_config"
  using toy_names_short
  by (auto simp: config_fit_def params_fit_def zone_params_of_def toy_config_def toy_crypto_def min_def)

theorem answered_query_reads_back_witness:
  "let q = question toy_hdr [lit ''NIP'', lit ''nu''] 1 1 [] in
   \<exists>r m. handle_query_internal toy_crypto (\<lambda>_. None) q toy_config = ret r \<and>
     read_message r = Some m \<and> ms_id m = 0x1234 \<and>
     read_flags (ms_flags m) = \<lparr> fl_qr = True, fl_opcode = 0, fl_aa = True, fl_tc = False,
       fl_rd = True, fl_ra = False, fl_z = 0, fl_rcode = 0 \<rparr> \<and>
     ms_question m = ([lit ''NIP'', lit ''nu''], 1, 1) \<and>
     ms_answers m = [\<lparr> wr_owner = None, wr_typ = 1, wr_class = 1, wr_ttl = 60, wr_rdata = [37, 27, 198, 249] \<rparr>] \<and>
     ms_authority m = [] \<and> ms_additional m = []"
proof -
  let ?q = "question toy_hdr [lit ''NIP'', lit ''nu''] 1 1 []"
  let ?s = "([a_rr Question (Ipv4 37 27 198 249)], [], [])"
  have h: "query_hdr toy_hdr" and l: "qlabels_ok [lit ''NIP'', lit ''nu'']" and len: "length ?q \<le> 60000"
    and o: "outcome toy_crypto ?q toy_config = Answer ?s"
    and i: "of_be16 (?q ! 0) (?q ! 1) = 0x1234"
    and f: "fl_opcode (flags_of ?q) = 0" "fl_rd (flags_of ?q)" and no: "\<not> has_opt ?q"
    and s: "signed_sections toy_crypto (\<lambda>_. None) ?q (zone_params_of toy_config (wants_dnssec ?q)) ?s = ?s"
    and v: "map view [a_rr Question (Ipv4 37 27 198 249)] =
      [\<lparr> wr_owner = None, wr_typ = 1, wr_class = 1, wr_ttl = 60, wr_rdata = [37, 27, 198, 249] \<rparr>]"
    by code_simp+
  show ?thesis
    using answered_query_reads_back [OF toy_config_wf toy_config_fit h l refl len o s]
    unfolding Let_def i f(1) v using f(2) no by auto
qed

text \<open>A host name of the zone: none of the names the server treats specially.\<close>

definition host_name :: "'k config \<Rightarrow> rstr \<Rightarrow> bool" where
  "host_name cf d \<longleftrightarrow> in_zone d (cf_glue_name cf) \<and> \<not> is_version_query d \<and>
     \<not> names_eq d (dmarc_owner (cf_glue_name cf)) \<and> \<not> names_eq d (cf_glue_name cf) \<and>
     \<not> is_configured_ns d cf"

lemma host_outcome:
  assumes "opcode q = 0" and "query_domain q = Some d" and "qtypes q = Some (qtype, 1)"
    and "host_name cf d" and "labels_ip (split_on DOT d) = Some ip"
  shows "outcome cr q cf = Answer (address_content q qtype ip (zone_params_of cf (wants_dnssec q)))"
  using assms by (auto simp: outcome_def zone_records_def host_name_def Let_def)

lemma unsigned_sections:
  "\<not> sign p \<Longrightarrow> signed_sections cr clk q p (an, ns, ar) =
     (concat (map sorted_run (runs an)), concat (map sorted_run (runs ns)), concat (map sorted_run (runs ar)))"
  by (simp add: signed_sections_def signed_runs_unsigned)

text \<open>
  The purpose of the server: asked for the A record of a host name of its zone that spells an IPv4
  address, by a client that does not ask for DNSSEC, it decides for one A record with that address.
\<close>

lemma address_sections_of:
  assumes "opcode q = 0" and "query_domain q = Some d" and "qtypes q = Some (TYPE_A, 1)"
    and "host_name cf d" and "\<not> wants_dnssec q" and "interpret_ip d = ret (Some (Some ip, v6))"
  obtains sections where "outcome cr q cf = Answer sections"
    and "signed_sections cr clk q (zone_params_of cf (wants_dnssec q)) sections = ([a_rr Question ip], [], [])"
proof -
  let ?p = "zone_params_of cf (wants_dnssec q)"
  have "labels_ip (split_on DOT d) = Some (Some ip, v6)"
    using assms(6) by (simp add: interpret_ip_eq)
  then have o: "outcome cr q cf = Answer (address_content q TYPE_A (Some ip, v6) ?p)"
    using host_outcome [OF assms(1-4)] by simp
  have no: "\<not> sign ?p" using assms(5) by (simp add: sign_def zone_params_of_def)
  have run: "concat (map sorted_run (runs [a_rr Question ip])) = [a_rr Question ip]"
    by (simp add: runs_def add_run_def sorted_run_def)
  have "runs [] = []" by (simp add: runs_def)
  then have "signed_sections cr clk q ?p (address_content q TYPE_A (Some ip, v6) ?p) =
      ([a_rr Question ip], [], [])"
    by (simp add: address_content_def address_answers_def if_some_def unsigned_sections [OF no] run)
  with o show ?thesis by (rule that)
qed

lemma address_sections:
  assumes "query_hdr hdr" and "opcode q = 0" and "qlabels_ok ls" and "utf8_labels ls" and "ls \<noteq> []"
    and "q = question hdr ls TYPE_A 1 rest" and "host_name cf (join_with [DOT] ls)" and "\<not> wants_dnssec q"
    and "interpret_ip (join_with [DOT] ls) = ret (Some (Some ip, v6))"
  obtains sections where "outcome cr q cf = Answer sections"
    and "signed_sections cr clk q (zone_params_of cf (wants_dnssec q)) sections = ([a_rr Question ip], [], [])"
proof -
  have hdr: "length hdr = 12" using assms(1) by (simp add: query_hdr_def)
  show ?thesis
    using address_sections_of [OF assms(2) _ _ assms(7-9) that]
      query_domain_question [OF assms(1,4,5)] qtypes_question [OF hdr assms(3)] assms(6) by simp
qed

lemma length_a_rr: "length (rr_wire (a_rr Question ip)) = 16"
  by (cases ip) (simp add: rr_wire_def write_rr_def a_rr_def)

lemma address_answered:
  assumes "config_wf cr cf" and "config_fit cr cf" and "query_hdr hdr" and "opcode q = 0"
    and "qlabels_ok ls" and "utf8_labels ls" and "ls \<noteq> []"
    and "q = question hdr ls TYPE_A 1 rest" and "length q \<le> 60000"
    and "host_name cf (join_with [DOT] ls)" and "\<not> wants_dnssec q"
    and "interpret_ip (join_with [DOT] ls) = ret (Some (Some ip, v6))"
  shows "\<exists>r m. handle_query_internal cr clk q cf = ret r \<and> length r \<le> length q + 27 \<and>
    read_message r = Some m \<and>
    ms_id m = of_be16 (q ! 0) (q ! 1) \<and> ms_question m = (ls, TYPE_A, 1) \<and>
    ms_answers m = [\<lparr> wr_owner = None, wr_typ = TYPE_A, wr_class = 1, wr_ttl = 60,
                       wr_rdata = octets4 ip \<rparr>] \<and>
    ms_authority m = [] \<and> ms_additional m = (if has_opt q then [opt_view False] else [])"
proof -
  obtain sections where o: "outcome cr q cf = Answer sections"
    and s: "signed_sections cr clk q (zone_params_of cf (wants_dnssec q)) sections = ([a_rr Question ip], [], [])"
    using address_sections [OF assms(3-8,10-12)] .
  have no: "\<not> sign (zone_params_of cf (wants_dnssec q))"
    using assms(11) by (simp add: sign_def zone_params_of_def)
  have hdr: "length hdr = 12" using assms(3) by (simp add: query_hdr_def)
  obtain e where e: "qend q = Some e"
    using qend_question [OF hdr assms(5)] assms(8) by simp
  have "length (outcome_bytes cr clk q cf (outcome cr q cf)) \<le> length q + 27"
    using qsection_length [OF e] qend_bounds [OF e]
    by (auto simp: o outcome_bytes_def answer_def e s reply_def length_a_rr opt_part_def length_reply_part min_def)
  with answered_reads_back [OF assms(1-3,5,8,9) o, of clk, unfolded s] no
  show ?thesis
    by (auto simp: handle_query_internal_eq [OF assms(1)] reply_message_def view_def a_rr_def)
qed

lemma handle_query_fits:
  assumes "config_wf cr cf" and "handle_query_internal cr clk q cf = ret r" and "r \<noteq> []"
    and "length r \<le> 512"
  shows "handle_query cr clk q cf = ret (Some r)"
  using assms udp_limit_bounds [of q]
  by (auto simp: handle_query_eq [OF assms(1)] handle_query_internal_eq [OF assms(1)] Let_def)

section \<open>Every reply echoes its query\<close>

text \<open>
  What every reply shares with its query, as bytes: the identifier, QR set, opcode and RD, one
  question, and that question.
\<close>

definition echoes :: "bytes \<Rightarrow> rstr list \<Rightarrow> u16 \<Rightarrow> u16 \<Rightarrow> bytes \<Rightarrow> bool" where
  "echoes q ls t c r \<longleftrightarrow>
     take 2 r = take 2 q \<and> fl_qr (flags_of r) \<and> fl_opcode (flags_of r) = fl_opcode (flags_of q) \<and>
     fl_rd (flags_of r) = fl_rd (flags_of q) \<and> take 2 (drop 4 r) = [0, 1] \<and>
     take (length (enc_labels ls) + 4) (drop 12 r) = enc_labels ls @ be16 t @ be16 c"

lemma reply_echoes:
  assumes "query_hdr hdr" and "qlabels_ok ls" and q: "q = question hdr ls t c rest"
  shows "echoes q ls t c (reply (response_flags q aa rcode) q d an ns ar)"
proof -
  have hdr: "length hdr = 12" using assms(1) by (simp add: query_hdr_def)
  obtain f0 f1 where f: "response_flags q aa rcode = [f0, f1]"
    using length_2_exD [of "response_flags q aa rcode"] by auto
  have "length (take 2 q) = 2" using hdr by (simp add: q question_def)
  then obtain a b where ab: "take 2 q = [a, b]" using length_2_exD by blast
  have qd: "take 2 (drop 4 q) = [0, 1]"
    using assms(1) hdr by (simp add: q question_def query_hdr_def)
  have sec: "qsection_of q = enc_labels ls @ be16 t @ be16 c"
    using qsection_of_question [OF hdr assms(2)] by (simp add: q)
  obtain n x where r: "reply (response_flags q aa rcode) q d an ns ar =
      [a, b, f0, f1, 0, 1] @ n @ (enc_labels ls @ be16 t @ be16 c) @ x" and n: "length n = 6"
  proof
    show "reply (response_flags q aa rcode) q d an ns ar = [a, b, f0, f1, 0, 1] @
        (be16 (rr_count (length an)) @ be16 (rr_count (length ns)) @
         be16 (rr_count (length ar + (if has_opt q then 1 else 0)))) @
        (enc_labels ls @ be16 t @ be16 c) @ wires (an @ ns @ ar) @ opt_part q d"
      by (simp add: reply_def f ab qd sec)
  qed simp
  have "3 < length q" using hdr by (simp add: q question_def)
  from read_response_flags [OF this, of aa rcode]
  have ff: "read_flags (of_be16 f0 f1) = reply_flags q aa (ucast (take_bit 4 rcode))"
    by (simp add: f)
  have "flags_of (reply (response_flags q aa rcode) q d an ns ar) =
      reply_flags q aa (ucast (take_bit 4 rcode))"
    unfolding flags_of_def r by (simp add: ff)
  moreover have "drop 12 (reply (response_flags q aa rcode) q d an ns ar) =
      (enc_labels ls @ be16 t @ be16 c) @ x"
    unfolding r using n by (simp add: drop_append)
  moreover have "take 2 (reply (response_flags q aa rcode) q d an ns ar) = take 2 q"
    and "take 2 (drop 4 (reply (response_flags q aa rcode) q d an ns ar)) = [0, 1]"
    unfolding r by (simp_all add: ab)
  ultimately show ?thesis by (simp add: echoes_def reply_flags_def)
qed

lemma truncated_echoes:
  assumes "query_hdr hdr" and "qlabels_ok ls" and q: "q = question hdr ls t c rest"
    and "echoes q ls t c r" and "4 \<le> length r"
  shows "echoes q ls t c (truncated r q)"
proof -
  have hdr: "length hdr = 12" using assms(1) by (simp add: query_hdr_def)
  have sec: "qsection_of q = enc_labels ls @ be16 t @ be16 c"
    using qsection_of_question [OF hdr assms(2)] by (simp add: q)
  have qd: "take 2 (drop 4 q) = [0, 1]"
    using assms(1) hdr by (simp add: q question_def query_hdr_def)
  obtain a b f0 f1 x where r: "r = a # b # f0 # f1 # x"
    using assms(5) by (auto simp: numeral_eq_Suc Suc_le_length_iff)
  obtain o1 y where t: "truncated r q =
      [a, b, f0 OR 2, f1, 0, 1, 0, 0, 0, 0, 0, o1] @ (enc_labels ls @ be16 t @ be16 c) @ y"
    by (auto simp: truncated_def sec qd) (simp add: r get0_def)
  have tc: "flags_of (truncated r q) = (flags_of r)\<lparr>fl_tc := True\<rparr>"
    unfolding t by (simp add: flags_of_def r read_flags_tc)
  show ?thesis
    using assms(4) unfolding echoes_def tc unfolding t by (simp add: r)
qed

text \<open>No well-formed query is dropped, and every reply echoes it, also over UDP.\<close>

lemma outcome_bytes_reply:
  assumes "12 \<le> length q" and "qend q = Some e" and "out \<noteq> Drop"
  obtains aa rcode d an ns ar where
    "outcome_bytes cr clk q cf out = reply (response_flags q aa rcode) q d an ns ar"
proof (cases out)
  case (Answer s)
  obtain an ns ar where "signed_sections cr clk q (zone_params_of cf (wants_dnssec q)) s = (an, ns, ar)"
    by (cases "signed_sections cr clk q (zone_params_of cf (wants_dnssec q)) s")
  then show ?thesis using that assms(2) by (simp add: Answer outcome_bytes_def answer_def)
qed (use assms that in \<open>simp_all add: outcome_bytes_def\<close>)

lemma query_echoed:
  assumes "config_wf cr cf" and "query_hdr hdr" and "qlabels_ok ls" and "utf8_labels ls" and "ls \<noteq> []"
    and q: "q = question hdr ls t c rest"
  obtains r r' where "handle_query_internal cr clk q cf = ret r" and "echoes q ls t c r"
    and "handle_query cr clk q cf = ret (Some r')" and "echoes q ls t c r'"
proof -
  have hdr: "length hdr = 12" using assms(2) by (simp add: query_hdr_def)
  have d: "query_domain q = Some (join_with [DOT] ls)" and t: "qtypes q = Some (t, c)"
    using query_domain_question [OF assms(2,4,5)] qtypes_question [OF hdr assms(3)] by (simp_all add: q)
  obtain e where e: "qend q = Some e" using qend_question [OF hdr assms(3)] by (simp add: q)
  have len: "12 \<le> length q" using hdr by (simp add: q question_def)
  let ?o = "outcome cr q cf" and ?r = "outcome_bytes cr clk q cf (outcome cr q cf)"
  have "?o \<noteq> Drop" by (simp add: outcome_def d t)
  then obtain aa rcode dd an ns ar where "?r = reply (response_flags q aa rcode) q dd an ns ar"
    using outcome_bytes_reply [OF len e] by metis
  then have r: "echoes q ls t c ?r" using reply_echoes [OF assms(2,3) q] by simp
  have "take 2 q \<noteq> []" using len by auto
  then have ne: "?r \<noteq> []" using r by (auto simp: echoes_def)
  have four: "4 \<le> length ?r" if "udp_limit q < length ?r"
    using that udp_limit_bounds [of q] by linarith
  let ?r' = "if length ?r \<le> udp_limit q then ?r else truncated ?r q"
  have "echoes q ls t c ?r'" using truncated_echoes [OF assms(2,3) q r] r four by simp
  moreover have "handle_query cr clk q cf = ret (Some ?r')"
    using ne e by (auto simp: handle_query_eq [OF assms(1)] Let_def)
  ultimately show ?thesis using that [OF handle_query_internal_eq [OF assms(1)] r] by blast
qed

section \<open>Unusual labels\<close>

text \<open>
  \<open>parse_query\<close> does not keep label boundaries: a label that contains a dot byte is read as two
  labels, so a client can spell the dotted address 10.0.0.1 in a single label.
\<close>

theorem dot_in_label_conflated:
  assumes "query_hdr hdr" and "utf8_labels (us @ (a @ DOT # b) # vs)" and "utf8_labels (us @ a # b # vs)"
  shows "parse_query (question hdr (us @ (a @ DOT # b) # vs) qtype qclass rest) =
    parse_query (question hdr (us @ a # b # vs) qtype qclass rest)"
proof -
  have "join_with [DOT] (us @ (a @ DOT # b) # vs) = join_with [DOT] (us @ a # b # vs)"
  proof (induction us)
    case Nil
    then show ?case by (cases vs) simp_all
  next
    case (Cons u us)
    then show ?case by (simp add: join_with_Cons)
  qed
  then show ?thesis
    using query_domain_question [OF assms(1,2)] query_domain_question [OF assms(1,3)]
    by (simp add: parse_query_eq)
qed

theorem dot_in_label_conflated_witness:
  "parse_query (question toy_hdr [lit ''a.b'', lit ''nu''] 1 1 []) =
   parse_query (question toy_hdr [lit ''a'', lit ''b'', lit ''nu''] 1 1 [])"
proof -
  have "query_hdr toy_hdr" and "utf8_labels ([] @ (lit ''a'' @ DOT # lit ''b'') # [lit ''nu''])"
    and "utf8_labels ([] @ lit ''a'' # lit ''b'' # [lit ''nu''])"
    by code_simp+
  from dot_in_label_conflated [OF this, of 1 1 "[]"] show ?thesis by (simp add: lit_def)
qed

lemma zero_byte_cut:
  assumes hdr: "length hdr = 12" and l: "l \<in> set ls" "0 \<in> set l"
  obtains e where "qend (question hdr ls t c rest) = Some e" and "e < 16 + length (enc_labels ls)"
proof -
  let ?body = "concat (map enc_label ls)"
  have enc: "enc_labels ls = ?body @ [0]" by (simp add: enc_labels_def)
  have "0 \<in> set ?body" using l by (auto simp: enc_label_def)
  then obtain ys zs where b: "?body = ys @ 0 # zs" "0 \<notin> set ys" by (metis split_list_first)
  have "qend (question hdr ls t c rest) = Some (length ys + 17)"
    using hdr by (simp add: qend_def question_def enc b position0_append)
  moreover have "length ys + 17 < 16 + length (enc_labels ls)" by (simp add: enc b)
  ultimately show ?thesis by (rule that)
qed

text \<open>
  C38: \<open>question_section_end\<close> looks for the first zero byte while \<open>parse_query\<close> walks the labels, so
  they disagree on every name with a zero byte in a label: the question the server reads its
  type from, and echoes, ends inside the name.  When the four bytes after the zero spell A and IN
  and the name is a host name with an IPv4 address, the server resolves the whole name and
  replies with AA and NOERROR, but the answer record starts where the echoed question is cut, and
  whatever a client reads in the reply is not the question it asked.
\<close>

theorem zero_byte_label_malformed:
  assumes "config_wf cr cf" and "query_hdr hdr" and "utf8_labels ls" and "l \<in> set ls" and "0 \<in> set l"
    and "q = question hdr ls TYPE_A 1 rest" and "opcode q = 0" and "qtypes q = Some (TYPE_A, 1)"
    and "host_name cf (join_with [DOT] ls)" and "\<not> wants_dnssec q"
    and "interpret_ip (join_with [DOT] ls) = ret (Some (Some ip, v6))"
  shows "\<exists>e r. parse_query q = ret (Some (join_with [DOT] ls)) \<and>
    qend q = Some e \<and> e < 16 + length (enc_labels ls) \<and>
    handle_query_internal cr clk q cf = ret r \<and>
    flags_of r = \<lparr> fl_qr = True, fl_opcode = fl_opcode (flags_of q), fl_aa = True, fl_tc = False,
      fl_rd = fl_rd (flags_of q), fl_ra = False, fl_z = 0, fl_rcode = 0 \<rparr> \<and>
    take 16 (drop e r) = rr_wire (a_rr Question ip) \<and>
    (\<forall>m. read_message r = Some m \<longrightarrow> ms_question m \<noteq> (ls, TYPE_A, 1))"
proof -
  let ?f = "response_flags q True RCODE_NOERROR" and ?w = "rr_wire (a_rr Question ip)"
  have hdr: "length hdr = 12" using assms(2) by (simp add: query_hdr_def)
  have "ls \<noteq> []" using assms(4) by auto
  then have d: "query_domain q = Some (join_with [DOT] ls)"
    using query_domain_question [OF assms(2,3)] assms(6) by simp
  obtain e where e: "qend q = Some e" "e < 16 + length (enc_labels ls)"
    using zero_byte_cut [OF hdr assms(4,5)] assms(6) by blast
  obtain sections where o: "outcome cr q cf = Answer sections"
    and s: "signed_sections cr clk q (zone_params_of cf (wants_dnssec q)) sections = ([a_rr Question ip], [], [])"
    using address_sections_of [OF assms(7) d assms(8-11)] .
  define r where "r = reply ?f q (sign (zone_params_of cf (wants_dnssec q))) [a_rr Question ip] [] []"
  have h: "handle_query_internal cr clk q cf = ret r"
    by (simp add: handle_query_internal_eq [OF assms(1)] o outcome_bytes_def answer_def e s r_def)
  have b: "17 \<le> e" "e \<le> length q" using qend_bounds [OF e(1)] by simp_all
  have len: "length (take 2 q) = 2" "length (take 2 (drop 4 q)) = 2" "length ?f = 2"
    "length (qsection_of q) = e - 12" "length ?w = 16"
    using b qsection_length [OF e(1)] by (simp_all add: length_a_rr)
  obtain pre x where r: "r = pre @ qsection_of q @ ?w @ x" and pre: "length pre = 12"
    "pre ! 2 = ?f ! 0" "pre ! 3 = ?f ! 1"
  proof
    show "r = (take 2 q @ ?f @ take 2 (drop 4 q) @ be16 (rr_count 1) @ be16 (rr_count 0) @
        be16 (rr_count (if has_opt q then 1 else 0))) @ qsection_of q @ ?w @
        opt_part q (sign (zone_params_of cf (wants_dnssec q)))"
      by (simp add: r_def reply_def wires_def)
  qed (use len in \<open>simp_all add: nth_append\<close>)
  have "drop 12 r = qsection_of q @ ?w @ x" by (simp add: r pre)
  have "flags_of r = reply_flags q True 0"
    using read_response_flags [of q True RCODE_NOERROR] b
    by (simp add: flags_of_def r nth_append pre)
  moreover have "take 16 (drop e r) = ?w" using b by (simp add: r pre(1) len)
  moreover have "ms_question m \<noteq> (ls, TYPE_A, 1)" if m: "read_message r = Some m" for m
  proof
    assume "ms_question m = (ls, TYPE_A, 1)"
    then obtain y where y: "drop 12 r = enc_labels ls @ be16 TYPE_A @ be16 1 @ y"
      using read_message_question [OF m] by blast
    have "drop 12 r ! (e - 12) = 0xC0"
      using b by (simp add: r pre(1) nth_append len) (simp add: rr_wire_def write_rr_def a_rr_def)
    moreover have "drop 12 r ! (e - 12) \<in> set (enc_labels ls @ be16 TYPE_A @ be16 1)"
      unfolding y using e(2) b by (simp add: nth_append)
    ultimately have "0xC0 \<in> set (enc_labels ls @ be16 TYPE_A @ be16 1)" by simp
    moreover have "0xC0 \<notin> set (enc_label x)" if x: "x \<in> set ls" for x
    proof -
      have ok: "label_ok x" "utf8_valid x" using assms(3) x by (simp_all add: utf8_labels_def)
      then have "unat (of_nat (length x) :: byte) \<noteq> unat (0xC0 :: byte)"
        using label_ok_length [of x] by (simp add: label_ok_def)
      then have "of_nat (length x) \<noteq> (0xC0 :: byte)" by metis
      then show ?thesis using utf8_no_C0 [OF ok(2)] by (auto simp: enc_label_def)
    qed
    then have "0xC0 \<notin> set (enc_labels ls)" by (auto simp: enc_labels_def)
    ultimately show False by (simp add: be16_def)
  qed
  ultimately show ?thesis
    using h d e unfolding reply_flags_def by (auto simp: parse_query_eq)
qed

theorem zero_byte_label_malformed_witness:
  "let q = question toy_hdr [lit ''10-0-0-1'', [0, 0, 1, 0, 1], lit ''nip'', lit ''nu''] 1 1 [] in
   \<exists>r. handle_query_internal toy_crypto (\<lambda>_. None) q toy_config = ret r \<and> length q = 39 \<and> qend q = Some 27 \<and>
     flags_of r = \<lparr> fl_qr = True, fl_opcode = 0, fl_aa = True, fl_tc = False, fl_rd = True,
                    fl_ra = False, fl_z = 0, fl_rcode = 0 \<rparr> \<and>
     (\<forall>m. read_message r = Some m \<longrightarrow>
        ms_question m \<noteq> ([lit ''10-0-0-1'', [0, 0, 1, 0, 1], lit ''nip'', lit ''nu''], 1, 1))"
proof -
  let ?ls = "[lit ''10-0-0-1'', [0, 0, 1, 0, 1], lit ''nip'', lit ''nu'']"
  let ?q = "question toy_hdr ?ls TYPE_A 1 []"
  have a: "query_hdr toy_hdr" "utf8_labels ?ls" "[0, 0, 1, 0, 1] \<in> set ?ls" "(0 :: byte) \<in> set [0, 0, 1, 0, 1]"
    and b: "opcode ?q = 0" "qtypes ?q = Some (TYPE_A, 1)" "host_name toy_config (join_with [DOT] ?ls)"
    "\<not> wants_dnssec ?q"
    and i: "interpret_ip (join_with [DOT] ?ls) = ret (Some (Some (Ipv4 10 0 0 1), None))"
    and f: "fl_opcode (flags_of ?q) = 0" "fl_rd (flags_of ?q) = True" and l: "length ?q = 39" "qend ?q = Some 27"
    by code_simp+
  show ?thesis
    using zero_byte_label_malformed [OF toy_config_wf a refl b i, of "\<lambda>_. None"] l
    unfolding f by (auto simp: Let_def)
qed
end
