(* ===== verification/Machines.thy ===== *)
theory Machines
  imports Main
begin

text \<open>
  Deterministic machines with outputs, run over a list of events, and the interface of a timed
  simulation: a detailed machine that gives the outputs of an abstract one as long as the times
  of the events do not run backwards.
\<close>

fun run :: "('s \<Rightarrow> 'e \<Rightarrow> 'o \<times> 's) \<Rightarrow> 's \<Rightarrow> 'e list \<Rightarrow> 'o list \<times> 's" where
  "run step s [] = ([], s)"
| "run step s (e # es) =
     (let (out, s') = step s e; (outs, s'') = run step s' es in (out # outs, s''))"

abbreviation outputs :: "('s \<Rightarrow> 'e \<Rightarrow> 'o \<times> 's) \<Rightarrow> 's \<Rightarrow> 'e list \<Rightarrow> 'o list" where
  "outputs step s es \<equiv> fst (run step s es)"

abbreviation final :: "('s \<Rightarrow> 'e \<Rightarrow> 'o \<times> 's) \<Rightarrow> 's \<Rightarrow> 'e list \<Rightarrow> 's" where
  "final step s es \<equiv> snd (run step s es)"

lemma run_Cons_simps [simp]:
  "outputs step s (e # es) = fst (step s e) # outputs step (snd (step s e)) es"
  "final step s (e # es) = final step (snd (step s e)) es"
  by (simp_all add: case_prod_unfold Let_def)

lemma length_outputs [simp]: "length (outputs step s es) = length es"
  by (induction es arbitrary: s) (simp_all del: run.simps(2))

lemma outputs_append: "outputs step s (es @ es') = outputs step s es @ outputs step (final step s es) es'"
  by (induction es arbitrary: s) (simp_all del: run.simps(2))

text \<open>An invariant kept by every step holds after every run.\<close>

locale kept =
  fixes step :: "'s \<Rightarrow> 'e \<Rightarrow> 'o \<times> 's"
    and inv :: "'s \<Rightarrow> bool"
  assumes step_keeps: "inv s \<Longrightarrow> inv (snd (step s e))"
begin

lemma run_keeps: "inv s \<Longrightarrow> inv (final step s es)"
  by (induction es arbitrary: s) (simp_all add: step_keeps del: run.simps(2))

end

text \<open>Times that start at \<open>n\<close> or later and do not decrease.\<close>

fun ordered :: "('e \<Rightarrow> nat) \<Rightarrow> nat \<Rightarrow> 'e list \<Rightarrow> bool" where
  "ordered time n [] = True"
| "ordered time n (e # es) \<longleftrightarrow> n \<le> time e \<and> ordered time (time e) es"

lemma ordered_earlier: "ordered time n es \<Longrightarrow> m \<le> n \<Longrightarrow> ordered time m es"
  by (cases es) auto

lemma ordered_from: "ordered time n es \<Longrightarrow> e \<in> set es \<Longrightarrow> n \<le> time e"
  by (induction es arbitrary: n) fastforce+

lemma ordered_filter: "ordered time n es \<Longrightarrow> ordered time n (filter P es)"
  by (induction es arbitrary: n) (auto intro: ordered_earlier)

lemma ordered_map: "ordered time n (map f es) = ordered (\<lambda>e. time (f e)) n es"
  by (induction es arbitrary: n) auto

locale timed_simulation =
  fixes cstep :: "'c \<Rightarrow> 'e \<Rightarrow> 'o \<times> 'c"
    and astep :: "'a \<Rightarrow> 'e \<Rightarrow> 'o \<times> 'a"
    and time :: "'e \<Rightarrow> nat"
    and rel :: "nat \<Rightarrow> 'c \<Rightarrow> 'a \<Rightarrow> bool"
  assumes simulates: "rel n c a \<Longrightarrow> n \<le> time e \<Longrightarrow>
    fst (cstep c e) = fst (astep a e) \<and> rel (time e) (snd (cstep c e)) (snd (astep a e))"
begin

lemma same_outputs:
  "rel n c a \<Longrightarrow> ordered time n es \<Longrightarrow> outputs cstep c es = outputs astep a es"
proof (induction es arbitrary: n c a)
  case (Cons e es)
  have "fst (cstep c e) = fst (astep a e)" and "rel (time e) (snd (cstep c e)) (snd (astep a e))"
    using simulates [of n c a e] Cons.prems by simp_all
  moreover from this(2) have "outputs cstep (snd (cstep c e)) es = outputs astep (snd (astep a e)) es"
    by (rule Cons.IH) (use Cons.prems in simp)
  ultimately show ?case by (simp del: run.simps(2))
qed simp

end

end
