(* ===== verification/Rate_Limit.thy ===== *)
theory Rate_Limit
  imports Machines Net_Addr "HOL-Library.AList"
begin

text \<open>
  \<open>src/rate_limit.rs\<close>: the fixed-window rate limiter.  Instants and durations are natural numbers
  of nanoseconds; \<open>duration_since\<close> saturates at zero, as natural subtraction does.  The hash map
  is an association list with distinct keys.  A call of \<open>check\<close> holds the lock from the first use
  of the map to its end, so concurrent calls are a sequence of steps in the order of the lock;
  the instant is read before the lock is taken and is an argument of the step.  A poisoned lock
  is used like a sound one.
\<close>

section \<open>The program\<close>

datatype ip_addr = V4 ipv4 | V6 ipv6

record bucket =
  bk_window_start :: nat
  bk_count :: u32

record limiter =
  rl_window :: nat
  rl_max_requests :: u32
  rl_state :: "(ip_addr \<times> bucket) list"

definition rate_limiter_new :: "nat \<Rightarrow> u32 \<Rightarrow> limiter" where
  "rate_limiter_new window_seconds max_requests =
     \<lparr> rl_window = window_seconds * 1000000000, rl_max_requests = max_requests, rl_state = [] \<rparr>"

definition is_enabled :: "limiter \<Rightarrow> bool" where
  "is_enabled rl \<longleftrightarrow> 0 < rl_max_requests rl \<and> rl_window rl \<noteq> 0"

definition check :: "limiter \<Rightarrow> nat \<times> ip_addr \<Rightarrow> bool \<times> limiter" where
  "check rl e = (
     let (now, ip) = e in
     if \<not> is_enabled rl then (True, rl)
     else
       let state = rl_state rl;
           state = (if 1024 < length state
                    then filter (\<lambda>(_, b). now - bk_window_start b < rl_window rl) state
                    else state);
           bucket = (case map_of state ip of
                       Some b \<Rightarrow> b
                     | None \<Rightarrow> \<lparr> bk_window_start = now, bk_count = 0 \<rparr>)
       in if rl_window rl \<le> now - bk_window_start bucket
          then (True, rl\<lparr>rl_state := AList.update ip \<lparr> bk_window_start = now, bk_count = 1 \<rparr> state\<rparr>)
          else if rl_max_requests rl \<le> bk_count bucket
          then (False, rl\<lparr>rl_state := AList.update ip bucket state\<rparr>)
          else (True, rl\<lparr>rl_state := AList.update ip (bucket\<lparr>bk_count := bk_count bucket + 1\<rparr>) state\<rparr>))"

section \<open>The limiter without pruning\<close>

text \<open>The abstract limiter: a bucket per address, never removed.\<close>

record window_state =
  ws_window :: nat
  ws_max :: nat
  ws_buckets :: "ip_addr \<Rightarrow> (nat \<times> nat) option"

text \<open>What one address gets: the decision and its next bucket.\<close>

definition grant :: "nat \<Rightarrow> nat \<Rightarrow> (nat \<times> nat) option \<Rightarrow> nat \<Rightarrow> bool \<times> (nat \<times> nat) option" where
  "grant w mx b now =
     (if w = 0 \<or> mx = 0 then (True, b)
      else case b of
        None \<Rightarrow> (True, Some (now, 1))
      | Some (start, c) \<Rightarrow>
          if w \<le> now - start then (True, Some (now, 1))
          else if mx \<le> c then (False, Some (start, c))
          else (True, Some (start, c + 1)))"

definition window_check :: "window_state \<Rightarrow> nat \<times> ip_addr \<Rightarrow> bool \<times> window_state" where
  "window_check ws e =
     (let (now, ip) = e; (ok, b) = grant (ws_window ws) (ws_max ws) (ws_buckets ws ip) now
      in (ok, ws\<lparr>ws_buckets := (ws_buckets ws)(ip := b)\<rparr>))"

section \<open>The simulation\<close>

definition bucket_view :: "bucket \<Rightarrow> nat \<times> nat" where
  "bucket_view b = (bk_window_start b, unat (bk_count b))"

text \<open>
  At time \<open>n\<close> the detailed limiter has the buckets of the abstract one, except that it may have
  dropped expired ones.
\<close>

fun same_bucket :: "nat \<Rightarrow> nat \<Rightarrow> bucket option \<Rightarrow> (nat \<times> nat) option \<Rightarrow> bool" where
  "same_bucket n w (Some b) a \<longleftrightarrow> a = Some (bucket_view b)"
| "same_bucket n w None None \<longleftrightarrow> True"
| "same_bucket n w None (Some (start, c)) \<longleftrightarrow> w \<le> n - start"

definition limiter_wf :: "limiter \<Rightarrow> bool" where
  "limiter_wf rl \<longleftrightarrow> distinct (map fst (rl_state rl)) \<and>
     list_all (\<lambda>(_, b). bk_count b \<le> rl_max_requests rl) (rl_state rl)"

definition agrees :: "nat \<Rightarrow> limiter \<Rightarrow> window_state \<Rightarrow> bool" where
  "agrees n rl ws \<longleftrightarrow>
     ws_window ws = rl_window rl \<and> ws_max ws = unat (rl_max_requests rl) \<and> limiter_wf rl \<and>
     (\<forall>ip. same_bucket n (rl_window rl) (map_of (rl_state rl) ip) (ws_buckets ws ip))"

lemma map_of_filter_distinct:
  assumes "distinct (map fst xs)"
  shows "map_of (filter (\<lambda>(_, b). P b) xs) k =
     (case map_of xs k of Some b \<Rightarrow> if P b then Some b else None | None \<Rightarrow> None)"
  using assms
proof (induction xs)
  case (Cons x xs)
  obtain k' b where x: "x = (k', b)" by (cases x)
  have "k' \<notin> fst ` set xs" using Cons.prems x by simp
  then have "map_of xs k' = None" and "map_of (filter (\<lambda>(_, b). P b) xs) k' = None"
    by (auto simp: map_of_eq_None_iff)
  with Cons x show ?case by (cases "k = k'") simp_all
qed simp

definition prune :: "nat \<Rightarrow> limiter \<Rightarrow> limiter" where
  "prune now rl =
     (if 1024 < length (rl_state rl)
      then rl\<lparr>rl_state := filter (\<lambda>(_, b). now - bk_window_start b < rl_window rl) (rl_state rl)\<rparr>
      else rl)"

lemma prune_simps [simp]:
  "rl_window (prune now rl) = rl_window rl" "rl_max_requests (prune now rl) = rl_max_requests rl"
  "is_enabled (prune now rl) = is_enabled rl"
  by (simp_all add: prune_def is_enabled_def)

text \<open>The step after pruning.\<close>

definition count_request :: "limiter \<Rightarrow> nat \<Rightarrow> ip_addr \<Rightarrow> bool \<times> limiter" where
  "count_request rl now ip = (
     let bucket = (case map_of (rl_state rl) ip of
                     Some b \<Rightarrow> b
                   | None \<Rightarrow> \<lparr> bk_window_start = now, bk_count = 0 \<rparr>);
         put = (\<lambda>b. rl\<lparr>rl_state := AList.update ip b (rl_state rl)\<rparr>)
     in if rl_window rl \<le> now - bk_window_start bucket
        then (True, put \<lparr> bk_window_start = now, bk_count = 1 \<rparr>)
        else if rl_max_requests rl \<le> bk_count bucket then (False, put bucket)
        else (True, put (bucket\<lparr>bk_count := bk_count bucket + 1\<rparr>)))"

lemma check_eq:
  "check rl (now, ip) = (if is_enabled rl then count_request (prune now rl) now ip else (True, rl))"
  by (simp add: check_def count_request_def prune_def Let_def)

lemma same_bucket_later: "same_bucket n w b a \<Longrightarrow> n \<le> now \<Longrightarrow> same_bucket now w b a"
  by (induction n w b a rule: same_bucket.induct) auto

lemma agrees_later: "agrees n rl ws \<Longrightarrow> n \<le> now \<Longrightarrow> agrees now rl ws"
  unfolding agrees_def using same_bucket_later by blast

lemma limiter_wf_prune: "limiter_wf rl \<Longrightarrow> limiter_wf (prune now rl)"
  by (simp add: limiter_wf_def prune_def distinct_map_filter list_all_iff)

lemma same_bucket_drop:
  "same_bucket now w b a \<Longrightarrow>
    same_bucket now w (case b of Some b \<Rightarrow> if now - bk_window_start b < w then Some b else None | None \<Rightarrow> None) a"
  by (cases b) (simp_all add: bucket_view_def)

lemma agrees_prune:
  assumes "agrees now rl ws"
  shows "agrees now (prune now rl) ws"
proof (cases "1024 < length (rl_state rl)")
  case True
  have wf: "limiter_wf rl" and same: "same_bucket now (rl_window rl) (map_of (rl_state rl) ip) (ws_buckets ws ip)" for ip
    using assms by (simp_all add: agrees_def)
  have d: "distinct (map fst (rl_state rl))" using wf by (simp add: limiter_wf_def)
  have "same_bucket now (rl_window rl) (map_of (rl_state (prune now rl)) ip) (ws_buckets ws ip)" for ip
    using same_bucket_drop [OF same [of ip]] True by (simp add: prune_def map_of_filter_distinct [OF d])
  with assms limiter_wf_prune [OF wf] show ?thesis by (simp add: agrees_def)
next
  case False
  with assms show ?thesis by (simp add: prune_def)
qed

lemma list_all_update: "P (k, v) \<Longrightarrow> list_all P xs \<Longrightarrow> list_all P (AList.update k v xs)"
  by (induction xs) auto

lemma limiter_wf_put:
  assumes "limiter_wf rl" and "bk_count b \<le> rl_max_requests rl"
  shows "limiter_wf (rl\<lparr>rl_state := AList.update ip b (rl_state rl)\<rparr>)"
  using assms by (simp add: limiter_wf_def distinct_update list_all_update)

lemma agrees_put:
  assumes "agrees now rl ws" and "bk_count b \<le> rl_max_requests rl"
  shows "agrees now (rl\<lparr>rl_state := AList.update ip b (rl_state rl)\<rparr>)
    (ws\<lparr>ws_buckets := (ws_buckets ws)(ip := Some (bucket_view b))\<rparr>)"
proof -
  have "limiter_wf (rl\<lparr>rl_state := AList.update ip b (rl_state rl)\<rparr>)"
    using assms by (simp add: agrees_def limiter_wf_put)
  with assms(1) show ?thesis by (simp add: agrees_def update_conv')
qed

lemma unat_u32_less: "unat (m :: u32) < 4294967296"
  using unsigned_less [where 'a = nat, of m] by simp

lemma unat_succ_count:
  fixes c m :: u32
  assumes "\<not> m \<le> c"
  shows "unat (c + 1) = unat c + 1" and "c + 1 \<le> m"
proof -
  have less: "unat c < unat m" using assms by (simp add: word_le_nat_alt)
  moreover have "unat m < 4294967296" by (rule unat_u32_less)
  ultimately have "unat c + 1 < 4294967296" by linarith
  then show u: "unat (c + 1) = unat c + 1" by (simp add: unat_word_ariths)
  show "c + 1 \<le> m" using less u by (simp add: word_le_nat_alt)
qed

lemma count_request_agrees:
  assumes "agrees now rl ws" and "is_enabled rl"
  shows "fst (count_request rl now ip) = fst (window_check ws (now, ip)) \<and>
    agrees now (snd (count_request rl now ip)) (snd (window_check ws (now, ip)))"
proof -
  have w: "ws_window ws = rl_window rl" "ws_max ws = unat (rl_max_requests rl)"
    using assms(1) by (simp_all add: agrees_def)
  have pos: "rl_window rl \<noteq> 0" "unat (rl_max_requests rl) \<noteq> 0" "1 \<le> rl_max_requests rl"
    using assms(2) by (auto simp: is_enabled_def word_gt_0 unat_eq_zero word_order_nat)
  note put = agrees_put [OF assms(1)]
  show ?thesis
  proof (cases "map_of (rl_state rl) ip")
    case None
    have same: "same_bucket now (rl_window rl) None (ws_buckets ws ip)"
      using assms(1) None unfolding agrees_def by metis
    consider "ws_buckets ws ip = None"
      | start c where "ws_buckets ws ip = Some (start, c)" "rl_window rl \<le> now - start"
      using same by (cases "ws_buckets ws ip") auto
    then have g: "grant (ws_window ws) (ws_max ws) (ws_buckets ws ip) now = (True, Some (now, 1))"
      using w pos by cases (simp_all add: grant_def)
    have "\<not> rl_max_requests rl \<le> 0" using pos(3) by (auto simp: word_order_nat)
    then have "count_request rl now ip =
        (True, rl\<lparr>rl_state := AList.update ip \<lparr> bk_window_start = now, bk_count = 1 \<rparr> (rl_state rl)\<rparr>)"
      using None pos by (simp add: count_request_def)
    with g put [of "\<lparr> bk_window_start = now, bk_count = 1 \<rparr>" ip] pos show ?thesis
      by (simp add: window_check_def bucket_view_def)
  next
    case (Some b)
    have "same_bucket now (rl_window rl) (Some b) (ws_buckets ws ip)"
      using assms(1) Some unfolding agrees_def by metis
    then have v: "ws_buckets ws ip = Some (bk_window_start b, unat (bk_count b))"
      by (simp add: bucket_view_def)
    have "(ip, b) \<in> set (rl_state rl)" using Some by (rule map_of_SomeD)
    then have le: "bk_count b \<le> rl_max_requests rl"
      using assms(1) by (auto simp: agrees_def limiter_wf_def list_all_iff)
    consider (expired) "rl_window rl \<le> now - bk_window_start b"
      | (full) "\<not> rl_window rl \<le> now - bk_window_start b" "rl_max_requests rl \<le> bk_count b"
      | (more) "\<not> rl_window rl \<le> now - bk_window_start b" "\<not> rl_max_requests rl \<le> bk_count b"
      by blast
    then show ?thesis
    proof cases
      case expired
      with Some v w pos put [of "\<lparr> bk_window_start = now, bk_count = 1 \<rparr>" ip] show ?thesis
        by (simp add: count_request_def window_check_def grant_def bucket_view_def)
    next
      case full
      then have "unat (rl_max_requests rl) \<le> unat (bk_count b)" by (simp add: word_le_nat_alt)
      with full Some v w pos put [OF le, of ip] show ?thesis
        by (simp add: count_request_def window_check_def grant_def bucket_view_def)
    next
      case more
      then have "\<not> unat (rl_max_requests rl) \<le> unat (bk_count b)" by (simp add: word_le_nat_alt)
      with more Some v w pos put [of "b\<lparr>bk_count := bk_count b + 1\<rparr>" ip] unat_succ_count [OF more(2)]
      show ?thesis
        by (simp add: count_request_def window_check_def grant_def bucket_view_def)
    qed
  qed
qed

lemma window_check_disabled:
  "ws_window ws = 0 \<or> ws_max ws = 0 \<Longrightarrow> window_check ws (now, ip) = (True, ws)"
  by (simp add: window_check_def grant_def)

interpretation limiter: timed_simulation check window_check fst agrees
proof
  fix n rl ws and e :: "nat \<times> ip_addr"
  assume ag: "agrees n rl ws" and le: "n \<le> fst e"
  obtain now ip where e: "e = (now, ip)" by (cases e)
  have now: "agrees now rl ws" using agrees_later [OF ag] le by (simp add: e)
  show "fst (check rl e) = fst (window_check ws e) \<and>
    agrees (fst e) (snd (check rl e)) (snd (window_check ws e))"
  proof (cases "is_enabled rl")
    case True
    then show ?thesis
      using count_request_agrees [OF agrees_prune [OF now], of ip] by (simp add: e check_eq)
  next
    case False
    then have "ws_window ws = 0 \<or> ws_max ws = 0"
      using ag by (auto simp: agrees_def is_enabled_def word_gt_0)
    with False now show ?thesis by (simp add: e check_eq window_check_disabled)
  qed
qed

section \<open>Invariant and refinement\<close>

definition new_windows :: "nat \<Rightarrow> nat \<Rightarrow> window_state" where
  "new_windows w mx = \<lparr> ws_window = w, ws_max = mx, ws_buckets = (\<lambda>_. None) \<rparr>"

lemma limiter_wf_new: "limiter_wf (rate_limiter_new s m)"
  by (simp add: limiter_wf_def rate_limiter_new_def)

lemma agrees_new: "agrees 0 (rate_limiter_new s m) (new_windows (s * 1000000000) (unat m))"
  using limiter_wf_new [of s m] by (simp add: agrees_def rate_limiter_new_def new_windows_def)

lemma bucket_count_le:
  "limiter_wf rl \<Longrightarrow> map_of (rl_state rl) ip = Some b \<Longrightarrow> bk_count b \<le> rl_max_requests rl"
  by (auto simp: limiter_wf_def list_all_iff dest: map_of_SomeD)

lemma enabled_max: "is_enabled rl \<Longrightarrow> 1 \<le> rl_max_requests rl"
  by (auto simp: is_enabled_def word_gt_0 word_order_nat unat_eq_zero)

lemma count_request_wf:
  assumes wf: "limiter_wf rl" and en: "is_enabled rl"
  shows "limiter_wf (snd (count_request rl now ip))"
  using bucket_count_le [OF wf, of ip] enabled_max [OF en] unat_succ_count(2) [of "rl_max_requests rl"]
  by (auto simp: count_request_def Let_def split: option.splits intro!: limiter_wf_put [OF wf])

interpretation well_formed: kept check limiter_wf
proof
  fix rl and e :: "nat \<times> ip_addr"
  assume "limiter_wf rl"
  then show "limiter_wf (snd (check rl e))"
    by (cases e) (simp add: check_eq count_request_wf limiter_wf_prune)
qed

text \<open>
  C24: after any sequence of requests, at any instants, the map has one bucket per address
  and no bucket has counted more than the allowed number of requests, so that the 32-bit counter
  never wraps.
\<close>
theorem check_keeps_wf: "limiter_wf (final check (rate_limiter_new s m) es)"
  by (rule well_formed.run_keeps [OF limiter_wf_new])

text \<open>The map is pruned: when it has more than 1025 entries, every one is of a running window.\<close>

definition alive :: "nat \<Rightarrow> nat \<Rightarrow> ip_addr \<times> bucket \<Rightarrow> bool" where
  "alive now w = (\<lambda>(_, b). now - bk_window_start b < w)"

lemma update_new_or_old: "x \<in> set (AList.update k v xs) \<Longrightarrow> x = (k, v) \<or> x \<in> set xs"
  by (induction xs) (auto split: if_splits)

lemma length_update_le: "length (AList.update k v xs) \<le> Suc (length xs)"
  by (induction xs) auto

lemma count_request_state:
  assumes "is_enabled rl"
  obtains b where "rl_state (snd (count_request rl now ip)) = AList.update ip b (rl_state rl)"
    and "now - bk_window_start b < rl_window rl"
  using assms
  by (fastforce simp: count_request_def Let_def is_enabled_def split: option.splits if_splits)

lemma rl_window_check: "rl_window (snd (check rl e)) = rl_window rl"
  by (cases e) (simp add: check_eq count_request_def Let_def)

text \<open>
  C23: the map cannot grow without bound: after an answered request it has at most 1025
  entries, unless every entry belongs to a client whose window is still running at that instant.
\<close>
theorem check_bounds_state:
  assumes "is_enabled rl"
  shows "length (rl_state (snd (check rl (now, ip)))) \<le> 1025 \<or>
    list_all (alive now (rl_window rl)) (rl_state (snd (check rl (now, ip))))"
proof -
  obtain b where st: "rl_state (snd (check rl (now, ip))) = AList.update ip b (rl_state (prune now rl))"
    and b: "now - bk_window_start b < rl_window rl"
    using count_request_state [of "prune now rl" now ip] assms by (auto simp: check_eq)
  show ?thesis
  proof (cases "1024 < length (rl_state rl)")
    case True
    then have "list_all (alive now (rl_window rl)) (rl_state (prune now rl))"
      by (auto simp: prune_def alive_def list_all_iff)
    moreover have "alive now (rl_window rl) (ip, b)" using b by (simp add: alive_def)
    ultimately show ?thesis using st by (simp add: list_all_update)
  next
    case False
    then have "length (rl_state (prune now rl)) \<le> 1024" by (simp add: prune_def)
    then show ?thesis
      using st length_update_le [of ip b "rl_state (prune now rl)"] by simp
  qed
qed

lemma check_bounds_state_witness:
  "length (rl_state (snd (check (rate_limiter_new 1 2) (7, V4 (Ipv4 10 0 0 1))))) \<le> 1025 \<or>
    list_all (alive 7 (rl_window (rate_limiter_new 1 2)))
      (rl_state (snd (check (rate_limiter_new 1 2) (7, V4 (Ipv4 10 0 0 1)))))"
  by (rule check_bounds_state) (simp add: is_enabled_def rate_limiter_new_def)

text \<open>
  C11: as long as the instants do not run backwards, dropping expired buckets from the map
  is invisible: the limiter answers every sequence of requests as the one that keeps a window for
  every address forever.
\<close>
theorem check_refines_windows:
  assumes "ordered fst 0 es"
  shows "outputs check (rate_limiter_new s m) es =
    outputs window_check (new_windows (s * 1000000000) (unat m)) es"
  by (rule limiter.same_outputs [OF agrees_new assms])

lemma check_refines_windows_witness:
  "outputs check (rate_limiter_new 1 1) [(3, V4 (Ipv4 10 0 0 1)), (9, V4 (Ipv4 10 0 0 1))] =
    outputs window_check (new_windows 1000000000 1) [(3, V4 (Ipv4 10 0 0 1)), (9, V4 (Ipv4 10 0 0 1))]"
  using check_refines_windows [of "[(3, V4 (Ipv4 10 0 0 1)), (9, V4 (Ipv4 10 0 0 1))]" 1 1] by simp

section \<open>One address\<close>

text \<open>The answers given to an address, in order, and its instants.\<close>

definition answers :: "ip_addr \<Rightarrow> limiter \<Rightarrow> (nat \<times> ip_addr) list \<Rightarrow> bool list" where
  "answers ip rl es = map fst (filter (\<lambda>(_, e). snd e = ip) (zip (outputs check rl es) es))"

definition instants :: "ip_addr \<Rightarrow> (nat \<times> ip_addr) list \<Rightarrow> nat list" where
  "instants ip es = map fst (filter (\<lambda>e. snd e = ip) es)"

lemma window_project:
  "map fst (filter (\<lambda>(_, e). snd e = ip) (zip (outputs window_check ws es) es)) =
    outputs (grant (ws_window ws) (ws_max ws)) (ws_buckets ws ip) (instants ip es)"
proof (induction es arbitrary: ws)
  case (Cons e es)
  obtain now ip' where e: "e = (now, ip')" by (cases e)
  let ?r = "grant (ws_window ws) (ws_max ws) (ws_buckets ws ip') now"
  have "window_check ws (now, ip') = (fst ?r, ws\<lparr>ws_buckets := (ws_buckets ws)(ip' := snd ?r)\<rparr>)"
    by (simp add: window_check_def case_prod_unfold Let_def)
  then show ?case
    by (cases "ip' = ip") (simp_all add: e Cons.IH instants_def del: run.simps(2))
qed (simp add: instants_def)

lemma answers_eq:
  assumes "ordered fst 0 es"
  shows "answers ip (rate_limiter_new s m) es =
    outputs (grant (s * 1000000000) (unat m)) None (instants ip es)"
  using window_project [of ip "new_windows (s * 1000000000) (unat m)" es]
  unfolding answers_def limiter.same_outputs [OF agrees_new assms]
  by (simp add: new_windows_def)

lemma ordered_instants: "ordered fst n es \<Longrightarrow> ordered (\<lambda>t. t) n (instants ip es)"
  by (simp add: instants_def ordered_map ordered_filter)

text \<open>
  C20: clients do not affect one another: the answers an address gets are those it gets
  when no other address sends anything.
\<close>
theorem addresses_independent:
  assumes "ordered fst 0 es"
  shows "answers ip (rate_limiter_new s m) es =
    outputs check (rate_limiter_new s m) (filter (\<lambda>e. snd e = ip) es)"
proof -
  let ?mine = "filter (\<lambda>e. snd e = ip) es"
  have "answers ip (rate_limiter_new s m) ?mine = answers ip (rate_limiter_new s m) es"
    using assms ordered_filter [OF assms] by (simp add: answers_eq instants_def)
  moreover have "filter (\<lambda>(_, e). snd e = ip) (zip xs ?mine) = zip xs ?mine" for xs :: "bool list"
    by (rule filter_True) (auto dest: set_zip_rightD)
  ultimately show ?thesis by (simp add: answers_def)
qed

lemma addresses_independent_witness:
  "answers (V4 (Ipv4 10 0 0 1)) (rate_limiter_new 1 1)
     [(3, V4 (Ipv4 10 0 0 2)), (9, V4 (Ipv4 10 0 0 1))] =
    outputs check (rate_limiter_new 1 1)
     (filter (\<lambda>e. snd e = V4 (Ipv4 10 0 0 1)) [(3, V4 (Ipv4 10 0 0 2)), (9, V4 (Ipv4 10 0 0 1))])"
  by (rule addresses_independent) simp

section \<open>Quotas\<close>

definition granted :: "nat \<Rightarrow> nat \<Rightarrow> bool list \<Rightarrow> nat list \<Rightarrow> nat" where
  "granted t w oks ts = length (filter (\<lambda>(ok, now). ok \<and> t \<le> now \<and> now < t + w) (zip oks ts))"

lemma granted_simps [simp]:
  "granted t w oks [] = 0"
  "granted t w (ok # oks) (now # ts) =
    (if ok \<and> t \<le> now \<and> now < t + w then 1 else 0) + granted t w oks ts"
  by (simp_all add: granted_def)

lemma granted_past: "ordered (\<lambda>t. t) n ts \<Longrightarrow> t + w \<le> n \<Longrightarrow> granted t w oks ts = 0"
  by (auto simp: granted_def filter_empty_conv dest!: set_zip_rightD ordered_from)

text \<open>How many requests can still be granted between \<open>t\<close> and \<open>t + w\<close>, from time \<open>n\<close> on.\<close>

fun quota_left :: "nat \<Rightarrow> nat \<Rightarrow> nat \<Rightarrow> (nat \<times> nat) option \<Rightarrow> nat" where
  "quota_left mx t n None = 2 * mx"
| "quota_left mx t n (Some (start, c)) =
     (if n < t then 2 * mx else if t \<le> start then mx - c else 2 * mx - c)"

fun bucket_ok :: "nat \<Rightarrow> nat \<Rightarrow> (nat \<times> nat) option \<Rightarrow> bool" where
  "bucket_ok n mx None = True"
| "bucket_ok n mx (Some (start, c)) \<longleftrightarrow> start \<le> n \<and> 1 \<le> c \<and> c \<le> mx"

lemma grant_step:
  assumes "0 < w" "0 < mx" "bucket_ok n mx b" "n \<le> now"
  shows "bucket_ok now mx (snd (grant w mx b now))"
    and "now < t + w \<Longrightarrow>
      (if fst (grant w mx b now) \<and> t \<le> now then 1 else 0) + quota_left mx t now (snd (grant w mx b now)) \<le> quota_left mx t n b"
proof -
  consider (fresh) "b = None"
    | (expired) start c where "b = Some (start, c)" "w \<le> now - start"
    | (full) start c where "b = Some (start, c)" "\<not> w \<le> now - start" "mx \<le> c"
    | (more) start c where "b = Some (start, c)" "\<not> w \<le> now - start" "\<not> mx \<le> c"
    by (cases b) (auto, blast)
  then have "bucket_ok now mx (snd (grant w mx b now)) \<and> (now < t + w \<longrightarrow>
      (if fst (grant w mx b now) \<and> t \<le> now then 1 else 0) + quota_left mx t now (snd (grant w mx b now)) \<le> quota_left mx t n b)"
    using assms by cases (auto simp: grant_def)
  then show "bucket_ok now mx (snd (grant w mx b now))"
    and "now < t + w \<Longrightarrow>
      (if fst (grant w mx b now) \<and> t \<le> now then 1 else 0) + quota_left mx t now (snd (grant w mx b now)) \<le> quota_left mx t n b"
    by simp_all
qed

lemma granted_le_room:
  assumes "0 < w" "0 < mx"
  shows "bucket_ok n mx b \<Longrightarrow> ordered (\<lambda>t. t) n ts \<Longrightarrow>
    granted t w (outputs (grant w mx) b ts) ts \<le> quota_left mx t n b"
proof (induction ts arbitrary: n b)
  case (Cons now ts)
  then have n: "n \<le> now" and ts: "ordered (\<lambda>t. t) now ts" by simp_all
  note step = grant_step [OF assms Cons.prems(1) n]
  show ?case
  proof (cases "now < t + w")
    case True
    with step(2) [of t] Cons.IH [OF step(1) ts] show ?thesis
      by (auto simp del: run.simps(2) split: if_splits)
  next
    case False
    with granted_past [OF ts, of t w] show ?thesis by (simp del: run.simps(2))
  qed
qed simp

lemma granted_le_quota:
  assumes "ordered fst 0 es" and "is_enabled (rate_limiter_new s m)"
  shows "granted t (s * 1000000000) (answers ip (rate_limiter_new s m) es) (instants ip es) \<le> 2 * unat m"
proof -
  have "0 < s * 1000000000" "0 < unat m"
    using assms(2) by (auto simp: is_enabled_def rate_limiter_new_def word_gt_0 unat_gt_0)
  from granted_le_room [OF this, of 0 None "instants ip es" t]
  show ?thesis using ordered_instants [OF assms(1)] by (simp add: answers_eq [OF assms(1)])
qed

text \<open>
  Whatever the history, an enabled limiter lets an address through at most twice its
  quota in any interval as long as the window (a fixed window cannot promise the quota itself:
  the end of one window and the start of the next both fit).
\<close>
theorem quota_per_window:
  assumes "ordered fst 0 es" and "is_enabled (rate_limiter_new s m)"
  shows "granted t (s * 1000000000) (answers ip (rate_limiter_new s m) es) (instants ip es) \<le> 2 * unat m"
  by (rule granted_le_quota [OF assms])

lemma quota_per_window_witness:
  "granted 0 (1 * 1000000000) (answers (V4 (Ipv4 10 0 0 1)) (rate_limiter_new 1 1)
     [(3, V4 (Ipv4 10 0 0 1)), (9, V4 (Ipv4 10 0 0 1))])
     (instants (V4 (Ipv4 10 0 0 1)) [(3, V4 (Ipv4 10 0 0 1)), (9, V4 (Ipv4 10 0 0 1))]) \<le> 2 * unat (1 :: u32)"
  by (rule quota_per_window) (simp_all add: is_enabled_def rate_limiter_new_def)

text \<open>The first burst of an address.\<close>

lemma grant_burst:
  assumes "0 < w" "0 < mx"
  shows "c \<le> mx \<Longrightarrow> \<forall>t \<in> set ts. t < start + w \<Longrightarrow>
    outputs (grant w mx) (Some (start, c)) ts =
      replicate (min (mx - c) (length ts)) True @ replicate (length ts - (mx - c)) False"
proof (induction ts arbitrary: c)
  case (Cons t ts)
  have "\<not> w \<le> t - start" using Cons.prems(2) assms by auto
  then show ?case
    using Cons assms
    by (cases "mx \<le> c") (auto simp: grant_def Suc_diff_le min_def replicate_Suc [symmetric]
        simp del: run.simps(2) replicate_Suc)
qed simp

text \<open>
  C21: in the first window of an address, exactly the first \<open>max_requests\<close> requests are
  allowed and all the others are refused.
\<close>
theorem first_window_exact:
  assumes "ordered fst 0 es" and "is_enabled (rate_limiter_new s m)"
    and "instants ip es = start # ts" and "\<forall>t \<in> set ts. t < start + s * 1000000000"
  shows "answers ip (rate_limiter_new s m) es =
    replicate (min (unat m) (Suc (length ts))) True @ replicate (Suc (length ts) - unat m) False"
proof -
  have pos: "0 < s * 1000000000" "0 < unat m"
    using assms(2) by (auto simp: is_enabled_def rate_limiter_new_def word_gt_0 unat_gt_0)
  have "answers ip (rate_limiter_new s m) es =
      True # outputs (grant (s * 1000000000) (unat m)) (Some (start, 1)) ts"
    using pos by (simp add: answers_eq [OF assms(1)] assms(3) grant_def del: run.simps(2))
  also have "\<dots> = True # replicate (min (unat m - 1) (length ts)) True @ replicate (length ts - (unat m - 1)) False"
    using grant_burst [OF pos, of 1 ts start] pos assms(4) by simp
  finally show ?thesis using pos(2) by (cases "unat m") simp_all
qed

lemma first_window_exact_witness:
  "answers (V4 (Ipv4 10 0 0 1)) (rate_limiter_new 1 2)
     [(3, V4 (Ipv4 10 0 0 1)), (5, V4 (Ipv4 10 0 0 2)), (6, V4 (Ipv4 10 0 0 1)), (9, V4 (Ipv4 10 0 0 1))] =
    replicate (min (unat (2 :: u32)) (Suc (length [6, 9 :: nat]))) True @
    replicate (Suc (length [6, 9 :: nat]) - unat (2 :: u32)) False"
  by (rule first_window_exact [where start = 3])
    (simp_all add: is_enabled_def rate_limiter_new_def instants_def)

lemma final_grant_start:
  "final (grant w mx) b ts = Some (start, c) \<Longrightarrow> (\<exists>c. b = Some (start, c)) \<or> start \<in> set ts"
proof (induction ts arbitrary: b)
  case (Cons t ts)
  from Cons.IH [of "snd (grant w mx b t)"] Cons.prems show ?case
    by (auto simp: grant_def simp del: run.simps(2) split: if_splits option.splits)
qed simp

text \<open>
  C22: a client is never locked out: once a whole window has passed since each of its
  requests, its next one is allowed.
\<close>
theorem served_after_window:
  assumes "ordered fst 0 (es @ [(now, ip)])" and "\<forall>t \<in> set (instants ip es). t + s * 1000000000 \<le> now"
  shows "last (answers ip (rate_limiter_new s m) (es @ [(now, ip)]))"
proof -
  let ?g = "grant (s * 1000000000) (unat m)"
  have "instants ip (es @ [(now, ip)]) = instants ip es @ [now]" by (simp add: instants_def)
  then have "last (answers ip (rate_limiter_new s m) (es @ [(now, ip)])) =
      fst (?g (final ?g None (instants ip es)) now)"
    by (simp add: answers_eq [OF assms(1)] outputs_append del: run.simps(2))
  moreover have "s * 1000000000 \<le> now - start" if "final ?g None (instants ip es) = Some (start, c)" for start c
    using final_grant_start [OF that] assms(2) by fastforce
  ultimately show ?thesis by (auto simp: grant_def split: option.splits)
qed

lemma served_after_window_witness:
  "last (answers (V4 (Ipv4 10 0 0 1)) (rate_limiter_new 1 1)
     ([(3, V4 (Ipv4 10 0 0 1)), (5, V4 (Ipv4 10 0 0 1))] @ [(1000000005, V4 (Ipv4 10 0 0 1))]))"
  by (rule served_after_window) (simp_all add: instants_def)

text \<open>
  A window or a quota of zero switches the limiter off: every request is allowed and
  nothing is recorded.
\<close>
theorem disabled_allows_all:
  assumes "s = 0 \<or> m = 0"
  shows "run check (rate_limiter_new s m) es = (replicate (length es) True, rate_limiter_new s m)"
  using assms
  by (induction es) (auto simp: check_def is_enabled_def rate_limiter_new_def)

lemma disabled_allows_all_witness:
  "run check (rate_limiter_new 0 3) [(4, V4 (Ipv4 10 0 0 1))] =
    (replicate (length [(4 :: nat, V4 (Ipv4 10 0 0 1))]) True, rate_limiter_new 0 3)"
  by (rule disabled_allows_all) simp

end
