(* ===== verification/Keygen.thy ===== *)
theory Keygen
  imports Config
begin

text \<open>
  \<open>generate_and_print\<close> of \<open>src/dns/dnssec.rs\<close>, which \<open>main\<close> runs for \<open>--generate-dnssec-key\<close>.  The
  fresh key \<open>SigningKey::generate\<close> returns is an argument; \<open>kg_*\<close> are the other functions of the
  p256 crate it calls, over an abstract type of secret keys.
\<close>

section \<open>The program\<close>

record ('k, 's) keygen =
  kg_to_bytes :: "'k \<Rightarrow> bytes"
  kg_secret_from_bytes :: "bytes \<Rightarrow> 's option"
  kg_secret_to_bytes :: "'s \<Rightarrow> bytes"
  kg_to_pkcs8_pem :: "'s \<Rightarrow> rstr option"

definition println :: "rstr \<Rightarrow> rstr" where
  "println s = s @ [10]"

text \<open>What is printed, one element per \<open>println!\<close> or \<open>print!\<close>.\<close>

definition generate_and_print :: "'k crypto \<Rightarrow> ('k, 's) keygen \<Rightarrow> 'k \<Rightarrow> environment \<Rightarrow> rstr list exec" where
  "generate_and_print cr kg generated env = do {
     key \<leftarrow> from_signing_key cr generated;
     let scalar = kg_to_bytes kg (dk_signing_key key);
     secret \<leftarrow> kg_secret_from_bytes kg scalar;
     pem \<leftarrow> kg_to_pkcs8_pem kg secret;
     hex \<leftarrow> hex_encode (kg_secret_to_bytes kg secret);
     let zone = env_or env ''GLUE_NAME'' ''example.com'';
     let zone = trim_end DOT zone;
     digest \<leftarrow> ds_digest_hex cr key zone;
     ds \<leftarrow> ds_presentation cr key zone;
     ret [println (lit ''# Keep this private key secret and identical on every nameserver.''),
          println (lit ''# Hex (convenient for Kubernetes / Compose secrets):''),
          println (lit ''DNSSEC_PRIVATE_KEY='' @ hex),
          println [],
          println (lit ''# PKCS#8 PEM:''),
          pem,
          println [],
          println (lit ''# DS record for the parent (one.com KeyTag / Algorithm / Digest type / Digest):''),
          println (lit ''#   KeyTag:      '' @ show_nat (unat (dk_key_tag key))),
          println (lit ''#   Algorithm:   '' @ show_nat (unat ALG_ECDSAP256SHA256) @ lit '' (ECDSAP256SHA256)''),
          println (lit ''#   Digest type: '' @ show_nat (unat DIGEST_SHA256) @ lit '' (SHA-256)''),
          println (lit ''#   Digest:      '' @ digest),
          println [],
          println (zone @ lit ''. IN DS '' @ ds),
          println [],
          println (lit ''# Deploy this key and serve CDS/CDNSKEY *before* publishing DS at the registrar.''),
          println (lit ''# For .nu / .se, Internetstiftelsen scans CDS over TCP daily; bootstrap takes ~72h.''),
          println (lit ''# Track: https://cds.registry.se'')]
   }"

section \<open>A generated key can be deployed\<close>

text \<open>
  What the crate documents of a generated key: its scalar has 32 bytes, is a valid secret key
  with the same bytes that has a PEM form, and \<open>from_slice\<close> of the scalar is the key.
\<close>

definition keygen_ok :: "'k crypto \<Rightarrow> ('k, 's) keygen \<Rightarrow> 'k \<Rightarrow> bool" where
  "keygen_ok cr kg k \<longleftrightarrow> length (kg_to_bytes kg k) = 32 \<and> cr_from_slice cr (kg_to_bytes kg k) = Some k \<and>
     (case kg_secret_from_bytes kg (kg_to_bytes kg k) of
        None \<Rightarrow> False
      | Some s \<Rightarrow> kg_secret_to_bytes kg s = kg_to_bytes kg k \<and> kg_to_pkcs8_pem kg s \<noteq> None)"

definition hex_digit_char :: "byte \<Rightarrow> bool" where
  "hex_digit_char c \<longleftrightarrow> graphic c \<and> c \<noteq> 92 \<and> c \<noteq> 71"

lemma hex_upper_chars: "c \<in> set (concat (map hex_upper bs)) \<Longrightarrow> hex_digit_char c"
proof -
  have "\<forall>d \<in> set [0..<16]. hex_digit_char (HEX ! d)" by code_simp
  then have "hex_digit_char (HEX ! d)" if "d < 16" for d using that by simp
  moreover assume "c \<in> set (concat (map hex_upper bs))"
  ultimately show ?thesis by (auto simp: hex_upper_def)
qed

lemma replace2_absent: "a \<notin> set s \<Longrightarrow> replace2 a b r s = s"
  by (induction a b r s rule: replace2.induct) auto

lemma contains_str_subset: "contains_str p s \<Longrightarrow> set p \<subseteq> set s"
proof (induction p s rule: contains_str.induct)
  case (2 p x s)
  have "set (take (length p) (x # s)) \<subseteq> set (x # s)" by (rule set_take_subset)
  with 2 show ?case by (metis contains_str.simps(2) set_subset_Cons subset_trans)
qed simp

lemma from_private_key_str_hex:
  assumes "length bs = 32" and "cr_from_slice cr bs = Some k" and "from_signing_key cr k = ret key"
  shows "dnssec_key_from_env cr (Some (concat (map hex_upper bs))) = ret (Some key)"
proof -
  let ?h = "concat (map hex_upper bs)"
  have ne: "?h \<noteq> []" using assms(1) by (cases bs) (simp_all add: hex_upper_def)
  have chars: "hex_digit_char c" if "c \<in> set ?h" for c using that by (rule hex_upper_chars)
  then have t: "trim ?h = ?h"
    using trim_graphic(1) [OF ne] ne by (simp add: hex_digit_char_def del: set_concat)
  have r: "replace2 92 110 [10] ?h = ?h"
    by (rule replace2_absent) (use chars in \<open>auto simp: hex_digit_char_def simp del: set_concat\<close>)
  have "(71 :: byte) \<in> set (lit ''BEGIN'')" by code_simp
  then have b: "\<not> contains_str (lit ''BEGIN'') ?h"
    using contains_str_subset [of "lit ''BEGIN''" ?h] chars [of 71] by (auto simp: hex_digit_char_def simp del: set_concat)
  show ?thesis
    using assms(2,3)
    by (simp only: dnssec_key_from_env_def from_private_key_str_def t r b ne parse_hex_upper [OF assms(1)]
        Let_def if_False option.case sum.case Option.bind.bind_lunit)
qed

lemma generated_key:
  assumes "sec1_points cr" and "keygen_ok cr kg k"
  shows "\<exists>out hex key ds. generate_and_print cr kg k env = ret out \<and>
    println (lit ''DNSSEC_PRIVATE_KEY='' @ hex) \<in> set out \<and>
    dnssec_key_from_env cr (Some hex) = ret (Some key) \<and> dk_signing_key key = k \<and>
    ds_presentation cr key (env_or env ''GLUE_NAME'' ''example.com'') = ret ds \<and>
    println (trim_end DOT (env_or env ''GLUE_NAME'' ''example.com'') @ lit ''. IN DS '' @ ds) \<in> set out"
proof -
  let ?bs = "kg_to_bytes kg k" and ?z = "env_or env ''GLUE_NAME'' ''example.com''"
  obtain key where key: "from_signing_key cr k = ret key" "dk_signing_key key = k"
    using assms(1) by (simp add: from_signing_key_eq sec1_points_def Let_def)
  obtain s pem where s: "kg_secret_from_bytes kg ?bs = Some s" "kg_secret_to_bytes kg s = ?bs"
    "kg_to_pkcs8_pem kg s = Some pem" and len: "length ?bs = 32" and sl: "cr_from_slice cr ?bs = Some k"
    using assms(2) by (auto simp: keygen_ok_def split: option.splits)
  let ?h = "concat (map hex_upper ?bs)"
  have wire: "ds_digest_hex cr key (trim_end DOT ?z) = ds_digest_hex cr key ?z"
    by (simp add: ds_digest_hex_def ds_rdata_def encode_domain_name_def)
  obtain dig where dig: "ds_digest_hex cr key ?z = ret dig"
    by (simp add: ds_digest_hex_def ds_rdata_def subslice_ret hex_encode_eq Let_def)
  obtain ds where ds: "ds_presentation cr key ?z = ret ds" "ds_presentation cr key (trim_end DOT ?z) = ret ds"
    by (simp add: ds_presentation_def dig wire)
  obtain out where out: "generate_and_print cr kg k env = ret out"
    "println (lit ''DNSSEC_PRIVATE_KEY='' @ ?h) \<in> set out"
    "println (trim_end DOT ?z @ lit ''. IN DS '' @ ds) \<in> set out"
    by (simp add: generate_and_print_def key s hex_encode_eq dig wire ds Let_def)
  show ?thesis
    using out key(2) ds(1) from_private_key_str_hex [OF len sl key(1)] by blast
qed

text \<open>
  C29: a generated key can be deployed: \<open>--generate-dnssec-key\<close> does not panic; the value it
  prints for \<open>DNSSEC_PRIVATE_KEY\<close>, put into the environment, is accepted and gives back the
  generated key; and the DS record it prints is the one of that key for the zone, which is also
  what the server started with it announces (with or without a dot at the end of \<open>GLUE_NAME\<close>).
\<close>
theorem generated_key_deploys:
  assumes "sec1_points cr" and "keygen_ok cr kg k"
  shows "\<exists>out hex key ds. generate_and_print cr kg k env = ret out \<and>
    println (lit ''DNSSEC_PRIVATE_KEY='' @ hex) \<in> set out \<and>
    dnssec_key_from_env cr (Some hex) = ret (Some key) \<and> dk_signing_key key = k \<and>
    ds_presentation cr key (env_or env ''GLUE_NAME'' ''example.com'') = ret ds \<and>
    println (trim_end DOT (env_or env ''GLUE_NAME'' ''example.com'') @ lit ''. IN DS '' @ ds) \<in> set out"
  by (rule generated_key [OF assms])

definition toy_keygen :: "(bytes, bytes) keygen" where
  "toy_keygen = \<lparr> kg_to_bytes = (\<lambda>k. k), kg_secret_from_bytes = Some, kg_secret_to_bytes = (\<lambda>s. s),
     kg_to_pkcs8_pem = (\<lambda>_. Some (lit ''BEGIN PRIVATE KEY'')) \<rparr>"

lemma toy_points: "sec1_points toy_crypto"
  by (auto simp: sec1_points_def toy_crypto_def min_def)

lemma toy_keygen_ok: "keygen_ok toy_crypto toy_keygen (replicate 32 0xA7)"
  by (simp add: keygen_ok_def toy_keygen_def toy_crypto_def)

lemma generated_key_deploys_witness:
  "\<exists>out hex key. generate_and_print toy_crypto toy_keygen (replicate 32 0xA7) (\<lambda>_. None) = ret out \<and>
    println (lit ''DNSSEC_PRIVATE_KEY='' @ hex) \<in> set out \<and>
    dnssec_key_from_env toy_crypto (Some hex) = ret (Some key) \<and> dk_signing_key key = replicate 32 0xA7"
  using generated_key_deploys [OF toy_points toy_keygen_ok, of "\<lambda>_. None"] by blast

end
