(* ===== verification/Server.thy ===== *)
theory Server
  imports Query Rate_Limit Keygen
begin

text \<open>
  \<open>src/main.rs\<close>: the start of the program and its two loops, the UDP thread and the TCP loop of the
  main thread, as a step relation.  The two share nothing but the limiter, whose lock is held for
  the whole of a call of \<open>check\<close>; the rest of a loop iteration is local to its thread, so every
  execution is one in which the iterations run one after the other in the order of their locks.
  What the operating system answers (the datagrams, connections, addresses, clocks, and how many
  bytes a peer takes before its connection breaks) is in the events.
\<close>

section \<open>The program\<close>

type_synonym socket_addr = "ip_addr \<times> u16"

text \<open>
  The result of \<open>recv_from\<close>: an error, or the instant read by \<open>check\<close>, the source, the clock of the
  signatures and the datagram (of which the buffer takes 4096 bytes).
\<close>

datatype udp_event = Recv_error | Datagram nat socket_addr clock bytes

text \<open>
  The result of \<open>accept\<close>: an error, or the instant, \<open>peer_addr\<close> (\<open>None\<close> for an error), the clock, all
  bytes the client sends, and how many it takes before a write fails (\<open>None\<close>: all).
\<close>

datatype tcp_event = Accept_error | Connection nat "socket_addr option" clock bytes "nat option"

definition serve_udp :: "'k crypto \<Rightarrow> 'k config \<Rightarrow> limiter \<Rightarrow> udp_event \<Rightarrow>
    (socket_addr \<times> bytes) option exec \<times> limiter" where
  "serve_udp cr cf rl e =
     (case e of
        Recv_error \<Rightarrow> (ret None, rl)
      | Datagram now src clk datagram \<Rightarrow>
          (let (allowed, rl) = check rl (now, fst src) in
           if \<not> allowed then (ret None, rl)
           else
             (do {
                response \<leftarrow> handle_query cr clk (take 4096 datagram) cf;
                ret (map_option (\<lambda>r. (src, r)) response)
              }, rl)))"

text \<open>\<open>write_all\<close> into a connection that takes \<open>room\<close> more bytes: what arrives, the room left, and
  whether it returns \<open>Ok\<close>.\<close>

fun write_all :: "nat option \<Rightarrow> bytes \<Rightarrow> bytes \<times> nat option \<times> bool" where
  "write_all None bs = (bs, None, True)"
| "write_all (Some room) bs = (take room bs, Some (room - length bs), length bs \<le> room)"

text \<open>Whether the loop goes on, or \<open>main\<close> returns the error.\<close>

datatype flow = Go_on | Return_error

definition answer_tcp :: "nat option \<Rightarrow> bytes \<Rightarrow> bytes \<times> flow" where
  "answer_tcp room response = (
     let response_len = be16 (of_nat (length response));
         (sent, room, written) = write_all room response_len
     in if \<not> written then (sent, Return_error)
        else
          let (sent', _, written) = write_all room response
          in (sent @ sent', if written then Go_on else Return_error))"

definition serve_tcp :: "'k crypto \<Rightarrow> 'k config \<Rightarrow> limiter \<Rightarrow> tcp_event \<Rightarrow>
    (bytes \<times> flow) exec \<times> limiter" where
  "serve_tcp cr cf rl e =
     (case e of
        Accept_error \<Rightarrow> (ret ([], Go_on), rl)
      | Connection now peer_addr clk input room \<Rightarrow>
          (case peer_addr of
             None \<Rightarrow> (ret ([], Return_error), rl)
           | Some peer \<Rightarrow>
               (let (allowed, rl) = check rl (now, fst peer) in
                if \<not> allowed then (ret ([], Go_on), rl)
                else if length input < 2 then (ret ([], Go_on), rl)
                else
                  let len = unat (of_be16 (input ! 0) (input ! 1)) in
                  if length input < 2 + len then (ret ([], Go_on), rl)
                  else
                    (do {
                       response \<leftarrow> handle_query_internal cr clk (take len (drop 2 input)) cf;
                       ret (answer_tcp room response)
                     }, rl))))"

text \<open>What \<open>main\<close> prints before it serves.\<close>

definition start_lines :: "'k crypto \<Rightarrow> 'k config \<Rightarrow> limiter \<Rightarrow> rstr list exec" where
  "start_lines cr cf rl = do {
     let started = [lit ''RustyAlias Server Started on Port 5053 (UDP/TCP)''];
     dnssec \<leftarrow>
       (case cf_dnssec cf of
          None \<Rightarrow> ret []
        | Some key \<Rightarrow> do {
            ds \<leftarrow> ds_presentation cr key (cf_glue_name cf);
            ret [lit ''DNSSEC enabled (ECDSAP256SHA256, key tag '' @ show_nat (unat (dk_key_tag key)) @ lit '')'',
                 lit ''  DS: '' @ cf_glue_name cf @ lit '' IN DS '' @ ds]
          });
     let limit =
       (if is_enabled rl
        then [lit ''Rate limit: '' @ show_nat (unat (cf_rate_limit_requests cf)) @ lit '' requests per '' @
              show_nat (cf_rate_limit_seconds cf) @ lit '' second(s) per source IP'']
        else []);
     ret (started @ dnssec @ limit)
   }"

record server =
  sv_limiter :: limiter
  sv_udp_alive :: bool
  sv_running :: bool

definition config_limiter :: "'k config \<Rightarrow> limiter" where
  "config_limiter cf = rate_limiter_new (cf_rate_limit_seconds cf) (cf_rate_limit_requests cf)"

text \<open>
  \<open>main\<close> up to the loops: it prints a new key and returns, fails to bind a socket (\<open>bound\<close>: whether
  both can be bound), or serves.
\<close>

datatype 'k launch = Generated "rstr list" | Bind_failed | Serving "'k config" "rstr list" server

definition main ::
    "'k crypto \<Rightarrow> ('k, 's) keygen \<Rightarrow> 'k \<Rightarrow> rstr list \<Rightarrow> environment \<Rightarrow> bool \<Rightarrow> 'k launch exec" where
  "main cr kg generated args env bound =
     (if list_ex (\<lambda>a. a = lit ''--generate-dnssec-key'') args then do {
        out \<leftarrow> generate_and_print cr kg generated env;
        ret (Generated out)
      }
      else do {
        cf \<leftarrow> from_env cr env;
        let rate_limiter = config_limiter cf;
        (if \<not> bound then ret Bind_failed
         else do {
           lines \<leftarrow> start_lines cr cf rate_limiter;
           ret (Serving cf lines \<lparr> sv_limiter = rate_limiter, sv_udp_alive = True, sv_running = True \<rparr>)
         })
      })"

section \<open>The steps\<close>

datatype event = Udp udp_event | Tcp tcp_event

datatype reply = Silent | Udp_reply socket_addr bytes | Tcp_reply bytes

text \<open>
  A panic ends its own thread: the UDP thread alone, or the main thread and with it the process.
  \<open>main\<close> returning an error ends the process.
\<close>

inductive step :: "'k crypto \<Rightarrow> 'k config \<Rightarrow> server \<Rightarrow> event \<Rightarrow> reply \<Rightarrow> server \<Rightarrow> bool"
  for cr :: "'k crypto" and cf :: "'k config" where
  udp: "sv_running s \<Longrightarrow> sv_udp_alive s \<Longrightarrow> serve_udp cr cf (sv_limiter s) e = (ret sent, rl) \<Longrightarrow>
    step cr cf s (Udp e) (case sent of None \<Rightarrow> Silent | Some (dst, bs) \<Rightarrow> Udp_reply dst bs)
      (s\<lparr>sv_limiter := rl\<rparr>)"
| udp_panic: "sv_running s \<Longrightarrow> sv_udp_alive s \<Longrightarrow> serve_udp cr cf (sv_limiter s) e = (panic, rl) \<Longrightarrow>
    step cr cf s (Udp e) Silent (s\<lparr>sv_limiter := rl, sv_udp_alive := False\<rparr>)"
| tcp: "sv_running s \<Longrightarrow> serve_tcp cr cf (sv_limiter s) e = (ret (sent, flow), rl) \<Longrightarrow>
    step cr cf s (Tcp e) (if sent = [] then Silent else Tcp_reply sent)
      (s\<lparr>sv_limiter := rl, sv_running := (flow = Go_on)\<rparr>)"
| tcp_panic: "sv_running s \<Longrightarrow> serve_tcp cr cf (sv_limiter s) e = (panic, rl) \<Longrightarrow>
    step cr cf s (Tcp e) Silent (s\<lparr>sv_limiter := rl, sv_running := False\<rparr>)"

inductive_cases step_UdpE: "step cr cf s (Udp e) r s'"
inductive_cases step_TcpE: "step cr cf s (Tcp e) r s'"
inductive_simps step_Udp_iff: "step cr cf s (Udp e) r s'"
inductive_simps step_Tcp_iff: "step cr cf s (Tcp e) r s'"

text \<open>Executions, with what happened and what was sent.\<close>

inductive runs_to :: "'k crypto \<Rightarrow> 'k config \<Rightarrow> server \<Rightarrow> (event \<times> reply) list \<Rightarrow> server \<Rightarrow> bool"
  for cr :: "'k crypto" and cf :: "'k config" where
  done_now: "runs_to cr cf s [] s"
| then_step: "step cr cf s e r s' \<Longrightarrow> runs_to cr cf s' tr s'' \<Longrightarrow> runs_to cr cf s ((e, r) # tr) s''"

inductive_cases runs_to_ConsE: "runs_to cr cf s (er # tr) s'"

section \<open>Every step\<close>

lemma serve_udp_eq:
  assumes "config_wf cr cf"
  obtains sent rl' where "serve_udp cr cf rl e = (ret sent, rl')"
proof -
  have "fst (serve_udp cr cf rl e) \<noteq> panic"
    by (auto simp: serve_udp_def handle_query_eq [OF assms] Let_def split: udp_event.split prod.split)
  then obtain sent where "fst (serve_udp cr cf rl e) = ret sent" by auto
  then show ?thesis by (intro that [of sent "snd (serve_udp cr cf rl e)"]) (simp add: prod_eq_iff)
qed

lemma serve_tcp_eq:
  assumes "config_wf cr cf"
  obtains sent flow rl' where "serve_tcp cr cf rl e = (ret (sent, flow), rl')"
proof -
  have "fst (serve_tcp cr cf rl e) \<noteq> panic"
    by (auto simp: serve_tcp_def handle_query_internal_eq [OF assms] Let_def
        split: tcp_event.split option.split prod.split)
  then obtain r where "fst (serve_tcp cr cf rl e) = ret r" by auto
  then show ?thesis by (intro that [of "fst r" "snd r" "snd (serve_tcp cr cf rl e)"]) (simp add: prod_eq_iff)
qed

lemma step_exists:
  assumes "config_wf cr cf" and "sv_running s" and "sv_udp_alive s"
  shows "\<exists>r s'. step cr cf s e r s'"
proof (cases e)
  case (Udp u)
  obtain sent rl where "serve_udp cr cf (sv_limiter s) u = (ret sent, rl)"
    using serve_udp_eq [OF assms(1)] .
  from step.udp [OF assms(2,3) this] show ?thesis unfolding Udp by blast
next
  case (Tcp t)
  obtain sent flow rl where "serve_tcp cr cf (sv_limiter s) t = (ret (sent, flow), rl)"
    using serve_tcp_eq [OF assms(1)] .
  from step.tcp [OF assms(2) this] show ?thesis unfolding Tcp by blast
qed

definition toy_server :: server where
  "toy_server = \<lparr> sv_limiter = config_limiter toy_config, sv_udp_alive = True, sv_running = True \<rparr>"

lemma toy_server_allows: "fst (check (sv_limiter toy_server) e)"
  by (cases e) (simp add: toy_server_def config_limiter_def toy_config_def check_def is_enabled_def
      rate_limiter_new_def)



text \<open>What a step asks the limiter.\<close>

fun request :: "event \<Rightarrow> (nat \<times> ip_addr) option" where
  "request (Udp (Datagram now src clk datagram)) = Some (now, fst src)"
| "request (Tcp (Connection now (Some peer) clk input room)) = Some (now, fst peer)"
| "request e = None"

lemma step_limiter:
  assumes "step cr cf s e r s'"
  shows "sv_limiter s' = (case request e of None \<Rightarrow> sv_limiter s | Some q \<Rightarrow> snd (check (sv_limiter s) q))"
    and "r \<noteq> Silent \<Longrightarrow> \<exists>q. request e = Some q \<and> fst (check (sv_limiter s) q)"
  using assms
  by (cases "(e)" rule: request.cases;
      auto simp: step_Udp_iff step_Tcp_iff serve_udp_def serve_tcp_def Let_def
        split: prod.splits if_splits option.splits)+

lemma runs_to_limiter:
  "runs_to cr cf s tr s' \<Longrightarrow>
    sv_limiter s' = final check (sv_limiter s) (List.map_filter (request \<circ> fst) tr)"
proof (induction rule: runs_to.induct)
  case (then_step s e r s' tr s'')
  then show ?case
    using step_limiter(1) [OF then_step(1)]
    by (cases "request e") (simp_all add: map_filter_simps del: run.simps(2))
qed (simp add: map_filter_simps)

lemma step_udp_alive:
  assumes "config_wf cr cf" and "step cr cf s e r s'"
  shows "sv_udp_alive s' = sv_udp_alive s"
  using assms(2)
proof cases
  case (udp_panic u rl)
  with serve_udp_eq [OF assms(1), of "sv_limiter s" u] show ?thesis by auto
qed simp_all

lemma runs_to_udp_alive:
  "runs_to cr cf s tr s' \<Longrightarrow> config_wf cr cf \<Longrightarrow> sv_udp_alive s' = sv_udp_alive s"
  by (induction rule: runs_to.induct) (simp_all add: step_udp_alive)

lemma start_lines_total: "\<exists>lines. start_lines cr cf rl = ret lines"
  by (simp add: start_lines_def ds_presentation_def ds_digest_hex_def ds_rdata_def hex_encode_eq
      subslice_ret Let_def split: option.split)

text \<open>
  C5: from the environment to any later moment: a server that starts (the environment holds
  UTF-8 and its values parse) never loses its UDP thread to a panic, whatever clients send over
  both transports, and the map of its limiter stays well-formed.
\<close>
theorem server_never_panics:
  assumes "env_utf8 env" and "main cr kg generated args env bound = ret (Serving cf lines s)" and "runs_to cr cf s tr s'"
  shows "sv_udp_alive s' \<and> limiter_wf (sv_limiter s') \<and>
    (sv_running s' \<longrightarrow> (\<forall>e. \<exists>r s''. step cr cf s' e r s'' \<and> sv_udp_alive s''))"
proof -
  have env: "from_env cr env = ret cf"
    and s: "s = \<lparr> sv_limiter = config_limiter cf, sv_udp_alive = True, sv_running = True \<rparr>"
    using assms(2) by (auto simp: main_def Let_def split: Option.bind_splits if_splits)
  have wf: "config_wf cr cf" by (rule from_env_config_wf [OF assms(1) env])
  have alive: "sv_udp_alive s'" using runs_to_udp_alive [OF assms(3) wf] by (simp add: s)
  have "limiter_wf (sv_limiter s')"
    unfolding runs_to_limiter [OF assms(3)] s config_limiter_def server.simps
    by (rule well_formed.run_keeps [OF limiter_wf_new])
  moreover have "\<exists>r s''. step cr cf s' e r s'' \<and> sv_udp_alive s''" if "sv_running s'" for e
    using step_exists [OF wf that alive, of e] step_udp_alive [OF wf] alive by blast
  ultimately show ?thesis using alive by blast
qed

lemma from_env_default: "\<exists>cf. from_env toy_crypto (\<lambda>_. None) = ret cf"
proof -
  have "ipv4_from_str (lit ''127.0.0.1'') = Some (Ipv4 127 0 0 1)" "parse_u32 (lit ''1'') = Some 1"
    "parse_u32 (lit ''3600'') = Some 3600" "parse_u32 (lit ''1800'') = Some 1800"
    "parse_u32 (lit ''604800'') = Some 604800" "parse_u64 (lit ''0'') = Some 0" "parse_u32 (lit ''0'') = Some 0"
    by code_simp+
  then show ?thesis by (simp add: from_env_def parse_env_def env_or_def dnssec_key_from_env_def Let_def)
qed

lemma server_never_panics_witness:
  "\<exists>cf lines s. main toy_crypto toy_keygen [] [lit ''rustyalias''] (\<lambda>_. None) True = ret (Serving cf lines s) \<and>
     sv_udp_alive s \<and> limiter_wf (sv_limiter s)"
proof -
  obtain cf where cf: "from_env toy_crypto (\<lambda>_. None) = ret cf" using from_env_default by blast
  obtain ls where "start_lines toy_crypto cf (config_limiter cf) = ret ls" using start_lines_total by blast
  moreover have "lit ''rustyalias'' \<noteq> lit ''--generate-dnssec-key''" by code_simp
  ultimately obtain s where m: "main toy_crypto toy_keygen [] [lit ''rustyalias''] (\<lambda>_. None) True = ret (Serving cf ls s)"
    using cf by (simp add: main_def Let_def)
  have "env_utf8 (\<lambda>_. None)" by (simp add: env_utf8_def)
  from server_never_panics [OF this m runs_to.done_now] m show ?thesis by blast
qed

section \<open>Frames\<close>

definition frame_of :: "bytes \<Rightarrow> bytes option" where
  "frame_of input =
     (if length input < 2 then None
      else let len = unat (of_be16 (input ! 0) (input ! 1)) in
        if length input < 2 + len then None else Some (take len (drop 2 input)))"

lemma serve_tcp_frame:
  "serve_tcp cr cf rl (Connection now (Some peer) clk input room) =
     ((if \<not> fst (check rl (now, fst peer)) then ret ([], Go_on)
       else case frame_of input of
              None \<Rightarrow> ret ([], Go_on)
            | Some q \<Rightarrow> map_option (answer_tcp room) (handle_query_internal cr clk q cf)),
      snd (check rl (now, fst peer)))"
  by (auto simp: serve_tcp_def frame_of_def Let_def map_conv_bind_option o_def split: prod.split)

lemma answer_tcp_eq:
  "answer_tcp room response =
     (let frame = be16 (of_nat (length response)) @ response in
      case room of None \<Rightarrow> (frame, Go_on)
      | Some n \<Rightarrow> (take n frame, if length frame \<le> n then Go_on else Return_error))"
proof (cases room)
  case (Some n)
  have "length (be16 (of_nat (length response))) = 2" by (simp add: be16_def)
  with Some show ?thesis by (auto simp: answer_tcp_def Let_def)
qed (simp add: answer_tcp_def Let_def)

lemma frame_of_reply:
  "frame_of (be16 (of_nat (length r)) @ r) = Some (take (length r mod 65536) r)"
proof -
  let ?w = "of_nat (length r) :: u16"
  obtain a b where ab: "be16 ?w = [a, b]" by (simp add: be16_def)
  have "of_be16 (ucast (drop_bit 8 ?w)) (ucast ?w) = ?w" by (rule of_be16_be16)
  with ab have "of_be16 a b = ?w" by (simp only: be16_def list.inject)
  then have "unat (of_be16 a b) = length r mod 65536" by (simp add: unat_of_nat)
  then show ?thesis by (simp add: frame_of_def ab Let_def)
qed

text \<open>
  C13: a TCP client that sends a frame and reads everything gets one frame back, with the
  reply of \<open>handle_query_internal\<close> to its body: a client that reads the length prefix recovers the
  reply when it is shorter than 65536 bytes, and otherwise, the length being cast to 16 bits, only
  the first bytes of it, as many as its length modulo 65536.
\<close>
theorem tcp_frame_answered:
  assumes "config_wf cr cf" and "sv_running s" and "fst (check (sv_limiter s) (now, fst peer))"
    and "frame_of input = Some q"
  shows "\<exists>r s'. handle_query_internal cr clk q cf = ret r \<and>
    step cr cf s (Tcp (Connection now (Some peer) clk input None))
      (Tcp_reply (be16 (of_nat (length r)) @ r)) s' \<and> sv_running s' \<and>
    frame_of (be16 (of_nat (length r)) @ r) = Some (take (length r mod 65536) r) \<and>
    (length r < 65536 \<longrightarrow> frame_of (be16 (of_nat (length r)) @ r) = Some r)"
proof -
  obtain r where r: "handle_query_internal cr clk q cf = ret r"
    using handle_query_internal_eq [OF assms(1)] by blast
  have "serve_tcp cr cf (sv_limiter s) (Connection now (Some peer) clk input None) =
      (ret (be16 (of_nat (length r)) @ r, Go_on), snd (check (sv_limiter s) (now, fst peer)))"
    using assms(3,4) r by (simp add: serve_tcp_frame answer_tcp_eq)
  from step.tcp [OF assms(2) this] have "\<exists>s'. step cr cf s (Tcp (Connection now (Some peer) clk input None))
      (Tcp_reply (be16 (of_nat (length r)) @ r)) s' \<and> sv_running s'"
    by (fastforce simp: be16_def)
  with r frame_of_reply [of r] show ?thesis by auto
qed

lemma tcp_frame_answered_witness:
  "\<exists>s'. step toy_crypto toy_config toy_server
     (Tcp (Connection 0 (Some (V4 (Ipv4 10 0 0 1), 4000)) (\<lambda>_. None) [0, 3, 0, 0, 0x28] None))
     (Tcp_reply [0, 0]) s' \<and> sv_running s'"
proof -
  have "sv_running toy_server" "fst (check (sv_limiter toy_server) (0, fst (V4 (Ipv4 10 0 0 1), 4000 :: u16)))"
    by (simp_all add: toy_server_def config_limiter_def toy_config_def check_def is_enabled_def rate_limiter_new_def)
  moreover have "frame_of [0, 3, 0, 0, 0x28] = Some [0, 0, 0x28]" by code_simp
  moreover have "handle_query_internal toy_crypto (\<lambda>_. None) [0, 0, 0x28] toy_config = ret []"
    and "be16 (of_nat (length [])) @ [] = [0, 0]" by code_simp+
  ultimately show ?thesis
    using tcp_frame_answered [OF toy_config_wf, of toy_server 0 "(V4 (Ipv4 10 0 0 1), 4000)"
        "[0, 3, 0, 0, 0x28]" "[0, 0, 0x28]" "\<lambda>_. None"] by auto
qed

text \<open>
  The two transports treat a query that gets no reply differently: over UDP nothing is
  sent, over TCP an empty frame.
\<close>
theorem dropped_query_over_tcp:
  assumes "config_wf cr cf" and "outcome cr q cf = Drop" and "length q \<le> 4096"
    and "sv_running s" and "sv_udp_alive s" and "fst (check (sv_limiter s) (now, fst peer))"
    and "frame_of input = Some q"
  shows "(\<exists>s'. step cr cf s (Udp (Datagram now peer clk q)) Silent s') \<and>
    (\<exists>s'. step cr cf s (Tcp (Connection now (Some peer) clk input None)) (Tcp_reply [0, 0]) s')"
proof
  have r: "handle_query_internal cr clk q cf = ret []"
    using assms(2) by (simp add: handle_query_internal_eq [OF assms(1)] outcome_bytes_def)
  have "serve_udp cr cf (sv_limiter s) (Datagram now peer clk q) =
      (ret None, snd (check (sv_limiter s) (now, fst peer)))"
    using assms(3,6) r by (simp add: serve_udp_def handle_query_def case_prod_unfold Let_def)
  from step.udp [OF assms(4,5) this] show "\<exists>s'. step cr cf s (Udp (Datagram now peer clk q)) Silent s'"
    by auto
  have "be16 0 = [0, 0]" by code_simp
  then have "serve_tcp cr cf (sv_limiter s) (Connection now (Some peer) clk input None) =
      (ret ([0, 0], Go_on), snd (check (sv_limiter s) (now, fst peer)))"
    using assms(6,7) r by (simp add: serve_tcp_frame answer_tcp_eq)
  from step.tcp [OF assms(4) this]
  show "\<exists>s'. step cr cf s (Tcp (Connection now (Some peer) clk input None)) (Tcp_reply [0, 0]) s'"
    by auto
qed

lemma dropped_query_over_tcp_witness:
  "\<exists>s'. step toy_crypto toy_config toy_server
     (Tcp (Connection 0 (Some (V4 (Ipv4 10 0 0 1), 4000)) (\<lambda>_. None) [0, 3, 0, 0, 0] None))
     (Tcp_reply [0, 0]) s'"
proof -
  have o: "outcome toy_crypto [0, 0, 0] toy_config = Drop" and f: "frame_of [0, 3, 0, 0, 0] = Some [0, 0, 0]"
    by code_simp+
  show ?thesis
    by (rule dropped_query_over_tcp [OF toy_config_wf o _ _ _ toy_server_allows f, THEN conjunct2])
      (simp_all add: toy_server_def)
qed

section \<open>Datagrams\<close>

text \<open>
  C14: what is sent over UDP goes back to the source of an admitted datagram only, is the
  reply of \<open>handle_query\<close> to its first 4096 bytes, and is never longer than 1232 bytes or the
  datagram itself, so the server amplifies no datagram beyond 1232 bytes.
\<close>
theorem udp_reply_bounded:
  assumes "config_wf cr cf" and "step cr cf s (Udp (Datagram now src clk datagram)) (Udp_reply dst bs) s'"
  shows "dst = src \<and> fst (check (sv_limiter s) (now, fst src)) \<and>
    handle_query cr clk (take 4096 datagram) cf = ret (Some bs) \<and> length bs \<le> max 1232 (length datagram)"
proof -
  let ?q = "take 4096 datagram"
  have h: "dst = src \<and> fst (check (sv_limiter s) (now, fst src)) \<and> handle_query cr clk ?q cf = ret (Some bs)"
    using assms(2) by (auto simp: step_Udp_iff serve_udp_def Let_def split: prod.splits if_splits option.splits
        Option.bind_splits)
  then have "length bs \<le> max (udp_limit ?q) (case qend ?q of None \<Rightarrow> 12 | Some e \<Rightarrow> e)"
    using handle_query_length [OF assms(1)] by blast
  also have "\<dots> \<le> max 1232 (length datagram)"
    using udp_limit_bounds [of ?q] qend_bounds [of ?q] by (auto split: option.split)
  finally show ?thesis using h by blast
qed

lemma udp_reply_bounded_witness:
  "\<exists>s' bs. step toy_crypto toy_config toy_server
     (Udp (Datagram 0 (V4 (Ipv4 10 0 0 1), 4000) (\<lambda>_. None) (toy_hdr[2 := 0x28])))
     (Udp_reply (V4 (Ipv4 10 0 0 1), 4000) bs) s' \<and> length bs \<le> max 1232 (length (toy_hdr[2 := 0x28]))"
proof -
  let ?q = "toy_hdr[2 := 0x28]" and ?src = "(V4 (Ipv4 10 0 0 1), 4000) :: socket_addr"
  have r: "handle_query toy_crypto (\<lambda>_. None) (take 4096 ?q) toy_config =
      ret (Some [0x12, 0x34, 168, 4, 0, 1, 0, 0, 0, 0, 0, 0])" by code_simp
  have up: "sv_running toy_server" "sv_udp_alive toy_server" by (simp_all add: toy_server_def)
  have "serve_udp toy_crypto toy_config (sv_limiter toy_server) (Datagram 0 ?src (\<lambda>_. None) ?q) =
      (ret (Some (?src, [0x12, 0x34, 168, 4, 0, 1, 0, 0, 0, 0, 0, 0])),
       snd (check (sv_limiter toy_server) (0, V4 (Ipv4 10 0 0 1))))"
    using r toy_server_allows [of "(0, V4 (Ipv4 10 0 0 1))"]
    by (simp add: serve_udp_def case_prod_unfold Let_def)
  from step.udp [OF up this] obtain s' where st: "step toy_crypto toy_config toy_server
      (Udp (Datagram 0 ?src (\<lambda>_. None) ?q)) (Udp_reply ?src [0x12, 0x34, 168, 4, 0, 1, 0, 0, 0, 0, 0, 0]) s'"
    by simp
  from udp_reply_bounded [OF toy_config_wf st] st show ?thesis by blast
qed

section \<open>The answer\<close>

text \<open>
  C1: the purpose of the server, end to end: a client that is admitted and asks, without DNSSEC, for
  the A record of a host name of the zone that spells an IPv4 address gets over either transport a
  well-formed message with the identifier and the question of its query whose answer section is
  exactly one A record with that address, and whose other sections are empty (but for the OPT
  record of an EDNS client).  At 485 bytes the reply needs no truncation over UDP.
\<close>
theorem address_query_served:
  assumes "config_wf cr cf" and "config_fit cr cf" and "query_hdr hdr" and "opcode q = 0"
    and "qlabels_ok ls" and "utf8_labels ls" and "ls \<noteq> []"
    and "q = question hdr ls TYPE_A 1 rest" and "length q \<le> 485"
    and "host_name cf (join_with [DOT] ls)" and "\<not> wants_dnssec q"
    and "interpret_ip (join_with [DOT] ls) = ret (Some (Some ip, v6))"
    and "sv_running s" and "sv_udp_alive s" and "fst (check (sv_limiter s) (now, fst src))"
  shows "\<exists>r m. read_message r = Some m \<and>
    ms_id m = of_be16 (q ! 0) (q ! 1) \<and> ms_question m = (ls, TYPE_A, 1) \<and>
    ms_answers m = [\<lparr> wr_owner = None, wr_typ = TYPE_A, wr_class = 1, wr_ttl = 60,
                       wr_rdata = octets4 ip \<rparr>] \<and>
    ms_authority m = [] \<and> ms_additional m = (if has_opt q then [opt_view False] else []) \<and>
    (\<exists>s'. step cr cf s (Udp (Datagram now src clk q)) (Udp_reply src r) s') \<and>
    (\<exists>s'. step cr cf s (Tcp (Connection now (Some src) clk (be16 (of_nat (length q)) @ q) None))
       (Tcp_reply (be16 (of_nat (length r)) @ r)) s')"
proof -
  have "length q \<le> 60000" using assms(9) by simp
  from address_answered [OF assms(1-8) this assms(10-12), of clk] obtain r m where
    r: "handle_query_internal cr clk q cf = ret r" "length r \<le> length q + 27" and m: "read_message r = Some m"
      "ms_id m = of_be16 (q ! 0) (q ! 1)" "ms_question m = (ls, TYPE_A, 1)"
      "ms_answers m = [\<lparr> wr_owner = None, wr_typ = TYPE_A, wr_class = 1, wr_ttl = 60, wr_rdata = octets4 ip \<rparr>]"
      "ms_authority m = []" "ms_additional m = (if has_opt q then [opt_view False] else [])"
    by blast
  have "r \<noteq> []" using m(1) by (auto simp: read_message_def)
  then have "handle_query cr clk q cf = ret (Some r)"
    using handle_query_fits [OF assms(1) r(1)] r(2) assms(9) by simp
  then have "serve_udp cr cf (sv_limiter s) (Datagram now src clk q) =
      (ret (Some (src, r)), snd (check (sv_limiter s) (now, fst src)))"
    using assms(9,15) by (simp add: serve_udp_def case_prod_unfold Let_def)
  from step.udp [OF assms(13,14) this]
  have udp: "\<exists>s'. step cr cf s (Udp (Datagram now src clk q)) (Udp_reply src r) s'" by auto
  have "frame_of (be16 (of_nat (length q)) @ q) = Some q" using frame_of_reply [of q] assms(9) by simp
  with r(1) have "serve_tcp cr cf (sv_limiter s) (Connection now (Some src) clk (be16 (of_nat (length q)) @ q) None) =
      (ret (be16 (of_nat (length r)) @ r, Go_on), snd (check (sv_limiter s) (now, fst src)))"
    using assms(15) by (simp add: serve_tcp_frame answer_tcp_eq)
  from step.tcp [OF assms(13) this] have "\<exists>s'. step cr cf s
      (Tcp (Connection now (Some src) clk (be16 (of_nat (length q)) @ q) None)) (Tcp_reply (be16 (of_nat (length r)) @ r)) s'"
    by (fastforce simp: be16_def)
  with m udp show ?thesis by blast
qed

lemma address_query_served_witness:
  "let q = question toy_hdr [lit ''app-10-0-0-1'', lit ''nip'', lit ''nu''] 1 1 [] in
   \<exists>r m s'. read_message r = Some m \<and> map wr_rdata (ms_answers m) = [[10, 0, 0, 1]] \<and>
     step toy_crypto toy_config toy_server (Udp (Datagram 0 (V4 (Ipv4 10 0 0 9), 4000) (\<lambda>_. None) q))
       (Udp_reply (V4 (Ipv4 10 0 0 9), 4000) r) s'"
proof -
  let ?ls = "[lit ''app-10-0-0-1'', lit ''nip'', lit ''nu'']" and ?q = "question toy_hdr
      [lit ''app-10-0-0-1'', lit ''nip'', lit ''nu''] 1 1 []"
  have h: "query_hdr toy_hdr" and o: "opcode ?q = 0" and l: "qlabels_ok ?ls" and u: "utf8_labels ?ls"
    and len: "length ?q \<le> 485" and host: "host_name toy_config (join_with [DOT] ?ls)"
    and w: "\<not> wants_dnssec ?q"
    and ip: "interpret_ip (join_with [DOT] ?ls) = ret (Some (Some (Ipv4 10 0 0 1), None))"
    by code_simp+
  have up: "sv_running toy_server" "sv_udp_alive toy_server" by (simp_all add: toy_server_def)
  obtain r m s' where "read_message r = Some m" and "map wr_rdata (ms_answers m) = [[10, 0, 0, 1]]"
    and "step toy_crypto toy_config toy_server (Udp (Datagram 0 (V4 (Ipv4 10 0 0 9), 4000) (\<lambda>_. None) ?q))
      (Udp_reply (V4 (Ipv4 10 0 0 9), 4000) r) s'"
    using address_query_served [OF toy_config_wf toy_config_fit h o l u _ _ len host w ip up toy_server_allows,
        where rest = "[]" and clk = "\<lambda>_. None" and now = 0 and src = "(V4 (Ipv4 10 0 0 9), 4000)"]
    by auto
  then show ?thesis
    unfolding Let_def by (intro exI [of _ r] exI [of _ m] exI [of _ s'] conjI)
qed



section \<open>When the server stops\<close>

text \<open>
  C12: the process ends exactly at a TCP connection whose address cannot be read, or whose
  client, after a complete frame, takes fewer bytes than the framed reply: \<open>main\<close> passes both
  errors on with \<open>?\<close>.  No UDP traffic, no failed accept, no rate-limited and no half-sent query
  ends it.
\<close>
theorem stops_iff:
  assumes "config_wf cr cf" and "step cr cf s e r s'"
  shows "\<not> sv_running s' \<longleftrightarrow>
    (\<exists>now clk input room. e = Tcp (Connection now None clk input room)) \<or>
    (\<exists>now peer clk input n q response. e = Tcp (Connection now (Some peer) clk input (Some n)) \<and>
       fst (check (sv_limiter s) (now, fst peer)) \<and> frame_of input = Some q \<and>
       handle_query_internal cr clk q cf = ret response \<and> n < 2 + length response)"
proof (cases e)
  case (Udp u)
  with assms(2) show ?thesis by (auto simp: step_Udp_iff)
next
  case (Tcp t)
  show ?thesis
  proof (cases t)
    case Accept_error
    with assms(2) show ?thesis by (auto simp: Tcp step_Tcp_iff serve_tcp_def)
  next
    case (Connection now peer clk input room)
    show ?thesis
    proof (cases peer)
      case None
      with assms(2) show ?thesis by (auto simp: Tcp Connection step_Tcp_iff serve_tcp_def)
    next
      case (Some p)
      have "length (be16 w) = 2" for w by (simp add: be16_def)
      with assms(2) show ?thesis
        by (auto simp: Tcp Connection Some step_Tcp_iff serve_tcp_frame answer_tcp_eq Let_def
            handle_query_internal_eq [OF assms(1)] split: if_splits option.splits)
    qed
  qed
qed

lemma stops_iff_witness:
  "\<exists>r s'. step toy_crypto toy_config toy_server (Udp Recv_error) r s' \<and> sv_running s'"
proof -
  obtain r s' where st: "step toy_crypto toy_config toy_server (Udp Recv_error) r s'"
    using step_exists [OF toy_config_wf, of toy_server "Udp Recv_error"] by (auto simp: toy_server_def)
  with stops_iff [OF toy_config_wf st] show ?thesis by blast
qed

text \<open>
  C37: one client can end the service for all: after any complete frame of an address that
  is not rate limited, a connection that breaks before the reply is taken ends the process, and
  nothing is served afterwards, over UDP either.
\<close>
theorem one_client_stops_server:
  assumes "config_wf cr cf" and "sv_running s" and "fst (check (sv_limiter s) (now, fst peer))"
    and "frame_of input = Some q" and "n < 2"
  shows "\<exists>r s'. step cr cf s (Tcp (Connection now (Some peer) clk input (Some n))) r s' \<and>
    \<not> sv_running s' \<and> (\<forall>e r s''. \<not> step cr cf s' e r s'')"
proof -
  obtain r where r: "handle_query_internal cr clk q cf = ret r"
    using handle_query_internal_eq [OF assms(1)] by blast
  have "serve_tcp cr cf (sv_limiter s) (Connection now (Some peer) clk input (Some n)) =
      (ret (take n (be16 (of_nat (length r)) @ r), Return_error), snd (check (sv_limiter s) (now, fst peer)))"
    using assms(3-5) r by (simp add: serve_tcp_frame answer_tcp_eq be16_def Let_def)
  from step.tcp [OF assms(2) this] obtain reply s' where
    st: "step cr cf s (Tcp (Connection now (Some peer) clk input (Some n))) reply s'" and down: "\<not> sv_running s'"
    by fastforce
  from down have "\<not> step cr cf s' e r s''" for e r s''
    by (cases e) (simp_all add: step_Udp_iff step_Tcp_iff)
  with st down show ?thesis by blast
qed

lemma one_client_stops_server_witness:
  "\<exists>r s'. step toy_crypto toy_config toy_server
     (Tcp (Connection 0 (Some (V4 (Ipv4 10 0 0 1), 4000)) (\<lambda>_. None) [0, 0] (Some 0))) r s' \<and> \<not> sv_running s'"
proof -
  have f: "frame_of [0, 0] = Some []" by code_simp
  have "sv_running toy_server" by (simp add: toy_server_def)
  from one_client_stops_server [OF toy_config_wf this toy_server_allows f, where n = 0 and now = 0
      and peer = "(V4 (Ipv4 10 0 0 1), 4000)" and clk = "\<lambda>_. None"]
  show ?thesis by auto
qed

section \<open>The quota over both transports\<close>

lemma answers_Cons:
  "answers ip rl (q # qs) = (if snd q = ip then [fst (check rl q)] else []) @ answers ip (snd (check rl q)) qs"
  by (simp add: answers_def del: run.simps(2))

lemma instants_Cons: "instants ip (q # qs) = (if snd q = ip then [fst q] else []) @ instants ip qs"
  by (simp add: instants_def)

definition requests :: "(event \<times> reply) list \<Rightarrow> (nat \<times> ip_addr) list" where
  "requests tr = List.map_filter (request \<circ> fst) tr"

text \<open>Whether a reply went to the address for a request between \<open>t\<close> and \<open>t + w\<close>.\<close>

definition replied :: "ip_addr \<Rightarrow> nat \<Rightarrow> nat \<Rightarrow> event \<times> reply \<Rightarrow> bool" where
  "replied ip t w = (\<lambda>(e, r). r \<noteq> Silent \<and>
     (case request e of None \<Rightarrow> False | Some (now, ip') \<Rightarrow> ip' = ip \<and> t \<le> now \<and> now < t + w))"

lemma replies_le_granted:
  "runs_to cr cf s tr s' \<Longrightarrow>
    length (filter (replied ip t w) tr) \<le>
      granted t w (answers ip (sv_limiter s) (requests tr)) (instants ip (requests tr))"
proof (induction rule: runs_to.induct)
  case (then_step s e r s' tr s'')
  note lim = step_limiter [OF then_step(1)]
  show ?case
  proof (cases "request e")
    case None
    with lim then_step.IH show ?thesis by (simp add: requests_def map_filter_simps replied_def)
  next
    case (Some q)
    then have "requests ((e, r) # tr) = q # requests tr" by (simp add: requests_def map_filter_simps)
    with Some lim then_step.IH show ?thesis
      by (cases q) (auto simp: answers_Cons instants_Cons replied_def)
  qed
qed (simp add: requests_def map_filter_simps)

text \<open>
  C10: the quota holds for the server as a whole: between any two instants a window apart, a
  source address gets at most twice the configured number of replies over UDP and TCP together,
  as long as the instants are taken in order.
\<close>
theorem replies_within_quota:
  assumes "sv_limiter s = config_limiter cf" and "is_enabled (config_limiter cf)"
    and "runs_to cr cf s tr s'" and "ordered fst 0 (requests tr)"
  shows "length (filter (replied ip t (cf_rate_limit_seconds cf * 1000000000)) tr) \<le>
    2 * unat (cf_rate_limit_requests cf)"
  using replies_le_granted [OF assms(3), of ip t "cf_rate_limit_seconds cf * 1000000000"]
    granted_le_quota [OF assms(4) assms(2) [unfolded config_limiter_def], of t ip]
  unfolding assms(1) config_limiter_def by (rule order_trans)

lemma replies_within_quota_witness:
  "\<exists>r s'. step toy_crypto (toy_config\<lparr>cf_rate_limit_seconds := 1, cf_rate_limit_requests := 1\<rparr>)
     \<lparr> sv_limiter = rate_limiter_new 1 1, sv_udp_alive = True, sv_running = True \<rparr>
     (Udp (Datagram 5 (V4 (Ipv4 10 0 0 1), 4000) (\<lambda>_. None) [])) r s' \<and>
   length (filter (replied (V4 (Ipv4 10 0 0 1)) 0 1000000000)
     [(Udp (Datagram 5 (V4 (Ipv4 10 0 0 1), 4000) (\<lambda>_. None) []), r)]) \<le> 2"
proof -
  let ?cf = "toy_config\<lparr>cf_rate_limit_seconds := 1, cf_rate_limit_requests := 1\<rparr>"
  let ?s = "\<lparr> sv_limiter = rate_limiter_new 1 1, sv_udp_alive = True, sv_running = True \<rparr>"
  let ?e = "Udp (Datagram 5 (V4 (Ipv4 10 0 0 1), 4000) (\<lambda>_. None) [])"
  have lim: "config_limiter ?cf = rate_limiter_new 1 1" by (simp add: config_limiter_def)
  have wf: "config_wf toy_crypto ?cf" using toy_config_wf by (simp add: config_wf_def)
  obtain r s' where st: "step toy_crypto ?cf ?s ?e r s'"
    using step_exists [OF wf, of ?s ?e] by auto
  have en: "is_enabled (config_limiter ?cf)" unfolding lim by (simp add: is_enabled_def rate_limiter_new_def)
  have "length (filter (replied (V4 (Ipv4 10 0 0 1)) 0 (cf_rate_limit_seconds ?cf * 1000000000)) [(?e, r)])
      \<le> 2 * unat (cf_rate_limit_requests ?cf)"
    by (rule replies_within_quota [OF _ en runs_to.then_step [OF st runs_to.done_now]])
      (simp_all add: config_limiter_def requests_def map_filter_simps)
  with st show ?thesis by auto
qed

end
