(* ===== verification/Validation.thy ===== *)
theory Validation
  imports Query "HOL-Library.Sublist"
begin

text \<open>
  A validating resolver, and what it makes of the replies: the reader of RRSIG data and the checks
  of RFC 4035, 5.3 for one record set, the rule that every record set of a section has one
  signature behind it, and the proof that whatever the server answers to a client with the DO bit
  passes, under the DNSKEY record of the configured key.
\<close>

section \<open>The validator\<close>

record rrsig =
  rs_covered :: u16
  rs_alg :: byte
  rs_labels :: byte
  rs_ttl :: u32
  rs_expiration :: u32
  rs_inception :: u32
  rs_tag :: u16
  rs_signer :: "rstr list"
  rs_signature :: bytes

definition dec_rrsig :: "bytes \<Rightarrow> rrsig option" where
  "dec_rrsig bs = do {
     (covered, bs) \<leftarrow> dec16 bs;
     (case bs of
        alg # n # bs \<Rightarrow> do {
          (ttl, bs) \<leftarrow> dec32 bs;
          (expiration, bs) \<leftarrow> dec32 bs;
          (inception, bs) \<leftarrow> dec32 bs;
          (tag, bs) \<leftarrow> dec16 bs;
          (signer, bs) \<leftarrow> wire_labels bs;
          Some \<lparr> rs_covered = covered, rs_alg = alg, rs_labels = n, rs_ttl = ttl,
                 rs_expiration = expiration, rs_inception = inception, rs_tag = tag,
                 rs_signer = signer, rs_signature = bs \<rparr>
        }
      | _ \<Rightarrow> None)
   }"

text \<open>The labels of an owner: those of the question behind a compression pointer; lower case.\<close>

definition owner_labels :: "rstr list \<Rightarrow> wire_rr \<Rightarrow> rstr list" where
  "owner_labels qls r = map to_lower (case wr_owner r of None \<Rightarrow> qls | Some ls \<Rightarrow> ls)"

text \<open>The tag of DNSKEY data, RFC 4034, appendix B.\<close>

definition dnskey_tag :: "bytes \<Rightarrow> nat" where
  "dnskey_tag rdata = (key_sum 0 rdata + key_sum 0 rdata div 65536) mod 65536"

text \<open>Records of one owner, type, class and TTL with no data twice (RFC 4034, 6.3).\<close>

definition rrset :: "rstr list \<Rightarrow> wire_rr list \<Rightarrow> bool" where
  "rrset qls rs \<longleftrightarrow> rs \<noteq> [] \<and> distinct (map wr_rdata rs) \<and>
     (\<forall>r \<in> set rs. owner_labels qls r = owner_labels qls (hd rs) \<and> wr_typ r = wr_typ (hd rs) \<and>
        wr_class r = wr_class (hd rs) \<and> wr_ttl r = wr_ttl (hd rs))"

text \<open>What the signature is made over: the RRSIG data without it, and the canonical records.\<close>

definition signed_data :: "rstr list \<Rightarrow> rrsig \<Rightarrow> wire_rr list \<Rightarrow> wire_rr \<Rightarrow> bytes" where
  "signed_data qls d rs s =
     take (length (wr_rdata s) - length (rs_signature d)) (wr_rdata s) @
     concat (map (\<lambda>rdata. enc_labels (owner_labels qls (hd rs)) @ be16 (wr_typ (hd rs)) @
       be16 (wr_class (hd rs)) @ be32 (rs_ttl d) @ be16 (of_nat (length rdata)) @ rdata)
       (sort (map wr_rdata rs)))"

text \<open>
  The record set \<open>rs\<close> with the RRSIG record \<open>s\<close> is valid at second \<open>now\<close> under the data \<open>dnskey\<close> of
  a zone key of \<open>zone\<close>: the conditions of RFC 4035, 5.3.1, among them that the signer is the zone
  and that the owner lies in it (its labels end in those of the zone), and the signature itself.
  \<open>verify\<close> is the ECDSA verification of a point, a message and a signature.
\<close>

definition valid_rrset :: "(bytes \<Rightarrow> bytes \<Rightarrow> bytes \<Rightarrow> bool) \<Rightarrow> nat \<Rightarrow> bytes \<Rightarrow> rstr list \<Rightarrow> rstr list \<Rightarrow>
    wire_rr list \<times> wire_rr \<Rightarrow> bool" where
  "valid_rrset verify now dnskey zone qls rss = (case rss of (rs, s) \<Rightarrow>
     rrset qls rs \<and> wr_typ s = TYPE_RRSIG \<and> owner_labels qls s = owner_labels qls (hd rs) \<and>
     wr_class s = wr_class (hd rs) \<and> wr_ttl s = wr_ttl (hd rs) \<and>
     suffix zone (owner_labels qls (hd rs)) \<and>
     (case dec_rrsig (wr_rdata s) of
        None \<Rightarrow> False
      | Some d \<Rightarrow>
          rs_covered d = wr_typ (hd rs) \<and> rs_alg d = 13 \<and> take 4 dnskey = [1, 1, 3, 13] \<and>
          unat (rs_labels d) = length (owner_labels qls (hd rs)) \<and>
          rs_ttl d = wr_ttl (hd rs) \<and> unat (rs_tag d) = dnskey_tag dnskey \<and> rs_signer d = zone \<and>
          unat (rs_inception d) \<le> now \<and> now \<le> unat (rs_expiration d) \<and>
          verify (4 # drop 4 dnskey) (signed_data qls d rs s) (rs_signature d)))"

text \<open>A section is a sequence of valid record sets, no two of one owner and type.\<close>

definition set_key :: "rstr list \<Rightarrow> wire_rr list \<times> wire_rr \<Rightarrow> rstr list \<times> u16" where
  "set_key qls rss = (owner_labels qls (hd (fst rss)), wr_typ (hd (fst rss)))"

definition valid_section :: "(bytes \<Rightarrow> bytes \<Rightarrow> bytes \<Rightarrow> bool) \<Rightarrow> nat \<Rightarrow> bytes \<Rightarrow> rstr list \<Rightarrow> rstr list \<Rightarrow>
    wire_rr list \<Rightarrow> bool" where
  "valid_section verify now dnskey zone qls rrs \<longleftrightarrow>
     (\<exists>sets. rrs = concat (map (\<lambda>(rs, s). rs @ [s]) sets) \<and> distinct (map (set_key qls) sets) \<and>
       (\<forall>rss \<in> set sets. valid_rrset verify now dnskey zone qls rss))"

text \<open>The clock of the signer and the one of the resolver agree within the validity of a signature.\<close>

definition clocks_agree :: "clock \<Rightarrow> nat \<Rightarrow> bool" where
  "clocks_agree clk now \<longleftrightarrow>
     (\<forall>n. \<exists>s. clk n = Some s \<and> s \<le> now + 3600 \<and> now \<le> s + 604800 \<and> s + 604800 < 4294967296)"

section \<open>A run of records and its signature\<close>

lemma dec_rrsig_prefix:
  assumes "name_ok signer"
  shows "dec_rrsig (rrsig_prefix clk n key owner typ ttl signer @ sig) = Some
    \<lparr> rs_covered = typ, rs_alg = 13, rs_labels = label_count owner, rs_ttl = ttl,
      rs_expiration = snd (signature_times clk n), rs_inception = fst (signature_times clk n),
      rs_tag = dk_key_tag key, rs_signer = map to_lower (labels signer), rs_signature = sig \<rparr>"
proof -
  have "wire_labels (encode_domain_name signer @ sig) = Some (map to_lower (labels signer), sig)"
    using assms by (simp add: encode_domain_name_labels wire_name.dec_enc name_ok_def)
  then show ?thesis by (simp add: dec_rrsig_def rrsig_prefix_def)
qed

text \<open>The labels of the owner of a record of the model.\<close>

definition rr_labels :: "rstr list \<Rightarrow> rr \<Rightarrow> rstr list" where
  "rr_labels qls r = (case rr_owner r of Question \<Rightarrow> map to_lower qls | Name n \<Rightarrow> map to_lower (labels n))"

lemma owner_labels_view: "owner_labels qls (view r) = rr_labels qls r"
  by (auto simp: owner_labels_def view_def rr_labels_def split: owner.split)

lemma label_count_labels:
  assumes "\<forall>l \<in> set ls. label_ok l"
  shows "unat (label_count (enc_labels ls)) = min 255 (length ls)"
  using assms label_count_loop_enc [of ls "[]" "[]" 0] by (simp add: label_count_def)

lemma canonical_owner_labels:
  assumes "query_hdr hdr" and "qlabels_ok ls" and "q = question hdr ls qtype qclass rest"
  shows "canonical_owner q (rr_owner r) = enc_labels (rr_labels ls r)"
proof (cases "rr_owner r")
  case Question
  have hdr: "length hdr = 12" using assms(1) by (simp add: query_hdr_def)
  have "canonical_owner q Question = lower_wire (qname_of q)"
    using qend_question [OF hdr assms(2)] by (simp add: assms(3) qname_of_def)
  also have "\<dots> = enc_labels (map to_lower ls)"
    using assms(2) lower_wire_enc [of ls "[]"]
    by (simp add: assms(3) qname_of_question [OF hdr assms(2)] qlabels_ok_def)
  finally show ?thesis by (simp add: Question rr_labels_def)
next
  case (Name n)
  then show ?thesis by (simp add: rr_labels_def encode_domain_name_labels)
qed

text \<open>What a record set needs to be signed soundly.\<close>

definition signable :: "rstr list \<Rightarrow> rr list \<Rightarrow> bool" where
  "signable qls g \<longleftrightarrow> g \<noteq> [] \<and> distinct (map rr_rdata g) \<and> rr_typ (hd g) \<noteq> TYPE_RRSIG \<and>
     (\<forall>l \<in> set (rr_labels qls (hd g)). label_ok l) \<and> length (rr_labels qls (hd g)) \<le> 255"

lemma rr_labels_update [simp]: "rr_labels qls (r\<lparr>rr_rdata := d\<rparr>) = rr_labels qls r"
  "rr_labels qls (r\<lparr>rr_typ := t\<rparr>) = rr_labels qls r"
  by (simp_all add: rr_labels_def)

lemma view_simps [simp]:
  "wr_typ (view r) = rr_typ r" "wr_class (view r) = 1" "wr_ttl (view r) = rr_ttl r"
  "wr_rdata (view r) = rr_rdata r"
  by (simp_all add: view_def)

lemma sorted_run_rrset:
  assumes "signable qls g"
  shows "rrset qls (map view (sorted_run g)) \<and> map wr_rdata (map view (sorted_run g)) = sort (map rr_rdata g) \<and>
    owner_labels qls (hd (map view (sorted_run g))) = rr_labels qls (hd g) \<and>
    wr_typ (hd (map view (sorted_run g))) = rr_typ (hd g) \<and> wr_class (hd (map view (sorted_run g))) = 1 \<and>
    wr_ttl (hd (map view (sorted_run g))) = rr_ttl (hd g)"
proof -
  let ?ds = "sort (map rr_rdata g)"
  have "?ds \<noteq> []" using assms by (metis signable_def length_0_conv length_map length_sort)
  then obtain d ds where ds: "?ds = d # ds" by (cases ?ds) simp_all
  have dist: "distinct (d # ds)" using assms unfolding ds [symmetric] by (simp add: signable_def)
  have v: "map view (sorted_run g) = map (\<lambda>d. view ((hd g)\<lparr>rr_rdata := d\<rparr>)) (d # ds)"
    unfolding sorted_run_def ds map_map o_def ..
  have w: "map wr_rdata (map view (sorted_run g)) = d # ds"
    unfolding v map_map o_def by simp
  show ?thesis
    unfolding ds rrset_def w unfolding v using dist by (simp add: owner_labels_view)
qed

lemma valid_run:
  assumes "query_hdr hdr" and "qlabels_ok ls" and "q = question hdr ls qtype qclass rest"
    and "key_wf cr key" and "\<And>k m. verify (cr_point cr k) m (cr_sign cr k m)"
    and "name_ok (zp_zone p)" and "clocks_agree clk now" and "signable ls g"
    and "suffix (map to_lower (labels (zp_zone p))) (rr_labels ls (hd g))"
  shows "valid_rrset verify now (dk_dnskey_rdata key) (map to_lower (labels (zp_zone p))) ls
    (map view (sorted_run g), view (rrsig_of cr clk i q p key g))"
proof -
  let ?h = "hd g" and ?ds = "sort (map rr_rdata g)"
  let ?owner = "canonical_owner q (rr_owner ?h)"
  let ?prefix = "rrsig_prefix clk i key ?owner (rr_typ ?h) (rr_ttl ?h) (zp_zone p)"
  let ?msg = "?prefix @ concat (map (signed_rr ?owner (rr_typ ?h) (rr_ttl ?h)) ?ds)"
  let ?sig = "cr_sign cr (dk_signing_key key) ?msg"
  have owner: "?owner = enc_labels (rr_labels ls ?h)" by (rule canonical_owner_labels [OF assms(1-3)])
  have lab: "\<forall>l \<in> set (rr_labels ls ?h). label_ok l" "length (rr_labels ls ?h) \<le> 255"
    using assms(8) by (simp_all add: signable_def)
  then have count: "unat (label_count ?owner) = length (rr_labels ls ?h)"
    using label_count_labels [of "rr_labels ls ?h"] unfolding owner by simp
  note key = assms(4) [unfolded key_wf_def]
  have rd: "wr_rdata (view (rrsig_of cr clk i q p key g)) = ?prefix @ ?sig"
    by (simp add: rrsig_of_def sign_rrsig_eq Let_def)
  have tag: "unat (dk_key_tag key) = dnskey_tag (dk_dnskey_rdata key)"
    using key unat_key_tag [of "dk_dnskey_rdata key"] by (simp add: dnskey_tag_def)
  obtain s where s: "clk i = Some s" "s \<le> now + 3600" "now \<le> s + 604800" "s + 604800 < 4294967296"
    using assms(7) unfolding clocks_agree_def by blast
  then have times: "unat (fst (signature_times clk i)) \<le> now" "now \<le> unat (snd (signature_times clk i))"
    by (simp_all add: unat_signature_times [of clk i s, OF s(1)])
  have "verify (4 # drop 4 (dk_dnskey_rdata key)) ?msg ?sig"
    using assms(5) [of "dk_signing_key key" ?msg] key by simp
  then show ?thesis
    using sorted_run_rrset [OF assms(8)] rd tag times count key assms(9)
    by (simp add: valid_rrset_def dec_rrsig_prefix [OF assms(6)] signed_data_def signed_rr_def [abs_def] owner
        owner_labels_view rrsig_of_def sorted_sort_id [OF sorted_sort])
qed

section \<open>Sections\<close>

text \<open>Blocks of records of one owner and type, all different, are the runs of their concatenation.\<close>

definition rr_key :: "rr \<Rightarrow> rstr list option \<times> u16" where
  "rr_key r = (wr_owner (view r), rr_typ r)"

lemma owner_eq_view:
  "owner_eq (rr_owner r) (rr_owner r') \<longleftrightarrow> wr_owner (view r) = wr_owner (view r')"
proof -
  have "names_eq x y \<longleftrightarrow> map to_lower (labels x) = map to_lower (labels y)" for x y
    by (simp add: names_eq_labels)
  then show ?thesis by (simp add: owner_eq_def view_def split: owner.split)
qed

definition block :: "rr list \<Rightarrow> bool" where
  "block g \<longleftrightarrow> g \<noteq> [] \<and> (\<forall>r \<in> set g. rr_key r = rr_key (hd g))"

lemma add_run_key:
  "add_run gs r = (if gs \<noteq> [] \<and> rr_key (hd (last gs)) = rr_key r
     then butlast gs @ [last gs @ [r]] else gs @ [[r]])"
  by (simp add: add_run_def owner_eq_view rr_key_def)

lemma foldl_block:
  "g \<noteq> [] \<Longrightarrow> \<forall>r \<in> set h. rr_key r = rr_key (hd g) \<Longrightarrow> foldl add_run (gs @ [g]) h = gs @ [g @ h]"
proof (induction h arbitrary: g)
  case (Cons r h)
  then have "add_run (gs @ [g]) r = gs @ [g @ [r]]" by (simp add: add_run_key)
  with Cons.IH [of "g @ [r]"] Cons.prems show ?case by simp
qed simp

lemma runs_blocks_onto:
  "\<forall>h \<in> set hs. block h \<Longrightarrow> [] \<notin> set gs \<Longrightarrow> distinct (map (rr_key \<circ> hd) (gs @ hs)) \<Longrightarrow>
     foldl add_run gs (concat hs) = gs @ hs"
proof (induction hs arbitrary: gs)
  case (Cons h hs)
  have "block h" using Cons.prems(1) by simp
  then obtain r h' where h: "h = r # h'" and same: "\<forall>x \<in> set h'. rr_key x = rr_key r"
    by (cases h) (simp_all add: block_def)
  have "rr_key (hd (last gs)) \<noteq> rr_key r" if "gs \<noteq> []"
  proof -
    have "rr_key r \<notin> (rr_key \<circ> hd) ` set gs" using Cons.prems(3) by (simp add: h)
    moreover have "(rr_key \<circ> hd) (last gs) \<in> (rr_key \<circ> hd) ` set gs" using last_in_set [OF that] by (rule imageI)
    ultimately show ?thesis by auto
  qed
  then have "add_run gs r = gs @ [[r]]" by (auto simp: add_run_key)
  then have "foldl add_run gs h = gs @ [h]" using foldl_block [of "[r]" h' gs] same by (simp add: h)
  moreover have "foldl add_run (gs @ [h]) (concat hs) = (gs @ [h]) @ hs"
    by (rule Cons.IH) (use Cons.prems h in auto)
  ultimately show ?case by simp
qed simp

lemma runs_blocks:
  "\<forall>h \<in> set hs. block h \<Longrightarrow> distinct (map (rr_key \<circ> hd) hs) \<Longrightarrow> runs (concat hs) = hs"
  using runs_blocks_onto [of hs "[]"] by (simp add: runs_def)

text \<open>A section the signer may sign: its runs are signable and no owner and type occurs twice.\<close>

definition well_grouped :: "rstr list \<Rightarrow> rr list \<Rightarrow> bool" where
  "well_grouped qls rrs \<longleftrightarrow> (\<forall>g \<in> set (runs rrs). signable qls g) \<and>
     distinct (map (\<lambda>g. (rr_labels qls (hd g), rr_typ (hd g))) (runs rrs))"

text \<open>All owners lie in the zone of the signer.\<close>

definition owners_in :: "rstr list \<Rightarrow> rstr list \<Rightarrow> rr list \<Rightarrow> bool" where
  "owners_in zone qls rrs \<longleftrightarrow> (\<forall>r \<in> set rrs. suffix zone (rr_labels qls r))"

lemma owners_in_run:
  assumes "owners_in zone qls rrs" and "g \<in> set (runs rrs)" and "g \<noteq> []"
  shows "suffix zone (rr_labels qls (hd g))"
proof -
  have "hd g \<in> set (concat (runs rrs))"
    unfolding set_concat using assms(2) hd_in_set [OF assms(3)] by blast
  with assms(1) show ?thesis by (simp add: owners_in_def)
qed

lemma valid_signed_runs:
  assumes "query_hdr hdr" and "qlabels_ok ls" and "q = question hdr ls qtype qclass rest"
    and "key_wf cr key" and "\<And>k m. verify (cr_point cr k) m (cr_sign cr k m)"
    and "name_ok (zp_zone p)" and "clocks_agree clk now"
    and "zp_dnssec p = Some key" and "zp_do_bit p" and "well_grouped ls rrs"
    and "owners_in (map to_lower (labels (zp_zone p))) ls rrs"
  shows "valid_section verify now (dk_dnskey_rdata key) (map to_lower (labels (zp_zone p))) ls
    (map view (fst (signed_runs cr clk n q p (runs rrs))))"
proof -
  let ?sets = "map (\<lambda>(i, g). (map view (sorted_run g), view (rrsig_of cr clk i q p key g))) (enumerate n (runs rrs))"
  have sg: "signable ls g" if "g \<in> set (runs rrs)" for g
    using assms(10) that by (simp add: well_grouped_def)
  have "\<forall>g \<in> set (runs rrs). rr_typ (hd g) \<noteq> TYPE_RRSIG" using sg by (simp add: signable_def)
  from signed_runs_signed [OF assms(8,9) this, of cr clk n q]
  have eq: "map view (fst (signed_runs cr clk n q p (runs rrs))) = concat (map (\<lambda>(rs, s). rs @ [s]) ?sets)"
    by (simp add: map_concat o_def case_prod_unfold)
  have keys: "set_key ls (map view (sorted_run g), s) = (rr_labels ls (hd g), rr_typ (hd g))"
    if "signable ls g" for g s
    using sorted_run_rrset [OF that] by (simp add: set_key_def)
  have "map (set_key ls) (map (\<lambda>(i, g). (map view (sorted_run g), f i g)) (enumerate m gs)) =
      map (\<lambda>g. (rr_labels ls (hd g), rr_typ (hd g))) gs" if "\<forall>g \<in> set gs. signable ls g" for f m gs
    using that by (induction gs arbitrary: m) (simp_all add: keys)
  then have "distinct (map (set_key ls) ?sets)"
    using assms(10) sg by (simp add: well_grouped_def del: map_map)
  moreover have "valid_rrset verify now (dk_dnskey_rdata key) (map to_lower (labels (zp_zone p))) ls rss"
    if r: "rss \<in> set ?sets" for rss
  proof -
    obtain i g where "rss = (map view (sorted_run g), view (rrsig_of cr clk i q p key g))"
      and "(i, g) \<in> set (enumerate n (runs rrs))"
      using r by auto
    moreover from this(2) have "g \<in> set (runs rrs)" unfolding enumerate_eq_zip by (rule set_zip_rightD)
    moreover from this sg have "suffix (map to_lower (labels (zp_zone p))) (rr_labels ls (hd g))"
      by (intro owners_in_run [OF assms(11)]) (simp_all add: signable_def)
    ultimately show ?thesis using valid_run [where verify = verify, OF assms(1-7) sg [of g]] by simp
  qed
  ultimately show ?thesis unfolding valid_section_def eq by blast
qed

section \<open>The sections of the server\<close>

lemma rr_labels_key: "rr_labels qls r = (case fst (rr_key r) of None \<Rightarrow> map to_lower qls | Some ls \<Rightarrow> ls)"
  by (simp add: rr_labels_def rr_key_def view_def split: owner.split)

lemma distinct_mapD: "distinct (map f xs) \<Longrightarrow> distinct xs"
  by (simp add: distinct_map)

lemma well_grouped_blocks:
  assumes "\<forall>h \<in> set hs. block h \<and> signable qls h"
    and "distinct (map (\<lambda>h. (rr_labels qls (hd h), rr_typ (hd h))) hs)"
  shows "well_grouped qls (concat hs)"
proof -
  let ?f = "\<lambda>(l, t). (case l of None \<Rightarrow> map to_lower qls | Some ls \<Rightarrow> ls, t)"
  have "map (\<lambda>h. (rr_labels qls (hd h), rr_typ (hd h))) hs = map ?f (map (rr_key \<circ> hd) hs)"
    by (simp add: rr_labels_key rr_key_def)
  with assms(2) have "distinct (map ?f (map (rr_key \<circ> hd) hs))" by (simp only:)
  then have "distinct (map (rr_key \<circ> hd) hs)" by (rule distinct_mapD)
  with assms show ?thesis by (simp add: well_grouped_def runs_blocks)
qed

text \<open>The names of a record are usable: labels of at most 63 bytes, at most 255 of them.\<close>

definition names_fit :: "rstr list \<Rightarrow> rr \<Rightarrow> bool" where
  "names_fit qls r \<longleftrightarrow> (\<forall>l \<in> set (rr_labels qls r). label_ok l) \<and> length (rr_labels qls r) \<le> 255"

lemma length_labels: "length (labels n) \<le> Suc (length n)"
proof -
  have "length (split_on c s) \<le> Suc (length s)" for c s using length_split_on [of c s] by linarith
  moreover have "length (trim_end DOT n) \<le> length n" using trim_end_prefix [of n DOT] by (metis le_add1 length_append)
  ultimately show ?thesis by (auto simp: labels_def intro: order_trans)
qed

lemma names_fit_name: "short_name n \<Longrightarrow> rr_owner r = Name n \<Longrightarrow> names_fit qls r"
  using length_labels [of n] by (auto simp: names_fit_def rr_labels_def short_name_def name_ok_def)

lemma names_fit_Name:
  "short_name n \<Longrightarrow> names_fit qls \<lparr> rr_owner = Name n, rr_typ = t, rr_ttl = ttl, rr_rdata = d \<rparr>"
  by (simp add: names_fit_name)

lemma names_fit_question:
  "qlabels_ok qls \<Longrightarrow> length qls \<le> 255 \<Longrightarrow> rr_owner r = Question \<Longrightarrow> names_fit qls r"
  by (auto simp: names_fit_def rr_labels_def qlabels_ok_def)

lemma single_block [simp]: "block [r]"
  by (simp add: block_def)

lemma single_signable [simp]: "signable qls [r] \<longleftrightarrow> rr_typ r \<noteq> TYPE_RRSIG \<and> names_fit qls r"
  by (simp add: signable_def names_fit_def)

lemma well_grouped_Nil [simp]: "well_grouped qls []"
  by (simp add: well_grouped_def runs_def)

text \<open>Sections at the name of the question: one record set per type.\<close>

definition question_set :: "rr list \<Rightarrow> bool" where
  "question_set g \<longleftrightarrow> g \<noteq> [] \<and> distinct (map rr_rdata g) \<and>
     (\<forall>r \<in> set g. rr_owner r = Question \<and> rr_typ r = rr_typ (hd g) \<and> rr_typ r \<noteq> TYPE_RRSIG)"

lemma question_set_block:
  assumes "question_set g" and "qlabels_ok qls" and "length qls \<le> 255"
  shows "block g \<and> signable qls g"
proof -
  have g: "g \<noteq> []" "distinct (map rr_rdata g)"
    using assms(1) unfolding question_set_def by blast+
  have r: "rr_owner r = Question \<and> rr_typ r = rr_typ (hd g) \<and> rr_typ r \<noteq> TYPE_RRSIG" if "r \<in> set g" for r
    using assms(1) that unfolding question_set_def by blast+
  have "rr_key r = (None, rr_typ (hd g))" if "r \<in> set g" for r
    using r [OF that] by (simp add: rr_key_def view_def)
  then have "block g" using hd_in_set [OF g(1)] g(1) by (simp add: block_def)
  moreover have "names_fit qls (hd g)"
    using r [OF hd_in_set [OF g(1)]] names_fit_question [OF assms(2,3)] by blast
  ultimately show ?thesis
    using g r [OF hd_in_set [OF g(1)]] by (simp add: signable_def names_fit_def)
qed

lemma well_grouped_question:
  assumes "qlabels_ok qls" and "length qls \<le> 255"
    and "list_all question_set hs" and "distinct (map (\<lambda>h. rr_typ (hd h)) hs)"
  shows "well_grouped qls (concat hs)"
proof (rule well_grouped_blocks)
  show "\<forall>h \<in> set hs. block h \<and> signable qls h"
    using assms(3) question_set_block [OF _ assms(1,2)] by (simp add: list_all_iff)
  have "map (\<lambda>h. rr_typ (hd h)) hs = map snd (map (\<lambda>h. (rr_labels qls (hd h), rr_typ (hd h))) hs)" by simp
  with assms(4) have "distinct (map snd (map (\<lambda>h. (rr_labels qls (hd h), rr_typ (hd h))) hs))"
    by (simp only:)
  then show "distinct (map (\<lambda>h. (rr_labels qls (hd h), rr_typ (hd h))) hs)" by (rule distinct_mapD)
qed

lemma question_set_single: "rr_owner r = Question \<Longrightarrow> rr_typ r \<noteq> TYPE_RRSIG \<Longrightarrow> question_set [r]"
  by (simp add: question_set_def)

definition distinct_servers :: "'k zone_params \<Rightarrow> bool" where
  "distinct_servers p \<longleftrightarrow> zp_ns_names p \<noteq> [] \<and> distinct (map encode_domain_name (zp_ns_names p))"

lemma question_set_ns: "distinct_servers p \<Longrightarrow> question_set (ns_rrs p)"
  by (auto simp: question_set_def ns_rrs_def question_rr_def distinct_servers_def o_def hd_map)

lemmas question_records = a_rr_def aaaa_rr_def soa_rr_def txt_rr_def dnskey_rr_def cds_rr_def cdnskey_rr_def
  nsec_rr_def question_rr_def

lemma hd_ns_typ: "distinct_servers p \<Longrightarrow> rr_typ (hd (ns_rrs p)) = TYPE_NS"
  by (simp add: distinct_servers_def ns_rrs_def hd_map question_rr_def)

lemma apex_answers_grouped:
  assumes "qlabels_ok qls" and "length qls \<le> 255" and "distinct_servers p"
  shows "well_grouped qls (apex_answers cr q qtype p)"
proof -
  note grouped = well_grouped_question [OF assms(1,2)]
  note sets = question_set_ns [OF assms(3)] hd_ns_typ [OF assms(3)]
  have one: "well_grouped qls [r]" if "rr_owner r = Question" "rr_typ r \<noteq> TYPE_RRSIG" for r
    using grouped [of "[[r]]"] that by (simp add: question_set_single)
  have ns: "well_grouped qls (ns_rrs p)" using grouped [of "[ns_rrs p]"] sets by simp
  let ?any = "[[soa_rr Question p], ns_rrs p, [a_rr Question (zp_glue_ip p)]] @
      if_some (zp_glue_ip6 p) (\<lambda>ip. [[aaaa_rr Question ip]]) @ if_some (zp_spf p) (\<lambda>spf. [[txt_rr spf]]) @
      if_some (zp_dnssec p) (\<lambda>key. [[dnskey_rr key], [cds_rr cr p key], [cdnskey_rr key]])"
  have "list_all question_set ?any \<and> distinct (map (\<lambda>h. rr_typ (hd h)) ?any)"
    using sets by (auto simp: if_some_def question_set_single question_records split: option.split)
  then have any: "well_grouped qls (concat ?any)" by (intro grouped) simp_all
  have "concat ?any = soa_rr Question p # ns_rrs p @ [a_rr Question (zp_glue_ip p)] @
        if_some (zp_glue_ip6 p) (\<lambda>ip. [aaaa_rr Question ip]) @
        if_some (zp_spf p) (\<lambda>spf. [txt_rr spf]) @ if_some (zp_dnssec p) (\<lambda>key. [dnskey_rr key, cds_rr cr p key, cdnskey_rr key])"
    by (simp add: if_some_def split: option.split)
  with any ns one show ?thesis
    by (auto simp: apex_answers_def if_some_def question_records split: option.split)
qed

text \<open>The glue records: an A and an AAAA set per name server of the zone.\<close>

definition glue_blocks :: "'k zone_params \<Rightarrow> rstr \<Rightarrow> rr list list" where
  "glue_blocks p n = map (\<lambda>r. [r]) (glue_of p n)"

lemma concat_glue_blocks: "concat (concat (map (glue_blocks p) ns)) = concat (map (glue_of p) ns)"
  by (induction ns) (simp_all add: glue_blocks_def)

lemma glue_block_keys:
  "h \<in> set (glue_blocks p n) \<Longrightarrow> rr_labels qls (hd h) = map to_lower (labels n)"
  by (auto simp: glue_blocks_def glue_of_def rr_labels_def a_rr_def aaaa_rr_def split: if_splits option.splits)

lemma glue_blocks_distinct: "distinct (map (\<lambda>h. (rr_labels qls (hd h), rr_typ (hd h))) (glue_blocks p n))"
  by (auto simp: glue_blocks_def glue_of_def a_rr_def aaaa_rr_def split: option.split)

lemma glue_keys_distinct:
  "distinct (map encode_domain_name ns) \<Longrightarrow>
    distinct (map (\<lambda>h. (rr_labels qls (hd h), rr_typ (hd h))) (concat (map (glue_blocks p) ns)))"
proof (induction ns)
  case (Cons n ns)
  have ne: "map to_lower (labels n) \<noteq> map to_lower (labels m)" if "m \<in> set ns" for m
    using Cons.prems that by (force simp: encode_domain_name_labels)
  have "rr_labels qls (hd h) \<noteq> rr_labels qls (hd h')"
    if h: "h \<in> set (glue_blocks p n)" and h': "h' \<in> set (concat (map (glue_blocks p) ns))" for h h'
  proof -
    obtain m where m: "m \<in> set ns" "h' \<in> set (glue_blocks p m)" using h' by auto
    from ne [OF m(1)] show ?thesis
      unfolding glue_block_keys [OF h] glue_block_keys [OF m(2)] .
  qed
  then show ?case
    using Cons glue_blocks_distinct [of qls p n] by (simp only: map_append list.map concat.simps distinct_append) fastforce
qed simp

lemma glue_grouped:
  assumes "distinct_servers p" and "list_all short_name (zp_ns_names p)"
  shows "well_grouped qls (glue_rrs p)"
proof -
  have "block h \<and> signable qls h" if "h \<in> set (glue_blocks p n)" "short_name n" for h n
    using that by (auto simp: glue_blocks_def glue_of_def a_rr_def aaaa_rr_def names_fit_Name
        split: if_splits option.splits)
  then have "\<forall>h \<in> set (concat (map (glue_blocks p) (zp_ns_names p))). block h \<and> signable qls h"
    using assms(2) by (auto simp: list_all_iff)
  from well_grouped_blocks [OF this glue_keys_distinct]
  show ?thesis using assms(1) by (simp add: concat_glue_blocks glue_rrs_def distinct_servers_def)
qed

text \<open>All three sections of a content.\<close>

definition sections_grouped :: "rstr list \<Rightarrow> rr list \<times> rr list \<times> rr list \<Rightarrow> bool" where
  "sections_grouped qls sections \<longleftrightarrow>
     (case sections of (an, ns, ar) \<Rightarrow> well_grouped qls an \<and> well_grouped qls ns \<and> well_grouped qls ar)"

lemma well_grouped_single:
  "names_fit qls r \<Longrightarrow> rr_typ r \<noteq> TYPE_RRSIG \<Longrightarrow> well_grouped qls [r]"
  using well_grouped_blocks [of "[[r]]" qls] by simp

lemma nodata_grouped:
  assumes "qlabels_ok qls" and "length qls \<le> 255" and "short_name (zp_zone p)"
  shows "sections_grouped qls (nodata_content q p types)"
proof -
  let ?soa = "soa_rr (Name (zp_zone p)) p" and ?nsec = "nsec_rr q p types"
  have fit: "names_fit qls ?soa" "names_fit qls ?nsec"
    using names_fit_name [OF assms(3), of ?soa] names_fit_question [OF assms(1,2), of ?nsec]
    by (simp_all add: question_records)
  have types: "rr_typ ?soa = 6" "rr_typ ?nsec = 47" by (simp_all add: question_records)
  have "well_grouped qls [?soa, ?nsec]"
    using well_grouped_blocks [of "[[?soa], [?nsec]]" qls] fit types by simp
  moreover have "well_grouped qls [?soa]"
    using well_grouped_single [OF fit(1)] types by simp
  ultimately show ?thesis by (simp add: sections_grouped_def nodata_content_def)
qed

lemma question_section_grouped:
  "qlabels_ok qls \<Longrightarrow> length qls \<le> 255 \<Longrightarrow> rr_owner r = Question \<Longrightarrow> rr_typ r \<noteq> TYPE_RRSIG \<Longrightarrow>
    well_grouped qls [r]"
  by (rule well_grouped_single [OF names_fit_question])

lemma address_grouped:
  assumes "qlabels_ok qls" and "length qls \<le> 255" and "short_name (zp_zone p)"
  shows "sections_grouped qls (address_content q qtype ip p)"
proof -
  let ?hs = "(if qtype \<in> {TYPE_A, TYPE_ANY} then if_some (fst ip) (\<lambda>a. [[a_rr Question a]]) else []) @
     (if qtype \<in> {TYPE_AAAA, TYPE_ANY} then if_some (snd ip) (\<lambda>a. [[aaaa_rr Question a]]) else [])"
  have "list_all question_set ?hs \<and> distinct (map (\<lambda>h. rr_typ (hd h)) ?hs)"
    by (auto simp: if_some_def question_set_single question_records split: option.split)
  then have "well_grouped qls (concat ?hs)" by (intro well_grouped_question [OF assms(1,2)]) simp_all
  moreover have "concat ?hs = address_answers qtype ip"
    by (auto simp: address_answers_def if_some_def split: option.split)
  ultimately show ?thesis
    using nodata_grouped [OF assms] by (simp add: address_content_def sections_grouped_def)
qed

lemma apex_grouped:
  assumes "qlabels_ok qls" and "length qls \<le> 255" and "short_name (zp_zone p)"
    and "distinct_servers p" and "list_all short_name (zp_ns_names p)"
  shows "sections_grouped qls (apex_content cr q qtype p)"
proof -
  have ns: "well_grouped qls (ns_rrs p)"
    using well_grouped_question [OF assms(1,2), of "[ns_rrs p]"] question_set_ns [OF assms(4)] by simp
  show ?thesis
    using nodata_grouped [OF assms(1-3)] apex_answers_grouped [OF assms(1,2,4)] glue_grouped [OF assms(4,5)] ns
    by (auto simp: apex_content_def sections_grouped_def)
qed

text \<open>Every owner is the name of the question, the zone, or a name below the zone.\<close>

lemma split_on_middle: "split_on c (p @ c # s) = split_on c p @ split_on c s"
proof (induction p)
  case (Cons x p)
  have "split_on c p \<noteq> []" by (rule split_on_not_Nil)
  with Cons show ?case by (cases "split_on c p") auto
qed simp

lemma bailiwick_suffix:
  assumes "in_bailiwick n zone"
  shows "suffix (map to_lower (labels zone)) (map to_lower (labels n))"
proof (cases "names_eq n zone")
  case True
  then show ?thesis by (simp add: names_eq_labels)
next
  case False
  then have "label_suffix (trim_end DOT n) (trim_end DOT zone)"
    using assms by (simp add: in_bailiwick_def)
  then obtain p where p: "to_lower (trim_end DOT n) = p @ DOT # to_lower (trim_end DOT zone)"
    by (auto simp: label_suffix_labels)
  then have "trim_end DOT n \<noteq> []" by (auto simp: to_lower_def)
  then have "map to_lower (labels n) = split_on DOT p @ split_on DOT (to_lower (trim_end DOT zone))"
    by (simp add: labels_def to_lower_split_on p split_on_middle)
  then show ?thesis by (auto simp: labels_def to_lower_split_on suffix_def)
qed

definition zone_owner :: "rstr \<Rightarrow> rr \<Rightarrow> bool" where
  "zone_owner zone r \<longleftrightarrow> (case rr_owner r of Question \<Rightarrow> True | Name n \<Rightarrow> n = zone \<or> in_bailiwick n zone)"

lemma zone_owners_in:
  assumes "list_all (zone_owner zone) rrs" and "suffix (map to_lower (labels zone)) (map to_lower qls)"
  shows "owners_in (map to_lower (labels zone)) qls rrs"
  using assms bailiwick_suffix
  by (auto simp: owners_in_def list_all_iff zone_owner_def rr_labels_def split: owner.splits)

definition zone_sections :: "rstr \<Rightarrow> rr list \<times> rr list \<times> rr list \<Rightarrow> bool" where
  "zone_sections zone sections \<longleftrightarrow>
     (case sections of (an, ns, ar) \<Rightarrow> list_all (zone_owner zone) (an @ ns @ ar))"

lemma zone_owner_question [simp]: "rr_owner r = Question \<Longrightarrow> zone_owner zone r"
  by (simp add: zone_owner_def)

lemma nodata_zone: "zp_zone p = zone \<Longrightarrow> zone_sections zone (nodata_content q p types)"
  by (simp add: zone_sections_def nodata_content_def zone_owner_def question_records)

lemma address_zone: "zp_zone p = zone \<Longrightarrow> zone_sections zone (address_content q t ip p)"
  using nodata_zone [of p zone q]
  by (auto simp: address_content_def address_answers_def if_some_def zone_sections_def question_records
      split: option.split)

lemma glue_zone: "zp_zone p = zone \<Longrightarrow> list_all (zone_owner zone) (glue_rrs p)"
  by (auto simp: glue_rrs_def glue_of_def zone_owner_def list_all_iff a_rr_def aaaa_rr_def
      split: if_splits option.splits)

lemma apex_zone:
  assumes "zp_zone p = zone"
  shows "zone_sections zone (apex_content cr q t p)"
proof -
  have ns: "list_all (zone_owner zone) (ns_rrs p)" by (simp add: ns_rrs_def list_all_iff question_rr_def)
  then have "list_all (zone_owner zone) (apex_answers cr q t p)"
    by (auto simp: apex_answers_def if_some_def question_records split: option.split)
  then show ?thesis
    using nodata_zone [OF assms, of q] glue_zone [OF assms] ns
    by (auto simp: apex_content_def zone_sections_def)
qed

lemma outcome_zone:
  assumes "outcome cr q cf = Answer sections"
  shows "zone_sections (cf_glue_name cf) sections"
proof -
  let ?z = "cf_glue_name cf" and ?p = "zone_params_of cf (wants_dnssec q)"
  have z: "zp_zone ?p = ?z" by (simp add: zone_params_of_def)
  have "zone_sections ?z ([txt_rr t], [], [])" for t by (simp add: zone_sections_def txt_rr_def question_rr_def)
  note zone = this nodata_zone [OF z, of q] address_zone [OF z, of q] apex_zone [OF z, of cr q]
  have "zone_sections ?z (zone_records cr q cf d t)" for d t
    using zone by (simp add: zone_records_def Let_def split: option.split)
  with zone assms show ?thesis
    by (auto simp: outcome_def split: option.splits prod.splits if_splits)
qed

definition servers_distinct :: "'k config \<Rightarrow> bool" where
  "servers_distinct cf \<longleftrightarrow> distinct (map encode_domain_name (cf_ns_names cf))"

lemma outcome_grouped:
  assumes "config_wf cr cf" and "config_fit cr cf" and "servers_distinct cf"
    and "qlabels_ok qls" and "length qls \<le> 255" and "outcome cr q cf = Answer sections"
  shows "sections_grouped qls sections"
proof -
  let ?p = "zone_params_of cf (wants_dnssec q)"
  have fit: "params_fit cr ?p" using assms(2) by (rule config_fit_params)
  have zone: "short_name (zp_zone ?p)" and ns: "list_all short_name (zp_ns_names ?p)"
    using fit by (simp_all add: params_fit_def)
  have servers: "distinct_servers ?p"
    using assms(1,3) by (simp add: distinct_servers_def servers_distinct_def zone_params_of_def config_wf_def)
  have txt_ok: "sections_grouped qls ([txt_rr t], [], [])" for t
    using question_section_grouped [OF assms(4,5), of "txt_rr t"] by (simp add: sections_grouped_def question_records)
  note grouped = nodata_grouped [OF assms(4,5) zone] address_grouped [OF assms(4,5) zone]
    apex_grouped [OF assms(4,5) zone servers ns] txt_ok
  have "sections_grouped qls (zone_records cr q cf d t)" for d t
    using grouped by (simp add: zone_records_def Let_def split: option.split)
  with grouped show ?thesis
    using assms(6) by (auto simp: outcome_def split: option.splits prod.splits if_splits)
qed

section \<open>Every answer validates\<close>

text \<open>
  C2: DNSSEC, end to end: whatever a zone with a key answers to a well-formed query (one question of
  at most 255 labels of 1 to 63 bytes without zero bytes, at most 60000 bytes in all) for a name
  whose labels end in those of the zone, with the DO bit, a resolver that reads the message finds in
  each of its three sections complete record sets, each once and each with one RRSIG behind it, and
  every one of them passes its checks: type, class, labels, TTL, signer, owner in the zone of the
  signer, key tag, validity interval, and the signature under the DNSKEY data of the key over the
  canonical form of exactly the records it received.  \<open>verify\<close> is any verification that accepts
  what the crate signs; the configuration is well-formed and fits its wire fields, the name servers
  are different names, and the two clocks agree.
\<close>

theorem every_answer_validates:
  assumes "config_wf cr cf" and "config_fit cr cf" and "servers_distinct cf"
    and "query_hdr hdr" and "qlabels_ok ls" and "length ls \<le> 255"
    and "q = question hdr ls qtype qclass rest" and "length q \<le> 60000"
    and "cf_dnssec cf = Some key" and "wants_dnssec q" and "outcome cr q cf = Answer sections"
    and "\<And>k m. verify (cr_point cr k) m (cr_sign cr k m)" and "clocks_agree clk now"
    and "suffix (map to_lower (labels (cf_glue_name cf))) (map to_lower ls)"
  shows "\<exists>r m additional. handle_query_internal cr clk q cf = ret r \<and> read_message r = Some m \<and>
    ms_question m = (ls, qtype, qclass) \<and> ms_additional m = additional @ [opt_view True] \<and>
    list_all (valid_section verify now (dk_dnskey_rdata key) (map to_lower (labels (cf_glue_name cf))) ls)
      [ms_answers m, ms_authority m, additional]"
proof -
  let ?p = "zone_params_of cf (wants_dnssec q)"
  let ?valid = "valid_section verify now (dk_dnskey_rdata key) (map to_lower (labels (cf_glue_name cf))) ls"
  obtain an ns ar where s: "sections = (an, ns, ar)" by (cases sections)
  obtain an' n1 where an: "signed_runs cr clk 0 q ?p (runs an) = (an', n1)" by fastforce
  obtain ns' n2 where ns: "signed_runs cr clk n1 q ?p (runs ns) = (ns', n2)" by fastforce
  obtain ar' n3 where ar: "signed_runs cr clk n2 q ?p (runs ar) = (ar', n3)" by fastforce
  have key: "key_wf cr key" using assms(1,9) by (simp add: config_wf_def)
  have fit: "params_fit cr ?p" using assms(2) by (rule config_fit_params)
  then have zone: "name_ok (zp_zone ?p)" by (simp add: params_fit_def short_name_def)
  have p: "zp_dnssec ?p = Some key" "zp_do_bit ?p" "zp_zone ?p = cf_glue_name cf"
    using assms(9,10) by (simp_all add: zone_params_of_def)
  have "sections_grouped ls sections" by (rule outcome_grouped [OF assms(1-3,5,6,11)])
  then have g: "well_grouped ls an" "well_grouped ls ns" "well_grouped ls ar"
    by (simp_all add: sections_grouped_def s)
  have "list_all (zone_owner (cf_glue_name cf)) (an @ ns @ ar)"
    using outcome_zone [OF assms(11)] by (simp add: zone_sections_def s)
  then have o: "owners_in (map to_lower (labels (zp_zone ?p))) ls an"
    "owners_in (map to_lower (labels (zp_zone ?p))) ls ns" "owners_in (map to_lower (labels (zp_zone ?p))) ls ar"
    unfolding p(3) by (auto intro!: zone_owners_in assms(14))
  note valid = valid_signed_runs [where verify = verify, OF assms(4,5,7) key assms(12) zone assms(13) p(1,2)]
  have v: "?valid (map view an')" "?valid (map view ns')" "?valid (map view ar')"
    using valid [OF g(1) o(1), of 0] valid [OF g(2) o(2), of n1] valid [OF g(3) o(3), of n2] by (simp_all add: an ns ar p(3))
  have sections: "signed_sections cr clk q ?p sections = (an', ns', ar')"
    by (simp add: signed_sections_def s an ns ar)
  have "has_opt q" using assms(10) by (auto simp: wants_dnssec_def has_opt_def split: option.splits)
  moreover have "sign ?p" using p by (simp add: sign_def)
  ultimately show ?thesis
    using answered_reads_back [OF assms(1,2,4,5,7,8,11), of clk] v
    by (auto simp: sections reply_message_def)
qed

text \<open>A signed zone, and a query with the DO bit.\<close>

definition signed_config :: "bytes config" where
  "signed_config = toy_config\<lparr>cf_dnssec := Some toy_key\<rparr>"

definition do_query :: "rstr list \<Rightarrow> u16 \<Rightarrow> bytes" where
  "do_query ls qtype = question [0x12, 0x34, 1, 0, 0, 1, 0, 0, 0, 0, 0, 1] ls qtype 1
     [0, 0, 41, 4, 208, 0, 0, 0x80, 0, 0, 0]"

lemma signed_config_wf: "config_wf toy_crypto signed_config"
  using toy_config_wf toy_key_wf by (simp add: config_wf_def signed_config_def)

lemma signed_config_fit: "config_fit toy_crypto signed_config"
proof -
  have "length (dk_dnskey_rdata toy_key) = 68" using toy_key_wf by (simp add: key_wf_def)
  then show ?thesis
    using toy_config_fit by (simp add: config_fit_def params_fit_def zone_params_of_def signed_config_def)
qed

lemma signed_config_distinct: "servers_distinct signed_config"
proof -
  have "distinct (map encode_domain_name [lit ''ns.addr.se'', lit ''ns1.nip.nu''])" by code_simp
  then show ?thesis by (simp add: servers_distinct_def signed_config_def toy_config_def)
qed

lemma toy_clocks_agree: "clocks_agree (\<lambda>_. Some 1700000000) 1700000100"
  by (simp add: clocks_agree_def)

theorem every_answer_validates_witness:
  "\<exists>r m. handle_query_internal toy_crypto (\<lambda>_. Some 1700000000)
       (do_query [lit ''10-0-0-1'', lit ''nip'', lit ''nu''] 1) signed_config = ret r \<and>
     read_message r = Some m \<and>
     valid_section toy_verify 1700000100 (dk_dnskey_rdata toy_key) [lit ''nip'', lit ''nu'']
       [lit ''10-0-0-1'', lit ''nip'', lit ''nu''] (ms_answers m)"
proof -
  let ?ls = "[lit ''10-0-0-1'', lit ''nip'', lit ''nu'']" and ?q = "do_query [lit ''10-0-0-1'', lit ''nip'', lit ''nu''] 1"
  have h: "query_hdr [0x12, 0x34, 1, 0, 0, 1, 0, 0, 0, 0, 0, 1]" and l: "qlabels_ok ?ls"
    and len: "length ?q \<le> 60000" and w: "wants_dnssec ?q" and op: "opcode ?q = 0"
    and d: "query_domain ?q = Some (join_with [DOT] ?ls)" and t: "qtypes ?q = Some (1, 1)"
    and host: "host_name toy_config (join_with [DOT] ?ls)"
    and ip: "labels_ip (split_on DOT (join_with [DOT] ?ls)) = Some (Some (Ipv4 10 0 0 1), None)"
    and z: "map to_lower (labels (cf_glue_name toy_config)) = [lit ''nip'', lit ''nu'']"
    and in_zone: "suffix [lit ''nip'', lit ''nu''] (map to_lower ?ls)"
    by code_simp+
  have "host_name signed_config (join_with [DOT] ?ls)"
    using host by (simp add: host_name_def is_configured_ns_def signed_config_def)
  from host_outcome [OF op d t this ip, of toy_crypto]
  have o: "outcome toy_crypto ?q signed_config = Answer (address_content ?q 1 (Some (Ipv4 10 0 0 1), None)
      (zone_params_of signed_config (wants_dnssec ?q)))" .
  have k: "cf_dnssec signed_config = Some toy_key" and "cf_glue_name signed_config = cf_glue_name toy_config"
    by (simp_all add: signed_config_def)
  with every_answer_validates [where verify = toy_verify, OF signed_config_wf signed_config_fit signed_config_distinct
      h l _ do_query_def len k w o toy_verify_sign toy_clocks_agree] z in_zone
  show ?thesis by auto
qed

section \<open>Answers outside the zone\<close>

text \<open>
  The version names are answered wherever they are, and signed by the zone: with a key and the DO
  bit the reply to \<open>version\<close> outside the zone has an RRSIG record whose signer is the zone, though the
  name is not in it; no verification, clock or key data makes the section valid.
\<close>

theorem version_answer_bogus:
  assumes "config_wf cr cf" and "config_fit cr cf"
    and "query_hdr hdr" and "qlabels_ok ls" and "utf8_labels ls" and "ls \<noteq> []"
    and "q = question hdr ls t 1 rest" and "length q \<le> 60000" and "opcode q = 0"
    and "t \<in> {TYPE_TXT, TYPE_ANY}" and "is_version_query (join_with [DOT] ls)"
    and "cf_dnssec cf = Some key" and "wants_dnssec q"
    and "\<not> suffix (map to_lower (labels (cf_glue_name cf))) (map to_lower ls)"
  shows "\<exists>r m version sig d. handle_query_internal cr clk q cf = ret r \<and> read_message r = Some m \<and>
    fl_aa (read_flags (ms_flags m)) \<and> ms_answers m = [version, sig] \<and>
    wr_typ version = TYPE_TXT \<and> wr_typ sig = TYPE_RRSIG \<and>
    dec_rrsig (wr_rdata sig) = Some d \<and> rs_signer d = map to_lower (labels (cf_glue_name cf)) \<and>
    (\<forall>verify now dnskey. \<not> valid_section verify now dnskey (rs_signer d) ls (ms_answers m))"
proof -
  let ?p = "zone_params_of cf (wants_dnssec q)" and ?z = "map to_lower (labels (cf_glue_name cf))"
  let ?r = "txt_rr (lit ''RustyAlias v'' @ cf_version cf)"
  let ?s = "rrsig_of cr clk 0 q ?p key [?r]"
  have hdr: "length hdr = 12" using assms(3) by (simp add: query_hdr_def)
  have name: "name_ok (zp_zone ?p)"
    using config_fit_params [OF assms(2)] by (simp add: params_fit_def short_name_def)
  have p: "zp_dnssec ?p = Some key" "zp_do_bit ?p" "zp_zone ?p = cf_glue_name cf"
    using assms(12,13) by (simp_all add: zone_params_of_def)
  have r: "rr_typ ?r = TYPE_TXT" "rr_owner ?r = Question" by (simp_all add: question_records)
  have "query_domain q = Some (join_with [DOT] ls)" "qtypes q = Some (t, 1)"
    using query_domain_question [OF assms(3,5,6)] qtypes_question [OF hdr assms(4)] assms(7) by simp_all
  then have o: "outcome cr q cf = Answer ([?r], [], [])"
    using assms(9,10,11) by (simp add: outcome_def)
  have "runs [?r] = [[?r]]" by (simp add: runs_def add_run_def)
  then have sections: "signed_sections cr clk q ?p ([?r], [], []) = ([?r, ?s], [], [])"
    using p r(1) by (simp add: signed_sections_def signed_run_def sorted_run_def next_reading_def signing_key_def
        runs_def [of "[]"])
  obtain d where d: "dec_rrsig (wr_rdata (view ?s)) = Some d" "rs_signer d = ?z"
    by (simp add: rrsig_of_def sign_rrsig_eq Let_def dec_rrsig_prefix [OF name [unfolded p(3)]] p(3))
  have bogus: "\<not> valid_section verify now dnskey ?z ls [view ?r, view ?s]" for verify now dnskey
  proof
    assume "valid_section verify now dnskey ?z ls [view ?r, view ?s]"
    then obtain sets where c: "[view ?r, view ?s] = concat (map (\<lambda>(rs, s). rs @ [s]) sets)"
      and v: "\<forall>rss \<in> set sets. valid_rrset verify now dnskey ?z ls rss"
      by (auto simp: valid_section_def)
    from c obtain rs s sets' where sets: "sets = (rs, s) # sets'" by (cases sets) auto
    have "valid_rrset verify now dnskey ?z ls (rs, s)" using v by (simp add: sets)
    then have "rs \<noteq> []" and "suffix ?z (owner_labels ls (hd rs))"
      unfolding valid_rrset_def rrset_def prod.case by blast+
    moreover have "hd rs = view ?r" using c \<open>rs \<noteq> []\<close> by (cases rs) (auto simp: sets)
    ultimately show False
      using assms(14) r(2) by (simp add: owner_labels_view rr_labels_def)
  qed
  have "3 < length q" using hdr by (simp add: assms(7) question_def)
  from read_response_flags [OF this, of True RCODE_NOERROR]
  have f: "fl_aa (read_flags (of_be16 (response_flags q True RCODE_NOERROR ! 0)
      (response_flags q True RCODE_NOERROR ! 1)))" by (simp add: reply_flags_def)
  obtain x m where m: "handle_query_internal cr clk q cf = ret x" "read_message x = Some m"
    "ms_answers m = [view ?r, view ?s]" "fl_aa (read_flags (ms_flags m))"
    using answered_reads_back [OF assms(1-4,7,8) o, of clk] f by (auto simp: sections reply_message_def)
  have "wr_typ (view ?s) = TYPE_RRSIG" by (simp add: rrsig_of_def)
  with m d bogus r show ?thesis
    by (intro exI [of _ x] exI [of _ m] exI [of _ "view ?r"] exI [of _ "view ?s"] exI [of _ d]) simp
qed

theorem version_answer_bogus_witness:
  "\<exists>r m. handle_query_internal toy_crypto (\<lambda>_. Some 1700000000) (do_query [lit ''version''] 16) signed_config = ret r \<and>
     read_message r = Some m \<and> fl_aa (read_flags (ms_flags m)) \<and>
     \<not> valid_section toy_verify 1700000100 (dk_dnskey_rdata toy_key) [lit ''nip'', lit ''nu''] [lit ''version''] (ms_answers m)"
proof -
  let ?ls = "[lit ''version'']" and ?q = "do_query [lit ''version''] 16"
  have a: "query_hdr [0x12, 0x34, 1, 0, 0, 1, 0, 0, 0, 0, 0, 1]" "qlabels_ok ?ls" "utf8_labels ?ls" "?ls \<noteq> []"
    and len: "length ?q \<le> 60000" and op: "opcode ?q = 0" and t: "16 \<in> {TYPE_TXT, TYPE_ANY}"
    and v: "is_version_query (join_with [DOT] ?ls)" and w: "wants_dnssec ?q"
    and z: "map to_lower (labels (cf_glue_name toy_config)) = [lit ''nip'', lit ''nu'']"
    and n: "\<not> suffix [lit ''nip'', lit ''nu''] (map to_lower ?ls)"
    by code_simp+
  have k: "cf_dnssec signed_config = Some toy_key"
    and g: "map to_lower (labels (cf_glue_name signed_config)) = [lit ''nip'', lit ''nu'']"
    using z by (simp_all add: signed_config_def)
  show ?thesis
    using version_answer_bogus [OF signed_config_wf signed_config_fit a do_query_def len op t v k w n [folded g],
        of "\<lambda>_. Some 1700000000"]
    unfolding g by metis
qed

end
