(* ===== verification/Denial.thy ===== *)
theory Denial
  imports Validation
begin

text \<open>
  Denial of existence and the chain of trust: the types the server says exist at a name are those
  it answers, a signed negative reply proves to a resolver that the type it asked for does not
  exist, and the DNSKEY reply of the zone is the key that the DS record names.
\<close>

section \<open>Existing types\<close>

definition existing_types :: "'k config \<Rightarrow> rstr \<Rightarrow> u16 list" where
  "existing_types cf d =
     (if is_version_query d \<or> cf_dmarc cf \<noteq> [] \<and> names_eq d (dmarc_owner (cf_glue_name cf)) then [TYPE_TXT]
      else if names_eq d (cf_glue_name cf) then apex_types (zone_params_of cf False)
      else if is_configured_ns d cf then address_types (Some (cf_glue_ip cf), cf_glue_ip6 cf)
      else case labels_ip (split_on DOT d) of Some ip \<Rightarrow> address_types ip | None \<Rightarrow> [])"

lemma apex_types_do: "apex_types (zone_params_of cf b) = apex_types (zone_params_of cf False)"
  by (simp add: apex_types_def zone_params_of_def)

text \<open>A content answers the types of a list, and denies the others by that list.\<close>

definition answers_exactly :: "bytes \<Rightarrow> 'k zone_params \<Rightarrow> u16 \<Rightarrow> u16 list \<Rightarrow> rr list \<times> rr list \<times> rr list \<Rightarrow> bool" where
  "answers_exactly q p t types sections \<longleftrightarrow>
     (if t \<in> set types
      then fst sections \<noteq> [] \<and> (\<forall>r \<in> set (fst sections). rr_typ r = t \<and> rr_owner r = Question)
      else sections = nodata_content q p types)"

lemma nodata_exactly: "t \<notin> set types \<Longrightarrow> answers_exactly q p t types (nodata_content q p types)"
  by (simp add: answers_exactly_def)

lemma address_exactly:
  assumes "t \<noteq> TYPE_ANY"
  shows "answers_exactly q p t (address_types ip) (address_content q t ip p)"
  using assms
  by (auto simp: answers_exactly_def address_content_def address_answers_def address_types_def if_some_def
      a_rr_def aaaa_rr_def split: option.splits)

lemma apex_exactly:
  assumes "t \<noteq> TYPE_ANY" and "t \<noteq> TYPE_NSEC" and "zp_ns_names p \<noteq> []"
  shows "answers_exactly q p t (apex_types p) (apex_content cr q t p)"
proof -
  have ns: "ns_rrs p \<noteq> []" "\<forall>r \<in> set (ns_rrs p). rr_typ r = TYPE_NS \<and> rr_owner r = Question"
    using assms(3) by (auto simp: ns_rrs_def question_rr_def)
  have "TYPE_NS \<in> set (apex_types p)" by (simp add: apex_types_def)
  moreover have "apex_answers cr q t p \<noteq> [] \<longleftrightarrow> t \<in> set (apex_types p)"
    using assms(1,2) ns(1) by (simp add: apex_answers_def apex_types_def if_some_def split: option.split)
  moreover have "\<forall>r \<in> set (apex_answers cr q t p). rr_typ r = t \<and> rr_owner r = Question"
    using assms(1,2) ns(2)
    by (simp add: apex_answers_def if_some_def question_records split: option.split) auto
  ultimately show ?thesis
    unfolding answers_exactly_def apex_content_def by (auto simp del: set_empty)
qed

lemma outcome_exactly:
  assumes "config_wf cr cf" and "opcode q = 0" and "query_domain q = Some d" and "qtypes q = Some (t, 1)"
    and "in_zone d (cf_glue_name cf)" and "t \<noteq> TYPE_ANY"
    and "t \<noteq> TYPE_NSEC \<or> \<not> names_eq d (cf_glue_name cf)"
  obtains sections where "outcome cr q cf = Answer sections"
    and "answers_exactly q (zone_params_of cf (wants_dnssec q)) t (existing_types cf d) sections"
proof -
  let ?p = "zone_params_of cf (wants_dnssec q)"
  have ns: "zp_ns_names ?p \<noteq> []" using assms(1) by (simp add: config_wf_def zone_params_of_def)
  have one: "answers_exactly q ?p t [TYPE_TXT]
      (if t \<in> {TYPE_TXT, TYPE_ANY} then ([txt_rr x], [], []) else nodata_content q ?p [TYPE_TXT])" for x
    using assms(6) by (simp add: answers_exactly_def txt_rr_def question_rr_def)
  have apex: "answers_exactly q ?p t (apex_types (zone_params_of cf False)) (apex_content cr q t ?p)"
    if "names_eq d (cf_glue_name cf)"
    using apex_exactly [OF assms(6) _ ns, of q cr] assms(7) that
    unfolding apex_types_do [of cf "wants_dnssec q"] by blast
  note address = address_exactly [OF assms(6), of q ?p]
  note outcome = outcome_def [of cr q cf] assms(2-5)
  show ?thesis
  proof (cases "is_version_query d")
    case True
    let ?s = "if t \<in> {TYPE_TXT, TYPE_ANY} then ([txt_rr (lit ''RustyAlias v'' @ cf_version cf)], [], [])
      else nodata_content q ?p [TYPE_TXT]"
    have "outcome cr q cf = Answer ?s" using True by (simp add: outcome)
    moreover have "answers_exactly q ?p t (existing_types cf d) ?s"
      using True one by (simp only: existing_types_def if_True simp_thms)
    ultimately show ?thesis by (rule that)
  next
    case False
    then have "outcome cr q cf = Answer (zone_records cr q cf d t)" by (simp add: outcome)
    moreover have "answers_exactly q ?p t (existing_types cf d) (zone_records cr q cf d t)"
    proof (cases "cf_dmarc cf \<noteq> [] \<and> names_eq d (dmarc_owner (cf_glue_name cf))")
      case True
      then show ?thesis
        using one [of "cf_dmarc cf"] by (simp only: zone_records_def existing_types_def Let_def if_True simp_thms)
    next
      case dmarc: False
      have "answers_exactly q ?p t [] (nodata_content q ?p [])" by (simp add: answers_exactly_def)
      then show ?thesis
        using False dmarc apex address
        by (auto simp: zone_records_def existing_types_def Let_def split: option.split)
    qed
    ultimately show ?thesis by (rule that)
  qed
qed

text \<open>
  C8: answers and denials agree: at every name of the zone there is one list of existing types, such
  that a query for a type of the list is answered with records of that type at the name, and a query
  for any other type is denied by the list.  (ANY asks for the list itself, and NSEC for the denial.)
  So no client that caches a denial, as RFC 8198 has resolvers do, misses a record.
\<close>

theorem answers_match_denials:
  assumes "config_wf cr cf" and "opcode q = 0" and "query_domain q = Some d" and "qtypes q = Some (t, 1)"
    and "in_zone d (cf_glue_name cf)" and "t \<noteq> TYPE_ANY" and "t \<noteq> TYPE_NSEC"
  shows "\<exists>sections. handle_query_internal cr clk q cf =
      ret (answer cr clk q (zone_params_of cf (wants_dnssec q)) sections) \<and>
    (t \<in> set (existing_types cf d) \<longrightarrow> fst sections \<noteq> [] \<and>
       (\<forall>r \<in> set (fst sections). rr_typ r = t \<and> rr_owner r = Question)) \<and>
    (t \<notin> set (existing_types cf d) \<longrightarrow>
       sections = nodata_content q (zone_params_of cf (wants_dnssec q)) (existing_types cf d))"
proof -
  obtain sections where o: "outcome cr q cf = Answer sections"
    and e: "answers_exactly q (zone_params_of cf (wants_dnssec q)) t (existing_types cf d) sections"
    using outcome_exactly [OF assms(1-6)] assms(7) by blast
  have "handle_query_internal cr clk q cf = ret (answer cr clk q (zone_params_of cf (wants_dnssec q)) sections)"
    by (simp add: handle_query_internal_eq [OF assms(1)] o outcome_bytes_def)
  with e show ?thesis
    by (intro exI [of _ sections]) (simp add: answers_exactly_def split: if_splits)
qed

theorem answers_match_denials_witness:
  "\<exists>sections. handle_query_internal toy_crypto (\<lambda>_. None)
       (question toy_hdr [lit ''10-0-0-1'', lit ''nip'', lit ''nu''] 28 1 []) toy_config =
     ret (answer toy_crypto (\<lambda>_. None) (question toy_hdr [lit ''10-0-0-1'', lit ''nip'', lit ''nu''] 28 1 [])
       (zone_params_of toy_config False) sections) \<and> fst sections = []"
proof -
  let ?q = "question toy_hdr [lit ''10-0-0-1'', lit ''nip'', lit ''nu''] 28 1 []"
  have "opcode ?q = 0" "query_domain ?q = Some (lit ''10-0-0-1.nip.nu'')" "qtypes ?q = Some (28, 1)"
    "in_zone (lit ''10-0-0-1.nip.nu'') (cf_glue_name toy_config)" "(28 :: u16) \<noteq> TYPE_ANY" "(28 :: u16) \<noteq> TYPE_NSEC"
    and e: "existing_types toy_config (lit ''10-0-0-1.nip.nu'') = [1]" and w: "\<not> wants_dnssec ?q"
    by code_simp+
  from answers_match_denials [OF toy_config_wf this(1-6), of "\<lambda>_. None"] show ?thesis
    unfolding e using w by (auto simp: nodata_content_def)
qed

section \<open>Labels and the zone\<close>

lemma ascii_lower_dot: "ascii_lower b = DOT \<longleftrightarrow> b = DOT"
  by (auto simp: ascii_lower_def)

lemma dot_free_lower: "DOT \<in> set (to_lower l) \<longleftrightarrow> DOT \<in> set l"
  by (auto simp: to_lower_def ascii_lower_dot image_iff)

lemma last_join: "ps \<noteq> [] \<Longrightarrow> last ps \<noteq> [] \<Longrightarrow> join_with sep ps \<noteq> [] \<and> last (join_with sep ps) = last (last ps)"
  by (induction ps) (auto simp: join_with_Cons)

lemma labels_join:
  assumes "\<forall>l \<in> set ls. l \<noteq> [] \<and> DOT \<notin> set l"
  shows "labels (join_with [DOT] ls) = ls"
proof (cases "ls = []")
  case True
  then show ?thesis by (simp add: labels_def trim_end_def)
next
  case False
  then have l: "last ls \<noteq> []" "DOT \<notin> set (last ls)" using assms last_in_set by auto
  with last_join [OF False l(1), of "[DOT]"] have "join_with [DOT] ls \<noteq> []" "last (join_with [DOT] ls) \<noteq> DOT"
    by (auto dest: last_in_set)
  then show ?thesis using trim_end_id split_join [OF False] assms by (simp add: labels_def)
qed

lemma labels_dot_free: "l \<in> set (labels n) \<Longrightarrow> DOT \<notin> set l"
  by (auto simp: labels_def split_on_sep_free split: if_splits)

text \<open>The labels of the zone, in any case, name the zone.\<close>

lemma apex_name:
  assumes "map to_lower ls = map to_lower (labels zone)" and "\<forall>l \<in> set ls. l \<noteq> []" and "ls \<noteq> []"
  shows "names_eq (join_with [DOT] ls) zone" and "in_zone (join_with [DOT] ls) zone"
    and "\<not> names_eq (join_with [DOT] ls) (dmarc_owner zone)"
proof -
  have "DOT \<notin> set l" if "l \<in> set ls" for l
  proof -
    have "to_lower l \<in> to_lower ` set (labels zone)" using that assms(1) by (metis image_eqI list.set_map)
    then show ?thesis using labels_dot_free dot_free_lower by (metis imageE)
  qed
  then show eq: "names_eq (join_with [DOT] ls) zone"
    using assms(1,2) by (simp add: names_eq_labels labels_join)
  have ne: "trim_end DOT zone \<noteq> []" using assms(1,3) by (auto simp: labels_def)
  with eq show "in_zone (join_with [DOT] ls) zone" by (simp add: in_zone_def in_bailiwick_def)
  have "trim_end DOT (dmarc_owner zone) = dmarc_owner zone"
    using ne trim_end_last [of DOT zone] by (intro trim_end_id) (simp add: dmarc_owner_def)
  then have "length (to_lower (trim_end DOT (dmarc_owner zone))) \<noteq> length (to_lower (trim_end DOT zone))"
    by (simp add: dmarc_owner_def lit_def)
  with eq show "\<not> names_eq (join_with [DOT] ls) (dmarc_owner zone)" by (metis names_eq_iff)
qed

text \<open>A name whose labels end in those of the zone is in the zone.\<close>

lemma join_with_append: "ps \<noteq> [] \<Longrightarrow> qs \<noteq> [] \<Longrightarrow> join_with sep (ps @ qs) = join_with sep ps @ sep @ join_with sep qs"
proof (induction ps)
  case (Cons p ps)
  then show ?case by (cases "ps = []") (simp_all add: join_with_Cons)
qed simp

lemma suffix_in_zone:
  assumes "suffix (map to_lower (labels zone)) (map to_lower ls)" and "\<forall>l \<in> set ls. l \<noteq> []"
    and "labels zone \<noteq> []"
  shows "in_zone (join_with [DOT] ls) zone"
proof -
  obtain us vs where ls: "ls = us @ vs" and vs: "map to_lower vs = map to_lower (labels zone)"
    using assms(1) by (auto simp: suffix_def map_eq_append_conv)
  have ne: "vs \<noteq> []" using vs assms(3) by auto
  have parts: "\<forall>l \<in> set vs. l \<noteq> []" using assms(2) by (simp add: ls)
  have eq: "names_eq (join_with [DOT] vs) zone" and inz: "in_zone (join_with [DOT] vs) zone"
    using apex_name [OF vs parts ne] by simp_all
  show ?thesis
  proof (cases "us = []")
    case True
    then show ?thesis using inz by (simp add: ls)
  next
    case False
    have us: "join_with [DOT] us \<noteq> []"
      using False assms(2) by (cases us; cases "tl us") (auto simp: ls)
    have last: "last vs \<noteq> []" "DOT \<notin> set (last vs)"
    proof -
      show "last vs \<noteq> []" using parts ne by simp
      have "to_lower (last vs) \<in> set (map to_lower (labels zone))"
        using last_in_set [OF ne] by (simp flip: vs)
      then obtain x where "x \<in> set (labels zone)" "to_lower (last vs) = to_lower x" by auto
      then show "DOT \<notin> set (last vs)" by (metis labels_dot_free dot_free_lower)
    qed
    have "trim_end DOT (join_with [DOT] ps) = join_with [DOT] ps" if ps: "ps \<noteq> []" "last ps = last vs" for ps
      using last_join [OF ps(1), of "[DOT]"] last ps(2) last_in_set [OF last(1)] by (intro trim_end_id) metis
    from this [of ls] this [OF ne] ne
    have t: "trim_end DOT (join_with [DOT] ls) = join_with [DOT] ls"
      "trim_end DOT (join_with [DOT] vs) = join_with [DOT] vs" by (simp_all add: ls)
    have "to_lower (join_with [DOT] ls) = to_lower (join_with [DOT] us) @ DOT # to_lower (trim_end DOT zone)"
      using eq unfolding ls join_with_append [OF False ne] names_eq_iff t by (simp add: to_lower_def ascii_lower_def)
    then have "label_suffix (join_with [DOT] ls) (trim_end DOT zone)"
      using us by (auto simp: label_suffix_labels to_lower_def)
    then show ?thesis using inz by (simp add: in_zone_def in_bailiwick_def t)
  qed
qed

section \<open>Signed denials\<close>

lemma nodata_runs:
  assumes "sign p"
  shows "runs (fst (snd (nodata_content q p types))) = [[soa_rr (Name (zp_zone p)) p], [nsec_rr q p types]]"
proof -
  have "rr_key (soa_rr (Name (zp_zone p)) p) \<noteq> rr_key (nsec_rr q p types)"
    by (simp add: rr_key_def question_records)
  then show ?thesis
    using assms runs_blocks [of "[[soa_rr (Name (zp_zone p)) p], [nsec_rr q p types]]"]
    by (simp add: nodata_content_def)
qed

lemma nsec_data_question:
  assumes "length hdr = 12" and "qlabels_ok ls"
  shows "\<exists>bitmap. wire_labels (nsec_data (qname_of (question hdr ls qtype qclass rest)) types) =
      Some ([0] # map to_lower ls, bitmap) \<and>
    decode_bitmap 0 bitmap = Some (nsec_types types) \<and> set (nsec_types types) = set types \<union> {TYPE_NSEC, TYPE_RRSIG}"
  using nsec_rdata_decodes [OF assms(2), of types]
  by (auto simp: nsec_data_def qname_of_question [OF assms])

text \<open>
  C6: signed denials, and the one that contradicts itself: asked with the DO bit for a type other
  than ANY that does not exist at a name of a zone with a key (the zone itself is excepted for
  NSEC, which it answers), the server sends a message whose answer section is empty and whose
  authority section is the SOA record of the zone with its signature and an NSEC record of the name
  in the question with its signature.  Both signatures pass the checks of a resolver, the NSEC record
  covers nothing but the name (its next name is the immediate successor), and its bitmap decodes to
  exactly the types that exist there, NSEC and RRSIG.  So the asked type is not in it, the denial is
  a proof, exactly when it is neither NSEC nor RRSIG; asked for one of these two, the server denies
  in a signed record that lists the very type.
\<close>

theorem signed_denial_proves:
  assumes "config_wf cr cf" and "config_fit cr cf"
    and "query_hdr hdr" and "qlabels_ok ls" and "length ls \<le> 255" and "utf8_labels ls" and "ls \<noteq> []"
    and "q = question hdr ls t 1 rest" and "length q \<le> 60000" and "opcode q = 0"
    and "cf_dnssec cf = Some key" and "wants_dnssec q"
    and "labels (cf_glue_name cf) \<noteq> []" and "suffix (map to_lower (labels (cf_glue_name cf))) (map to_lower ls)"
    and "t \<notin> set (existing_types cf (join_with [DOT] ls)) \<union> {TYPE_ANY}"
    and "t \<noteq> TYPE_NSEC \<or> \<not> names_eq (join_with [DOT] ls) (cf_glue_name cf)"
    and "\<And>k m. verify (cr_point cr k) m (cr_sign cr k m)" and "clocks_agree clk now"
  shows "\<exists>r m soa soa_sig nsec nsec_sig bitmap types.
    handle_query_internal cr clk q cf = ret r \<and> read_message r = Some m \<and> ms_answers m = [] \<and>
    ms_authority m = [soa, soa_sig, nsec, nsec_sig] \<and>
    wr_typ soa = TYPE_SOA \<and> owner_labels ls soa = map to_lower (labels (cf_glue_name cf)) \<and>
    wr_typ nsec = TYPE_NSEC \<and> owner_labels ls nsec = map to_lower ls \<and>
    list_all (valid_rrset verify now (dk_dnskey_rdata key) (map to_lower (labels (cf_glue_name cf))) ls)
      [([soa], soa_sig), ([nsec], nsec_sig)] \<and>
    wire_labels (wr_rdata nsec) = Some ([0] # map to_lower ls, bitmap) \<and>
    decode_bitmap 0 bitmap = Some types \<and> (t \<in> set types \<longleftrightarrow> t \<in> {TYPE_NSEC, TYPE_RRSIG}) \<and>
    set types = set (existing_types cf (join_with [DOT] ls)) \<union> {TYPE_NSEC, TYPE_RRSIG}"
proof -
  let ?p = "zone_params_of cf (wants_dnssec q)" and ?types = "existing_types cf (join_with [DOT] ls)"
  let ?soa = "soa_rr (Name (zp_zone ?p)) ?p" and ?nsec = "nsec_rr q ?p ?types"
  let ?valid = "valid_rrset verify now (dk_dnskey_rdata key) (map to_lower (labels (cf_glue_name cf))) ls"
  have hdr: "length hdr = 12" using assms(3) by (simp add: query_hdr_def)
  have t: "t \<noteq> TYPE_ANY" "t \<notin> set ?types" using assms(15) by auto
  have "\<forall>l \<in> set ls. l \<noteq> []" using assms(6) by (auto simp: utf8_labels_def label_ok_def)
  then have zone_name: "in_zone (join_with [DOT] ls) (cf_glue_name cf)"
    by (intro suffix_in_zone assms(13,14))
  have "query_domain q = Some (join_with [DOT] ls)" "qtypes q = Some (t, 1)"
    using query_domain_question [OF assms(3,6,7)] qtypes_question [OF hdr assms(4)] assms(8) by simp_all
  from outcome_exactly [OF assms(1,10) this zone_name t(1) assms(16)]
  have o: "outcome cr q cf = Answer (nodata_content q ?p ?types)"
    using t(2) by (auto simp: answers_exactly_def)
  have key: "key_wf cr key" using assms(1,11) by (simp add: config_wf_def)
  have zone: "short_name (zp_zone ?p)" using config_fit_params [OF assms(2)] by (simp add: params_fit_def)
  then have name: "name_ok (zp_zone ?p)" by (simp add: short_name_def)
  have p: "zp_dnssec ?p = Some key" "zp_do_bit ?p" "zp_zone ?p = cf_glue_name cf"
    using assms(11,12) by (simp_all add: zone_params_of_def)
  then have sg: "sign ?p" by (simp add: sign_def)
  let ?s1 = "rrsig_of cr clk 0 q ?p key [?soa]" and ?s2 = "rrsig_of cr clk 1 q ?p key [?nsec]"
  have sections: "signed_sections cr clk q ?p (nodata_content q ?p ?types) = ([], [?soa, ?s1, ?nsec, ?s2], [])"
  proof -
    have "runs [?soa, ?nsec] = [[?soa], [?nsec]]"
      using nodata_runs [OF sg, of q ?types] sg by (simp add: nodata_content_def)
    moreover have "sorted_run [r] = [r]" for r :: rr by (simp add: sorted_run_def)
    moreover have "rr_typ ?soa = 6" "rr_typ ?nsec = 47" by (simp_all add: question_records)
    ultimately show ?thesis
      using sg p(1,2) by (simp add: signed_sections_def nodata_content_def runs_def [of "[]"] signed_run_def
          next_reading_def signing_key_def)
  qed
  have fit: "signable ls [?soa]" "signable ls [?nsec]"
    using names_fit_name [OF zone, of ?soa] names_fit_question [OF assms(4,5), of ?nsec]
    by (simp_all add: question_records)
  have single: "map view (sorted_run [r]) = [view r]" for r by (simp add: sorted_run_def)
  note valid = valid_run [where verify = verify, OF assms(3,4,8) key assms(17) name assms(18)]
  have "suffix (map to_lower (labels (zp_zone ?p))) (rr_labels ls (hd [r]))" if "r \<in> {?soa, ?nsec}" for r
    using that assms(14) by (auto simp: rr_labels_def question_records p(3))
  from this [of ?soa] this [of ?nsec]
  have v: "?valid ([view ?soa], view ?s1)" "?valid ([view ?nsec], view ?s2)"
    using valid [OF fit(1), of 0] valid [OF fit(2), of 1] by (simp_all only: single p(3) insertI1 insertI2 simp_thms)
  obtain bitmap where b: "wire_labels (wr_rdata (view ?nsec)) = Some ([0] # map to_lower ls, bitmap)"
    "decode_bitmap 0 bitmap = Some (nsec_types ?types)"
    "set (nsec_types ?types) = set ?types \<union> {TYPE_NSEC, TYPE_RRSIG}"
    using nsec_data_question [OF hdr assms(4), of t 1 rest ?types] by (auto simp: nsec_rr_def question_rr_def assms(8))
  obtain r m where r: "handle_query_internal cr clk q cf = ret r" "read_message r = Some m" "ms_answers m = []"
    "ms_authority m = [view ?soa, view ?s1, view ?nsec, view ?s2]"
    using answered_reads_back [OF assms(1-4,8,9) o, of clk] by (auto simp: sections reply_message_def)
  have "wr_typ (view ?soa) = TYPE_SOA" "wr_typ (view ?nsec) = TYPE_NSEC"
    "owner_labels ls (view ?soa) = map to_lower (labels (cf_glue_name cf))"
    "owner_labels ls (view ?nsec) = map to_lower ls"
    by (simp_all add: owner_labels_view rr_labels_def question_records p(3))
  with r v b t show ?thesis by (intro exI conjI) (assumption | simp)+
qed


theorem signed_denial_proves_witness:
  "\<exists>r m soa soa_sig nsec nsec_sig.
     handle_query_internal toy_crypto (\<lambda>_. Some 1700000000)
       (do_query [lit ''10-0-0-1'', lit ''nip'', lit ''nu''] 28) signed_config = ret r \<and>
     read_message r = Some m \<and> ms_answers m = [] \<and> ms_authority m = [soa, soa_sig, nsec, nsec_sig] \<and>
     valid_rrset toy_verify 1700000100 (dk_dnskey_rdata toy_key) [lit ''nip'', lit ''nu'']
       [lit ''10-0-0-1'', lit ''nip'', lit ''nu''] ([nsec], nsec_sig)"
proof -
  let ?ls = "[lit ''10-0-0-1'', lit ''nip'', lit ''nu'']" and ?q = "do_query [lit ''10-0-0-1'', lit ''nip'', lit ''nu''] 28"
  have h: "query_hdr [0x12, 0x34, 1, 0, 0, 1, 0, 0, 0, 0, 0, 1]" and l: "qlabels_ok ?ls" and u: "utf8_labels ?ls"
    and len: "length ?q \<le> 60000" and w: "wants_dnssec ?q" and op: "opcode ?q = 0"
    and zone: "suffix [lit ''nip'', lit ''nu''] (map to_lower ?ls)" "labels (cf_glue_name toy_config) \<noteq> []"
    and t: "28 \<notin> set (existing_types toy_config (join_with [DOT] ?ls)) \<union> {TYPE_ANY}"
    and apex: "\<not> names_eq (join_with [DOT] ?ls) (cf_glue_name toy_config)"
    and z: "map to_lower (labels (cf_glue_name toy_config)) = [lit ''nip'', lit ''nu'']"
    by code_simp+
  have k: "cf_dnssec signed_config = Some toy_key" and g: "cf_glue_name signed_config = cf_glue_name toy_config"
    by (simp_all add: signed_config_def)
  have e: "existing_types signed_config (join_with [DOT] ?ls) = existing_types toy_config (join_with [DOT] ?ls)"
    using apex by (simp add: existing_types_def signed_config_def is_configured_ns_def)
  have sfx: "suffix (map to_lower (labels (cf_glue_name signed_config))) (map to_lower ?ls)"
    using zone(1) unfolding g z .
  have n: "(28 :: u16) \<noteq> TYPE_NSEC \<or> \<not> names_eq (join_with [DOT] ?ls) (cf_glue_name signed_config)" by simp
  show ?thesis
    using signed_denial_proves [where verify = toy_verify, OF signed_config_wf signed_config_fit
        h l _ u _ do_query_def len op k w zone(2) [folded g] sfx t [folded e] n
        toy_verify_sign toy_clocks_agree]
    by (auto simp: g z)
qed

section \<open>The chain of trust\<close>

text \<open>What a resolver checks of the DS data a parent holds against a DNSKEY of the zone (RFC 4034, 5).\<close>

definition ds_matches :: "(bytes \<Rightarrow> bytes) \<Rightarrow> bytes \<Rightarrow> rstr list \<Rightarrow> bytes \<Rightarrow> bool" where
  "ds_matches sha256 ds zone dnskey \<longleftrightarrow>
     take 4 ds = be16 (of_nat (dnskey_tag dnskey)) @ [13, 2] \<and> drop 4 ds = sha256 (enc_labels zone @ dnskey)"

text \<open>
  C7: the chain of trust: the DNSKEY record set that a zone with a key serves at its name is the one
  record of the configured key, which matches the DS data the program prints for the parent (and
  serves as CDS), and it is validly signed by that key itself; so a resolver that holds the DS data
  accepts the key under which, by the theorem on answers, everything else validates.
\<close>

theorem chain_of_trust:
  assumes "config_wf cr cf" and "config_fit cr cf"
    and "query_hdr hdr" and "qlabels_ok ls" and "length ls \<le> 255" and "utf8_labels ls" and "ls \<noteq> []"
    and "q = question hdr ls TYPE_DNSKEY 1 rest" and "length q \<le> 60000" and "opcode q = 0"
    and "cf_dnssec cf = Some key" and "wants_dnssec q"
    and "map to_lower ls = map to_lower (labels (cf_glue_name cf))"
    and "\<not> is_version_query (join_with [DOT] ls)"
    and "\<And>k m. verify (cr_point cr k) m (cr_sign cr k m)" and "clocks_agree clk now"
  shows "\<exists>r m dnskey sig. handle_query_internal cr clk q cf = ret r \<and> read_message r = Some m \<and>
    ms_answers m = [dnskey, sig] \<and> wr_typ dnskey = TYPE_DNSKEY \<and>
    wr_rdata dnskey = dk_dnskey_rdata key \<and> owner_labels ls dnskey = map to_lower ls \<and>
    ds_matches (cr_sha256 cr) (ds_rdata cr key (cf_glue_name cf)) (map to_lower ls) (wr_rdata dnskey) \<and>
    valid_rrset verify now (wr_rdata dnskey) (map to_lower ls) ls ([dnskey], sig)"
proof -
  let ?p = "zone_params_of cf (wants_dnssec q)" and ?d = "join_with [DOT] ls" and ?r = "dnskey_rr key"
  let ?s = "rrsig_of cr clk 0 q ?p key [?r]"
  have hdr: "length hdr = 12" using assms(3) by (simp add: query_hdr_def)
  have key: "key_wf cr key" using assms(1,11) by (simp add: config_wf_def)
  have name: "name_ok (zp_zone ?p)"
    using config_fit_params [OF assms(2)] by (simp add: params_fit_def short_name_def)
  have p: "zp_dnssec ?p = Some key" "zp_do_bit ?p" "zp_zone ?p = cf_glue_name cf"
    using assms(11,12) by (simp_all add: zone_params_of_def)
  have r: "rr_typ ?r = TYPE_DNSKEY" "rr_rdata ?r = dk_dnskey_rdata key" "rr_owner ?r = Question"
    by (simp_all add: dnskey_rr_def question_rr_def)
  have "query_domain q = Some ?d" "qtypes q = Some (TYPE_DNSKEY, 1)"
    using query_domain_question [OF assms(3,6,7)] qtypes_question [OF hdr assms(4)] assms(8) by simp_all
  moreover have "\<forall>l \<in> set ls. l \<noteq> []" using assms(6) by (auto simp: utf8_labels_def label_ok_def)
  note apex_name [OF assms(13) this assms(7)]
  ultimately have o: "outcome cr q cf = Answer ([?r], [], [])"
    using assms(10,14) p(1) by (simp add: outcome_def zone_records_def Let_def apex_content_def apex_answers_def if_some_def)
  have "runs [?r] = [[?r]]" by (simp add: runs_def add_run_def)
  then have sections: "signed_sections cr clk q ?p ([?r], [], []) = ([?r, ?s], [], [])"
    using p r(1) by (simp add: signed_sections_def signed_run_def sorted_run_def next_reading_def signing_key_def
        runs_def [of "[]"])
  have fit: "signable ls [?r]" using names_fit_question [OF assms(4,5), of ?r] r by (simp add: names_fit_Name)
  have v: "valid_rrset verify now (dk_dnskey_rdata key) (map to_lower ls) ls ([view ?r], view ?s)"
    using valid_run [where verify = verify, OF assms(3,4,8) key assms(15) name assms(16) fit, of 0] r(3)
    by (simp add: sorted_run_def p(3) assms(13) rr_labels_def)
  have "dnskey_tag (dk_dnskey_rdata key) = unat (dk_key_tag key)"
    using key unat_key_tag [of "dk_dnskey_rdata key"] by (simp add: dnskey_tag_def key_wf_def)
  then have "ds_matches (cr_sha256 cr) (ds_rdata cr key (cf_glue_name cf)) (map to_lower ls) (dk_dnskey_rdata key)"
    by (simp add: ds_matches_def ds_rdata_def encode_domain_name_labels assms(13) be16_def Let_def)
  with v answered_reads_back [OF assms(1-4,8,9) o, of clk] r show ?thesis
    by (auto simp: sections reply_message_def owner_labels_view rr_labels_def)
qed

theorem chain_of_trust_witness:
  "\<exists>r m dnskey sig. handle_query_internal toy_crypto (\<lambda>_. Some 1700000000)
       (do_query [lit ''NIP'', lit ''nu''] 48) signed_config = ret r \<and>
     read_message r = Some m \<and> ms_answers m = [dnskey, sig] \<and>
     ds_matches (cr_sha256 toy_crypto) (ds_rdata toy_crypto toy_key (lit ''nip.nu'')) [lit ''nip'', lit ''nu'']
       (wr_rdata dnskey)"
proof -
  let ?ls = "[lit ''NIP'', lit ''nu'']" and ?q = "do_query [lit ''NIP'', lit ''nu''] 48"
  have h: "query_hdr [0x12, 0x34, 1, 0, 0, 1, 0, 0, 0, 0, 0, 1]" and l: "qlabels_ok ?ls" and u: "utf8_labels ?ls"
    and len: "length ?q \<le> 60000" and w: "wants_dnssec ?q" and op: "opcode ?q = 0"
    and z: "map to_lower ?ls = map to_lower (labels (cf_glue_name toy_config))"
    and v: "\<not> is_version_query (join_with [DOT] ?ls)"
    and ls: "map to_lower ?ls = [lit ''nip'', lit ''nu'']"
    and n: "cf_glue_name toy_config = lit ''nip.nu''"
    by code_simp+
  have k: "cf_dnssec signed_config = Some toy_key" and g: "cf_glue_name signed_config = cf_glue_name toy_config"
    by (simp_all add: signed_config_def)
  have d: "?q = question [0x12, 0x34, 1, 0, 0, 1, 0, 0, 0, 0, 0, 1] ?ls TYPE_DNSKEY 1 [0, 0, 41, 4, 208, 0, 0, 0x80, 0, 0, 0]"
    by (simp add: do_query_def)
  show ?thesis
    using chain_of_trust [where verify = toy_verify, OF signed_config_wf signed_config_fit
        h l _ u _ d len op k w z [folded g] v toy_verify_sign toy_clocks_agree]
    unfolding ls g n by auto
qed

end
