(* ===== verification/Loops.thy ===== *)
theory Loops
  imports Query "HOL-Library.While_Combinator"
begin

text \<open>
  The three \<open>while\<close> loops a request runs, as the code has them: a body that updates the mutable
  variables and goes on, or leaves the loop (\<open>break\<close>, \<open>return\<close>, a panic, or a false condition).  Each
  is shown to end, with a bound on its iterations, and to compute the recursive function that
  stands for it elsewhere.  The \<open>for\<close> loops run over lists and end by themselves.
\<close>

section \<open>Loops that move a cursor\<close>

datatype ('s, 'r) control = Running 's | Finished 'r

definition loop_body :: "('s \<Rightarrow> ('s, 'r) control) \<Rightarrow> ('s, 'r) control \<Rightarrow> ('s, 'r) control" where
  "loop_body step c = (case c of Running s \<Rightarrow> step s | Finished r \<Rightarrow> c)"

definition is_running :: "('s, 'r) control \<Rightarrow> bool" where
  "is_running c \<longleftrightarrow> (case c of Running s \<Rightarrow> True | Finished r \<Rightarrow> False)"

text \<open>The loop as a \<open>while\<close>, \<open>None\<close> when it runs forever, and with fuel, \<open>None\<close> when that is used up.\<close>

definition run_loop :: "('s \<Rightarrow> ('s, 'r) control) \<Rightarrow> 's \<Rightarrow> ('s, 'r) control option" where
  "run_loop step s = while_option is_running (loop_body step) (Running s)"

primrec fuelled :: "nat \<Rightarrow> ('s \<Rightarrow> ('s, 'r) control) \<Rightarrow> 's \<Rightarrow> 'r option" where
  "fuelled 0 step s = None"
| "fuelled (Suc n) step s = (case step s of Running s' \<Rightarrow> fuelled n step s' | Finished r \<Rightarrow> Some r)"

lemma is_running_simps [simp]: "is_running (Running s)" "\<not> is_running (Finished r)"
  by (simp_all add: is_running_def)

lemma run_loop_unfold:
  "run_loop step s = (case step s of Running s' \<Rightarrow> run_loop step s' | Finished r \<Rightarrow> Some (Finished r))"
proof -
  have "run_loop step s = while_option is_running (loop_body step) (step s)"
    unfolding run_loop_def by (subst while_option_unfold) (simp add: loop_body_def)
  also have "\<dots> = (case step s of Running s' \<Rightarrow> run_loop step s' | Finished r \<Rightarrow> Some (Finished r))"
  proof (cases "step s")
    case (Finished r)
    then show ?thesis by (subst while_option_unfold) simp
  qed (simp add: run_loop_def)
  finally show ?thesis .
qed

lemma fuelled_run_loop: "fuelled n step s = Some r \<Longrightarrow> run_loop step s = Some (Finished r)"
proof (induction n arbitrary: s)
  case (Suc n)
  then show ?case by (subst run_loop_unfold) (auto split: control.splits)
qed simp

text \<open>
  The contract of the loops: a potential that every completed iteration lowers, and the function
  the loop computes, which satisfies the equation of the loop.
\<close>

locale cursor_loop =
  fixes step :: "'s \<Rightarrow> ('s, 'r) control" and potential :: "'s \<Rightarrow> nat" and result :: "'s \<Rightarrow> 'r"
  assumes advances: "step s = Running s' \<Longrightarrow> potential s' < potential s"
    and computes: "result s = (case step s of Running s' \<Rightarrow> result s' | Finished r \<Rightarrow> r)"
begin

lemma ends_within: "potential s < n \<Longrightarrow> fuelled n step s = Some (result s)"
proof (induction n arbitrary: s)
  case (Suc n)
  show ?case
  proof (cases "step s")
    case (Running s')
    with advances [OF this] Suc show ?thesis using computes [of s] by simp
  next
    case (Finished r)
    then show ?thesis using computes [of s] by simp
  qed
qed simp

lemma ends: "run_loop step s = Some (Finished (result s))"
  by (rule fuelled_run_loop [OF ends_within [OF lessI]])

end

section \<open>The loop of \<open>parse_query\<close>\<close>

definition parse_query_step :: "bytes \<Rightarrow> nat \<times> rstr \<Rightarrow> (nat \<times> rstr, rstr option exec) control" where
  "parse_query_step query s = (case s of (pos, domain) \<Rightarrow>
     if \<not> pos < length query then Finished (ret (Some domain))
     else (case idx query pos of
         None \<Rightarrow> Finished panic
       | Some b \<Rightarrow>
           (let len = unat b in
            if len = 0 then Finished (ret (Some domain))
            else (let pos = pos + 1 in
              if pos + len > length query then Finished (ret None)
              else (let domain = (if domain \<noteq> [] then domain @ [DOT] else domain) in
                case subslice query pos (pos + len) of
                  None \<Rightarrow> Finished panic
                | Some part \<Rightarrow>
                    if utf8_valid part then Running (pos + len, domain @ part)
                    else Finished (ret None))))))"

interpretation parse_query: cursor_loop "parse_query_step q" "\<lambda>(pos, domain). (length q - pos) div 2"
    "\<lambda>(pos, domain). parse_query_loop q pos domain" for q
proof
  fix s s' :: "nat \<times> rstr"
  assume "parse_query_step q s = Running s'"
  then show "(case s' of (pos, domain) \<Rightarrow> (length q - pos) div 2) < (case s of (pos, domain) \<Rightarrow> (length q - pos) div 2)"
    by (auto simp: parse_query_step_def Let_def split: if_splits option.splits prod.splits)
next
  fix s :: "nat \<times> rstr"
  obtain pos domain where s: "s = (pos, domain)" by (cases s)
  show "(case s of (pos, domain) \<Rightarrow> parse_query_loop q pos domain) =
      (case parse_query_step q s of Running s' \<Rightarrow> (case s' of (pos, domain) \<Rightarrow> parse_query_loop q pos domain) | Finished r \<Rightarrow> r)"
    unfolding s prod.case
    by (subst parse_query_loop.simps) (auto simp: parse_query_step_def Let_def split: option.split)
qed

section \<open>The loops of \<open>label_count\<close> and \<open>lowercase_wire_name\<close>\<close>

definition label_count_step :: "bytes \<Rightarrow> nat \<times> byte \<Rightarrow> (nat \<times> byte, byte) control" where
  "label_count_step wire_name s = (case s of (i, n) \<Rightarrow>
     if i < length wire_name \<and> wire_name ! i \<noteq> 0
     then Running (i + (1 + unat (wire_name ! i)), sat_add n 1)
     else Finished n)"

lemma label_moves:
  assumes "i < n" and "b \<noteq> 0" and "min (Suc (i + unat (b :: byte))) n \<le> j"
  shows "Suc (n - j) div 2 < Suc (n - i) div 2"
proof (cases "n \<le> j")
  case True
  have "2 div 2 \<le> Suc (n - i) div 2" using assms(1) by (intro div_le_mono) linarith
  with True show ?thesis by simp
next
  case False
  moreover have "0 < unat b" using assms(2) by (metis gr0I unat_eq_zero)
  ultimately have "Suc (n - j) + 2 \<le> Suc (n - i)" using assms(3) by linarith
  then have "(Suc (n - j) + 2) div 2 \<le> Suc (n - i) div 2" by (rule div_le_mono)
  then show ?thesis by simp
qed

interpretation label_count: cursor_loop "label_count_step w" "\<lambda>(i, n). (length w - i + 1) div 2"
    "\<lambda>(i, n). label_count_loop w i n" for w
proof
  fix s s' :: "nat \<times> byte"
  assume "label_count_step w s = Running s'"
  then show "(case s' of (i, n) \<Rightarrow> (length w - i + 1) div 2) < (case s of (i, n) \<Rightarrow> (length w - i + 1) div 2)"
    by (auto simp: label_count_step_def intro!: label_moves split: if_splits prod.splits)
next
  fix s :: "nat \<times> byte"
  obtain i n where s: "s = (i, n)" by (cases s)
  show "(case s of (i, n) \<Rightarrow> label_count_loop w i n) =
      (case label_count_step w s of Running s' \<Rightarrow> (case s' of (i, n) \<Rightarrow> label_count_loop w i n) | Finished r \<Rightarrow> r)"
    unfolding s prod.case by (subst label_count_loop.simps) (simp add: label_count_step_def)
qed

definition lowercase_step :: "bytes \<times> nat \<Rightarrow> (bytes \<times> nat, bytes exec) control" where
  "lowercase_step s = (case s of (out, i) \<Rightarrow>
     if i < length out \<and> out ! i \<noteq> 0 then
       (let len = unat (out ! i);
            start = i + 1;
            e = min (start + len) (length out)
        in case subslice out start e of
             None \<Rightarrow> Finished panic
           | Some seg \<Rightarrow> Running (take start out @ map ascii_lower seg @ drop e out, e))
     else Finished (ret out))"

interpretation lowercase: cursor_loop lowercase_step "\<lambda>(out, i). (length out - i + 1) div 2"
    "\<lambda>(out, i). lowercase_loop out i"
proof
  fix s s' :: "bytes \<times> nat"
  assume "lowercase_step s = Running s'"
  then show "(case s' of (out, i) \<Rightarrow> (length out - i + 1) div 2) < (case s of (out, i) \<Rightarrow> (length out - i + 1) div 2)"
    by (auto simp: lowercase_step_def subslice_def Let_def intro!: label_moves split: if_splits prod.splits)
next
  fix s :: "bytes \<times> nat"
  obtain out i where s: "s = (out, i)" by (cases s)
  show "(case s of (out, i) \<Rightarrow> lowercase_loop out i) =
      (case lowercase_step s of Running s' \<Rightarrow> (case s' of (out, i) \<Rightarrow> lowercase_loop out i) | Finished r \<Rightarrow> r)"
    unfolding s prod.case
    by (subst lowercase_loop.simps) (auto simp: lowercase_step_def Let_def split: option.split)
qed

section \<open>Every loop ends\<close>

text \<open>
  C16: every \<open>while\<close> loop of a request ends, on any bytes: the loop of \<open>parse_query\<close> after at most one
  iteration for two bytes of the message behind its header and one more, the loops over a name in wire
  form after at most one for two bytes of it and two more; and as loops (run by \<open>while_option\<close>,
  which is \<open>None\<close> for a loop that does not end) they return what the recursive definitions of the
  model compute.  A label is at least a length and a byte, so no message makes the cursor stand still.
\<close>

theorem request_loops_end:
  "run_loop (parse_query_step q) (12, []) = Some (Finished (parse_query_loop q 12 [])) \<and>
   fuelled ((length q - 12) div 2 + 1) (parse_query_step q) (12, []) = Some (parse_query_loop q 12 []) \<and>
   run_loop (label_count_step w) (0, 0) = Some (Finished (label_count w)) \<and>
   fuelled (length w div 2 + 2) (label_count_step w) (0, 0) = Some (label_count w) \<and>
   run_loop lowercase_step (w, 0) = Some (Finished (lowercase_wire_name w)) \<and>
   fuelled (length w div 2 + 2) lowercase_step (w, 0) = Some (lowercase_wire_name w)"
  using parse_query.ends [of q "(12, [])"] parse_query.ends_within [of q "(12, [])" "(length q - 12) div 2 + 1"]
    label_count.ends [of w "(0, 0)"] label_count.ends_within [of w "(0, 0)" "length w div 2 + 2"]
    lowercase.ends [of "(w, 0)"] lowercase.ends_within [of "(w, 0)" "length w div 2 + 2"]
  by (simp add: label_count_def lowercase_wire_name_def)

end
