(* ===== verification/Unit_Tests.thy ===== *)
theory Unit_Tests
  imports Query Rate_Limit Keygen
begin

text \<open>
  The unit tests in \<open>ip_parser.rs\<close>, \<open>config.rs\<close>, \<open>rate_limit.rs\<close>, \<open>response.rs\<close> and \<open>dnssec.rs\<close>, run
  against the model: each test is a computation that panics when an assertion fails, and a lemma
  says that it passes.  Where a test generates a key or reads a clock, these are arguments and the
  lemma says for which of them it passes.
\<close>

section \<open>Assertions\<close>

definition assert_that :: "bool \<Rightarrow> unit exec" where
  "assert_that b = (if b then ret () else panic)"

definition for_each :: "('a \<Rightarrow> unit exec) \<Rightarrow> 'a list \<Rightarrow> unit exec" where
  "for_each f xs = fold_exec (\<lambda>_ x. f x) () xs"

lemma assert_that_True [simp]: "assert_that True = ret ()"
  by (simp add: assert_that_def)

section \<open>\<open>ip_parser.rs\<close>\<close>

definition expect_ipv4 :: "rstr \<times> rstr \<Rightarrow> unit exec" where
  "expect_ipv4 c = (case c of (input, expected) \<Rightarrow> do {
     result \<leftarrow> interpret_ip input;
     expected_ip \<leftarrow> ipv4_from_str expected;
     assert_that (result = Some (Some expected_ip, None))
   })"

definition test_dot_notation :: "unit exec" where
  "test_dot_notation = for_each expect_ipv4
     [(lit ''10.0.0.1.example.com'', lit ''10.0.0.1''),
      (lit ''app.10.8.0.1.example.com'', lit ''10.8.0.1''),
      (lit ''customer1.app.10.0.0.1.example.com'', lit ''10.0.0.1'')]"

definition test_dash_notation :: "unit exec" where
  "test_dash_notation = for_each expect_ipv4
     [(lit ''192-168-1-250.example.com'', lit ''192.168.1.250''),
      (lit ''app-116-203-255-68.example.com'', lit ''116.203.255.68''),
      (lit ''customer2-app-127-0-0-1.example.com'', lit ''127.0.0.1'')]"

definition test_hex_notation :: "unit exec" where
  "test_hex_notation = for_each expect_ipv4
     [(lit ''0a000803.example.com'', lit ''10.0.8.3''),
      (lit ''app-c0a801fc.example.com'', lit ''192.168.1.252''),
      (lit ''customer3-app-7f000101.example.com'', lit ''127.0.1.1'')]"

definition test_ipv6_notation :: "unit exec" where
  "test_ipv6_notation = for_each
     (\<lambda>(input, expected). do {
        result \<leftarrow> interpret_ip input;
        expected_ip \<leftarrow> ipv6_from_str expected;
        assert_that (result = Some (None, Some expected_ip))
      })
     [(lit ''2a04-4e42-200--201.example.com'', lit ''2a04:4e42:200::201''),
      (lit ''customer4.2a04-4e42-200--201.example.com'', lit ''2a04:4e42:200::201'')]"

definition test_dual_stack_two_labels :: "unit exec" where
  "test_dual_stack_two_labels = do {
     v4 \<leftarrow> ipv4_from_str (lit ''127.0.0.1'');
     v6 \<leftarrow> ipv6_from_str (lit ''2a04:4e42:200::201'');
     _ \<leftarrow> for_each
       (\<lambda>input. do {
          result \<leftarrow> interpret_ip input;
          assert_that (result = Some (Some v4, Some v6))
        })
       [lit ''127-0-0-1.2a04-4e42-200--201.example.com'',
        lit ''2a04-4e42-200--201.127-0-0-1.example.com'',
        lit ''app.127-0-0-1.2a04-4e42-200--201.example.com'',
        lit ''app.2a04-4e42-200--201.127-0-0-1.example.com'',
        lit ''7f000001.2a04-4e42-200--201.example.com'',
        lit ''2a04-4e42-200--201.7f000001.example.com''];
     dotted \<leftarrow> interpret_ip (lit ''10.0.0.1.2a04-4e42-200--201.example.com'');
     ten \<leftarrow> ipv4_from_str (lit ''10.0.0.1'');
     assert_that (dotted = Some (Some ten, Some v6))
   }"

definition test_concatenated_label_is_not_dual_stack :: "unit exec" where
  "test_concatenated_label_is_not_dual_stack = do {
     result \<leftarrow> interpret_ip (lit ''2a04-4e42-200--201-127-0-0-1.example.com'');
     _ \<leftarrow> assert_that (result = None \<or>
       (case result of Some (None, Some _) \<Rightarrow> True | Some (Some _, None) \<Rightarrow> True | _ \<Rightarrow> False));
     (case result of
        Some (v4, v6) \<Rightarrow> assert_that (v4 = None \<or> v6 = None)
      | None \<Rightarrow> ret ())
   }"

definition test_invalid_inputs :: "unit exec" where
  "test_invalid_inputs = for_each
     (\<lambda>input. do { result \<leftarrow> interpret_ip input; assert_that (result = None) })
     [lit ''invalid.example.com'', lit ''256.256.256.256.example.com'',
      lit ''not-an-ip.example.com'', lit ''gggggggg.example.com'']"

lemma test_dot_notation_passes: "test_dot_notation = ret ()"
  by code_simp

lemma test_dash_notation_passes: "test_dash_notation = ret ()"
  by code_simp

lemma test_hex_notation_passes: "test_hex_notation = ret ()"
  by code_simp

lemma test_ipv6_notation_passes: "test_ipv6_notation = ret ()"
  by code_simp

text \<open>The seven names of the dual-stack test, in three groups.\<close>

lemma dual_stack_names_1:
  "interpret_ip (lit ''127-0-0-1.2a04-4e42-200--201.example.com'') =
     ret (Some (Some (Ipv4 127 0 0 1), ipv6_from_str (lit ''2a04:4e42:200::201'')))"
  "interpret_ip (lit ''2a04-4e42-200--201.127-0-0-1.example.com'') =
     ret (Some (Some (Ipv4 127 0 0 1), ipv6_from_str (lit ''2a04:4e42:200::201'')))"
  by code_simp+

lemma dual_stack_names_2:
  "interpret_ip (lit ''app.127-0-0-1.2a04-4e42-200--201.example.com'') =
     ret (Some (Some (Ipv4 127 0 0 1), ipv6_from_str (lit ''2a04:4e42:200::201'')))"
  "interpret_ip (lit ''app.2a04-4e42-200--201.127-0-0-1.example.com'') =
     ret (Some (Some (Ipv4 127 0 0 1), ipv6_from_str (lit ''2a04:4e42:200::201'')))"
  by code_simp+

lemma dual_stack_names_3:
  "interpret_ip (lit ''7f000001.2a04-4e42-200--201.example.com'') =
     ret (Some (Some (Ipv4 127 0 0 1), ipv6_from_str (lit ''2a04:4e42:200::201'')))"
  "interpret_ip (lit ''2a04-4e42-200--201.7f000001.example.com'') =
     ret (Some (Some (Ipv4 127 0 0 1), ipv6_from_str (lit ''2a04:4e42:200::201'')))"
  by code_simp+

lemma dual_stack_names_4:
  "interpret_ip (lit ''10.0.0.1.2a04-4e42-200--201.example.com'') =
     ret (Some (Some (Ipv4 10 0 0 1), ipv6_from_str (lit ''2a04:4e42:200::201'')))"
  "ipv4_from_str (lit ''127.0.0.1'') = Some (Ipv4 127 0 0 1)" "ipv4_from_str (lit ''10.0.0.1'') = Some (Ipv4 10 0 0 1)"
  "ipv6_from_str (lit ''2a04:4e42:200::201'') \<noteq> None"
  by code_simp+

lemma test_dual_stack_two_labels_passes: "test_dual_stack_two_labels = ret ()"
proof -
  obtain v6 where "ipv6_from_str (lit ''2a04:4e42:200::201'') = Some v6" using dual_stack_names_4(4) by blast
  then show ?thesis
    by (simp add: test_dual_stack_two_labels_def for_each_def dual_stack_names_1 dual_stack_names_2
        dual_stack_names_3 dual_stack_names_4)
qed

lemma test_concatenated_label_is_not_dual_stack_passes: "test_concatenated_label_is_not_dual_stack = ret ()"
  by code_simp

lemma test_invalid_inputs_passes: "test_invalid_inputs = ret ()"
  by code_simp

section \<open>\<open>config.rs\<close>\<close>

definition ns_names_default_to_soa :: "unit exec" where
  "ns_names_default_to_soa = do {
     _ \<leftarrow> assert_that (parse_ns_names None (lit ''ns.example.com'') = [lit ''ns.example.com'']);
     assert_that (parse_ns_names (Some (lit ''  '')) (lit ''ns.example.com'') = [lit ''ns.example.com''])
   }"

definition ns_names_parses_csv :: "unit exec" where
  "ns_names_parses_csv =
     assert_that (parse_ns_names (Some (lit ''ns.addr.se, ns1.addr.se'')) (lit ''ns.example.com'') =
       [lit ''ns.addr.se'', lit ''ns1.addr.se''])"

lemma config_tests_pass:
  "ns_names_default_to_soa = ret ()"
  "ns_names_parses_csv = ret ()"
  by code_simp+

section \<open>\<open>rate_limit.rs\<close>\<close>

text \<open>\<open>t n\<close> is what reading number \<open>n\<close> of \<open>Instant::now\<close> in a test returns.\<close>

definition test_ip :: "byte \<Rightarrow> ip_addr" where
  "test_ip n = V4 (Ipv4 127 0 0 n)"

text \<open>\<open>assert!(rl.check(ip))\<close> and \<open>assert!(!rl.check(ip))\<close>, with the limiter threaded through.\<close>

definition assert_check :: "bool \<Rightarrow> nat \<Rightarrow> ip_addr \<Rightarrow> limiter \<Rightarrow> limiter exec" where
  "assert_check expected now ip rl =
     (case check rl (now, ip) of (ok, rl') \<Rightarrow> if ok = expected then ret rl' else panic)"

definition disabled_when_either_value_is_zero :: "(nat \<Rightarrow> nat) \<Rightarrow> unit exec" where
  "disabled_when_either_value_is_zero t = (
     let zero_requests = rate_limiter_new 60 0;
         zero_window = rate_limiter_new 0 10
     in do {
       _ \<leftarrow> fold_exec (\<lambda>(zero_requests, zero_window) i. do {
              zero_requests \<leftarrow> assert_check True (t (2 * i)) (test_ip 1) zero_requests;
              zero_window \<leftarrow> assert_check True (t (2 * i + 1)) (test_ip 1) zero_window;
              ret (zero_requests, zero_window)
            }) (zero_requests, zero_window) [0..<1000];
       ret ()
     })"

definition allows_up_to_limit_then_blocks :: "(nat \<Rightarrow> nat) \<Rightarrow> unit exec" where
  "allows_up_to_limit_then_blocks t = (
     let rl = rate_limiter_new 60 3 in do {
       rl \<leftarrow> assert_check True (t 0) (test_ip 1) rl;
       rl \<leftarrow> assert_check True (t 1) (test_ip 1) rl;
       rl \<leftarrow> assert_check True (t 2) (test_ip 1) rl;
       rl \<leftarrow> assert_check False (t 3) (test_ip 1) rl;
       rl \<leftarrow> assert_check False (t 4) (test_ip 1) rl;
       ret ()
     })"

definition limits_are_tracked_per_ip :: "(nat \<Rightarrow> nat) \<Rightarrow> unit exec" where
  "limits_are_tracked_per_ip t = (
     let rl = rate_limiter_new 60 1 in do {
       rl \<leftarrow> assert_check True (t 0) (test_ip 1) rl;
       rl \<leftarrow> assert_check False (t 1) (test_ip 1) rl;
       rl \<leftarrow> assert_check True (t 2) (test_ip 2) rl;
       rl \<leftarrow> assert_check False (t 3) (test_ip 2) rl;
       ret ()
     })"

text \<open>The \<open>sleep\<close> before the last call is a hypothesis on the readings in the lemma below.\<close>

definition window_resets_after_elapsing :: "(nat \<Rightarrow> nat) \<Rightarrow> unit exec" where
  "window_resets_after_elapsing t = (
     let rl = rate_limiter_new 1 2 in do {
       rl \<leftarrow> assert_check True (t 0) (test_ip 1) rl;
       rl \<leftarrow> assert_check True (t 1) (test_ip 1) rl;
       rl \<leftarrow> assert_check False (t 2) (test_ip 1) rl;
       rl \<leftarrow> assert_check True (t 3) (test_ip 1) rl;
       ret ()
     })"

lemma limit_words: "\<not> 3 \<le> (1 :: u32)" "\<not> 3 \<le> (2 :: u32)" "\<not> 2 \<le> (1 :: u32)"
  by code_simp+

lemmas limiter_simps = assert_check_def check_def is_enabled_def rate_limiter_new_def test_ip_def Let_def limit_words

lemma disabled_when_either_value_is_zero_passes: "disabled_when_either_value_is_zero t = ret ()"
proof -
  have "fold_exec (\<lambda>(zr, zw) i. do {
      zr \<leftarrow> assert_check True (t (2 * i)) (test_ip 1) zr;
      zw \<leftarrow> assert_check True (t (2 * i + 1)) (test_ip 1) zw;
      ret (zr, zw)
    }) (rate_limiter_new 60 0, rate_limiter_new 0 10) xs = ret (rate_limiter_new 60 0, rate_limiter_new 0 10)" for xs
    by (induction xs) (simp_all add: limiter_simps)
  then show ?thesis by (simp add: disabled_when_either_value_is_zero_def Let_def)
qed

text \<open>The tests that count pass whenever they run within the window.\<close>

lemma allows_up_to_limit_then_blocks_passes:
  assumes "\<forall>n \<le> 4. t n < t 0 + 60 * 1000000000"
  shows "allows_up_to_limit_then_blocks t = ret ()"
proof -
  have "t n - t 0 < 60000000000" if "n \<le> 4" for n using spec [OF assms, of n] that by simp
  from this [of 1] this [of 2] this [of 3] this [of 4] show ?thesis
    by (simp add: allows_up_to_limit_then_blocks_def limiter_simps)
qed

lemma limits_are_tracked_per_ip_passes:
  assumes "t 1 < t 0 + 60 * 1000000000" and "t 3 < t 2 + 60 * 1000000000"
  shows "limits_are_tracked_per_ip t = ret ()"
proof -
  have "t 1 - t 0 < 60000000000" "t 3 - t 2 < 60000000000" using assms by linarith+
  then show ?thesis by (simp add: limits_are_tracked_per_ip_def limiter_simps)
qed

lemma window_resets_after_elapsing_passes:
  assumes "t 1 < t 0 + 1000000000" and "t 2 < t 0 + 1000000000"
    and "t 0 \<le> t 2" and "t 2 + 1100000000 \<le> t 3"
  shows "window_resets_after_elapsing t = ret ()"
proof -
  have "t 1 - t 0 < 1000000000" "t 2 - t 0 < 1000000000" "1000000000 \<le> t 3 - t 0" using assms by linarith+
  then show ?thesis by (simp add: window_resets_after_elapsing_def limiter_simps)
qed

section \<open>\<open>response.rs\<close>\<close>

definition test_flags :: "bytes \<Rightarrow> (bool \<times> bool \<times> bool \<times> bool \<times> byte) exec" where
  "test_flags resp = do {
     b2 \<leftarrow> idx resp 2;
     b3 \<leftarrow> idx resp 3;
     ret (b2 AND 0x04 \<noteq> 0, b2 AND 0x02 \<noteq> 0, b2 AND 0x01 \<noteq> 0, b3 AND 0x80 \<noteq> 0, b3 AND 0x0f)
   }"

definition sample_params :: "rstr list \<Rightarrow> 'k zone_params exec" where
  "sample_params ns_names = do {
     ip6 \<leftarrow> ipv6_from_str (lit ''2001:db8::1'');
     ret \<lparr> zp_zone = lit ''example.com'', zp_ns_name = lit ''ns.example.com'', zp_ns_names = ns_names,
       zp_glue_ip = Ipv4 1 2 3 4, zp_glue_ip6 = Some ip6, zp_hostmaster = lit ''hostmaster.example.com'',
       zp_serial = 1, zp_refresh = 3600, zp_retry = 1800, zp_expire = 604800, zp_minimum = 3600,
       zp_spf = Some (lit ''v=spf1 -all''), zp_dnssec = None, zp_do_bit = False \<rparr>
   }"

definition authoritative_flags_set_aa_clear_ra_copy_rd :: "'k crypto \<Rightarrow> clock \<Rightarrow> unit exec" where
  "authoritative_flags_set_aa_clear_ra_copy_rd cr clk = (
     let query = [0, 1, 0x01, 0, 0, 1, 0, 0, 0, 0, 0, 0] @ encode_domain_name (lit ''example.com'') @
           be16 TYPE_A @ be16 CLASS_IN;
         ns = [lit ''ns.example.com'']
     in do {
       params \<leftarrow> sample_params ns;
       resp \<leftarrow> build_apex_response cr clk query TYPE_A params;
       (aa, tc, rd, ra, rcode) \<leftarrow> test_flags resp;
       _ \<leftarrow> assert_that aa;
       _ \<leftarrow> assert_that (\<not> tc);
       _ \<leftarrow> assert_that rd;
       _ \<leftarrow> assert_that (\<not> ra);
       assert_that (rcode = 0)
     })"

definition refused_is_not_authoritative :: "unit exec" where
  "refused_is_not_authoritative = (
     let query = [0, 1, 0x00, 0, 0, 1, 0, 0, 0, 0, 0, 0] @ encode_domain_name (lit ''evil.com'') @
           be16 TYPE_A @ be16 CLASS_IN
     in do {
       resp \<leftarrow> build_refused_response query;
       (aa, _, rd, ra, rcode) \<leftarrow> test_flags resp;
       _ \<leftarrow> assert_that (\<not> aa);
       _ \<leftarrow> assert_that (\<not> rd);
       _ \<leftarrow> assert_that (\<not> ra);
       assert_that (rcode = RCODE_REFUSED)
     })"

definition truncate_sets_tc_when_over_limit :: "'k crypto \<Rightarrow> clock \<Rightarrow> unit exec" where
  "truncate_sets_tc_when_over_limit cr clk = (
     let query = [0, 1, 0x01, 0, 0, 1, 0, 0, 0, 0, 0, 0] @ encode_domain_name (lit ''example.com'') @
           be16 TYPE_ANY @ be16 CLASS_IN;
         ns = [lit ''ns1.example.com'', lit ''ns2.example.com'']
     in do {
       params \<leftarrow> sample_params ns;
       full \<leftarrow> build_apex_response cr clk query TYPE_ANY params;
       let oversized = full @ replicate 600 0;
       truncated \<leftarrow> maybe_truncate_udp oversized query;
       (_, tc, _, _, _) \<leftarrow> test_flags truncated;
       _ \<leftarrow> assert_that tc;
       _ \<leftarrow> assert_that (length truncated \<le> DEFAULT_UDP_SIZE);
       b6 \<leftarrow> idx truncated 6;
       b7 \<leftarrow> idx truncated 7;
       assert_that (of_be16 b6 b7 = 0)
     })"

definition name_in_bailiwick_checks_labels :: "unit exec" where
  "name_in_bailiwick_checks_labels = do {
     b1 \<leftarrow> name_in_bailiwick (lit ''ns.example.com'') (lit ''example.com'');
     _ \<leftarrow> assert_that b1;
     b2 \<leftarrow> name_in_bailiwick (lit ''example.com'') (lit ''example.com'');
     _ \<leftarrow> assert_that b2;
     b3 \<leftarrow> name_in_bailiwick (lit ''ns.addr.se'') (lit ''nip.nu'');
     _ \<leftarrow> assert_that (\<not> b3);
     b4 \<leftarrow> name_in_bailiwick (lit ''fakens.example.com.evil'') (lit ''example.com'');
     assert_that (\<not> b4)
   }"

text \<open>A reply without a key does not depend on the crate or the clock.\<close>

lemma authoritative_flags_set_aa_clear_ra_copy_rd_passes:
  "authoritative_flags_set_aa_clear_ra_copy_rd cr clk = ret ()"
  by code_simp

lemma refused_is_not_authoritative_passes: "refused_is_not_authoritative = ret ()"
  by code_simp

text \<open>What the tests of truncation check, for any long reply to a query without an OPT record.\<close>

lemma truncated_plain:
  assumes "qend q \<noteq> None" and "\<not> has_opt q" and "udp_limit q = 512" and "length (qsection_of q) \<le> 500"
    and "512 < length r"
  obtains t b2 b3 where "maybe_truncate_udp r q = ret t" and "length t \<le> 512"
    and "idx t 2 = ret b2" and "b2 AND 0x02 \<noteq> 0" and "idx t 3 = ret b3" and "idx t 6 = ret 0" and "idx t 7 = ret 0"
proof -
  obtain e where e: "qend q = Some e" using assms(1) by auto
  have "length (take 2 r) = 2" using assms(5) by simp
  then obtain a b where r: "take 2 r = [a, b]" by (metis length_2_exD)
  obtain c d where q: "take 2 (drop 4 q) = [c, d]" using length_2_exD [OF qend_slices(5) [OF e]] by blast
  let ?b2 = "get0 r 2 OR 0x02"
  have t: "truncated r q = [a, b, ?b2, get0 r 3, c, d, 0, 0, 0, 0, 0, 0] @ qsection_of q"
    using assms(2) by (simp add: truncated_def r q opt_part_def)
  have "bit (?b2 AND 0x02) 1" by (simp add: bit_simps)
  then have "?b2 AND 0x02 \<noteq> 0" by (metis bit_0_eq bot_apply bot_bool_def)
  then show ?thesis
    using assms e by (intro that [of "truncated r q" ?b2 "get0 r 3"]) (simp_all add: maybe_truncate_udp_eq t idx_def)
qed

definition any_query :: bytes where
  "any_query = [0, 1, 0x01, 0, 0, 1, 0, 0, 0, 0, 0, 0] @ encode_domain_name (lit ''example.com'') @
     be16 TYPE_ANY @ be16 CLASS_IN"

lemma any_query_plain:
  "qend any_query \<noteq> None" "\<not> has_opt any_query" "udp_limit any_query = 512" "length (qsection_of any_query) \<le> 500"
  by code_simp+

lemma sample_params_utf8:
  "\<forall>n \<in> set ns. utf8_valid n \<Longrightarrow> \<exists>params. sample_params ns = ret params \<and> params_utf8 params"
proof -
  have "ipv6_from_str (lit ''2001:db8::1'') \<noteq> None" by code_simp
  then show "\<forall>n \<in> set ns. utf8_valid n \<Longrightarrow> ?thesis" by (auto simp: sample_params_def params_utf8_def)
qed

lemma truncate_sets_tc_when_over_limit_passes: "truncate_sets_tc_when_over_limit cr clk = ret ()"
proof -
  have "\<forall>n \<in> set [lit ''ns1.example.com'', lit ''ns2.example.com'']. utf8_valid n" by code_simp
  from sample_params_utf8 [OF this] obtain params :: "'a zone_params" where
    p: "sample_params [lit ''ns1.example.com'', lit ''ns2.example.com''] = ret params" "params_utf8 params"
    by blast
  let ?r = "answer cr clk any_query params (apex_content cr any_query TYPE_ANY params) @ replicate 600 0"
  have "512 < length ?r" by simp
  from truncated_plain [OF any_query_plain this] obtain t b2 b3 where
    t: "maybe_truncate_udp ?r any_query = ret t" "length t \<le> 512" "idx t 2 = ret b2" "b2 AND 0x02 \<noteq> 0"
      "idx t 3 = ret b3" "idx t 6 = ret 0" "idx t 7 = ret 0" .
  have "of_be16 0 0 = 0" by code_simp
  then show ?thesis
    unfolding truncate_sets_tc_when_over_limit_def any_query_def [symmetric] Let_def
    using t by (simp add: p build_apex_response_eq test_flags_def)
qed

lemma name_in_bailiwick_checks_labels_passes: "name_in_bailiwick_checks_labels = ret ()"
  by code_simp

section \<open>\<open>dnssec.rs\<close>\<close>

definition key_tag_rfc4034_appendix_b_style :: "unit exec" where
  "key_tag_rfc4034_appendix_b_style =
     (let rdata = [0x01, 0x01, 0x03, 0x0d] @ replicate 64 0 in assert_that (key_tag rdata = 1038))"

definition type_bitmap_a_rrsig_nsec :: "unit exec" where
  "type_bitmap_a_rrsig_nsec = do {
     bitmap \<leftarrow> type_bitmap [1, 46, 47];
     b0 \<leftarrow> idx bitmap 0;
     _ \<leftarrow> assert_that (b0 = 0);
     _ \<leftarrow> assert_that (2 < length bitmap);
     b2 \<leftarrow> idx bitmap 2;
     assert_that (b2 AND 0x40 = 0x40)
   }"

text \<open>
  The generated key is \<open>g\<close>; \<open>sig_from_slice\<close> is \<open>Signature::from_slice\<close>, and \<open>verify\<close> is
  \<open>verify\<close> of the key with the given point.
\<close>

definition hex_key_roundtrip_signs ::
    "'k crypto \<Rightarrow> ('k, 's) keygen \<Rightarrow> (bytes \<Rightarrow> 'sig option) \<Rightarrow> (bytes \<Rightarrow> bytes \<Rightarrow> 'sig \<Rightarrow> bool) \<Rightarrow>
     clock \<Rightarrow> 'k \<Rightarrow> unit exec" where
  "hex_key_roundtrip_signs cr kg sig_from_slice verify clk g = do {
     generated \<leftarrow> from_signing_key cr g;
     hex \<leftarrow> hex_encode (kg_to_bytes kg (dk_signing_key generated));
     r \<leftarrow> from_private_key_str cr hex;
     loaded \<leftarrow> (case r of Inl _ \<Rightarrow> panic | Inr key \<Rightarrow> ret key);
     _ \<leftarrow> assert_that (dk_key_tag generated = dk_key_tag loaded);
     _ \<leftarrow> assert_that (dk_dnskey_rdata generated = dk_dnskey_rdata loaded);
     let owner = encode_domain_name (lit ''example.com'');
     let rdata = [[1, 2, 3, 4]];
     let rrsig = sign_rrsig cr clk 0 loaded owner 1 60 rdata (lit ''example.com'');
     _ \<leftarrow> assert_that (64 < length rrsig);
     _ \<leftarrow> assert_that (length rrsig - 64 + 64 = length rrsig);
     sig_bytes \<leftarrow> subslice rrsig (length rrsig - 64) (length rrsig);
     sig \<leftarrow> sig_from_slice sig_bytes;
     prefix_and_rr \<leftarrow> subslice rrsig 0 (length rrsig - 64);
     let prefix_and_rr = prefix_and_rr @ owner @ be16 1 @ be16 CLASS_IN @ be32 60 @ be16 4 @ [1, 2, 3, 4];
     assert_that (verify (cr_point cr (dk_signing_key loaded)) prefix_and_rr sig)
   }"

definition ds_digest_is_32_bytes :: "'k crypto \<Rightarrow> 'k \<Rightarrow> unit exec" where
  "ds_digest_is_32_bytes cr g = do {
     key \<leftarrow> from_signing_key cr g;
     let ds = ds_rdata cr key (lit ''nip.nu'');
     _ \<leftarrow> assert_that (length ds = 4 + 32);
     b2 \<leftarrow> idx ds 2;
     _ \<leftarrow> assert_that (b2 = ALG_ECDSAP256SHA256);
     b3 \<leftarrow> idx ds 3;
     _ \<leftarrow> assert_that (b3 = DIGEST_SHA256);
     hex \<leftarrow> ds_digest_hex cr key (lit ''nip.nu'');
     assert_that (length hex = 64)
   }"

text \<open>\<open>secret\<close> is the generated \<open>SecretKey\<close>.\<close>

definition pem_roundtrip :: "'k crypto \<Rightarrow> ('k, 's) keygen \<Rightarrow> 's \<Rightarrow> unit exec" where
  "pem_roundtrip cr kg secret = do {
     pem \<leftarrow> kg_to_pkcs8_pem kg secret;
     r \<leftarrow> from_private_key_str cr pem;
     key \<leftarrow> (case r of Inl _ \<Rightarrow> panic | Inr key \<Rightarrow> ret key);
     assert_that (dk_key_tag key \<noteq> 0)
   }"

lemma key_tag_rfc4034_appendix_b_style_passes: "key_tag_rfc4034_appendix_b_style = ret ()"
proof -
  let ?rdata = "[0x01, 0x01, 0x03, 0x0d] @ replicate 64 0 :: bytes"
  have "key_sum 0 ?rdata = 1038" by code_simp
  then have "unat (key_tag ?rdata) = unat (1038 :: u16)"
    using unat_key_tag [of ?rdata] by simp
  then have "key_tag ?rdata = 1038" by (simp only: word_unat_eq_iff)
  then show ?thesis by (simp add: key_tag_rfc4034_appendix_b_style_def)
qed

lemma type_bitmap_a_rrsig_nsec_passes: "type_bitmap_a_rrsig_nsec = ret ()"
  by code_simp

lemma from_private_key_str_upper:
  assumes "length bs = 32" and "cr_from_slice cr bs = Some k" and "from_signing_key cr k = ret key"
  shows "from_private_key_str cr (concat (map hex_upper bs)) = ret (Inr key)"
  using from_private_key_str_hex [OF assms]
  by (auto simp: dnssec_key_from_env_def split: if_splits Option.bind_splits sum.splits)

text \<open>The round trip of a key through its hexadecimal text passes for every key and any clock.\<close>

lemma hex_key_roundtrip_signs_passes:
  assumes "sec1_points cr" and "keygen_ok cr kg g" and "\<And>k m. length (cr_sign cr k m) = 64"
    and "\<And>k m. \<exists>sig. sig_from_slice (cr_sign cr k m) = Some sig \<and> verify (cr_point cr k) m sig"
  shows "hex_key_roundtrip_signs cr kg sig_from_slice verify clk g = ret ()"
proof -
  obtain key where key: "from_signing_key cr g = ret key" "dk_signing_key key = g"
    using assms(1) by (simp add: from_signing_key_eq sec1_points_def Let_def)
  have k: "length (kg_to_bytes kg g) = 32" "cr_from_slice cr (kg_to_bytes kg g) = Some g"
    using assms(2) by (simp_all add: keygen_ok_def)
  let ?owner = "encode_domain_name (lit ''example.com'')"
  let ?prefix = "rrsig_prefix clk 0 key ?owner 1 60 (lit ''example.com'')"
  let ?msg = "?prefix @ ?owner @ be16 1 @ be16 CLASS_IN @ be32 60 @ be16 4 @ [1, 2, 3, 4]"
  obtain sig where sig: "sig_from_slice (cr_sign cr g ?msg) = Some sig" "verify (cr_point cr g) ?msg sig"
    using assms(4) by blast
  have s: "sign_rrsig cr clk 0 key ?owner 1 60 [[1, 2, 3, 4]] (lit ''example.com'') = ?prefix @ cr_sign cr g ?msg"
    by (simp add: sign_rrsig_eq Let_def signed_rr_def key(2))
  have "64 < length (?prefix @ cr_sign cr g ?msg)" by (simp add: assms(3) rrsig_prefix_def)
  then show ?thesis
    using sig
    by (simp add: hex_key_roundtrip_signs_def key hex_encode_eq from_private_key_str_upper [OF k key(1)] Let_def
        s subslice_def assms(3) del: CLASS_IN_def)
qed

lemma ds_digest_is_32_bytes_passes:
  assumes "sec1_points cr" and "\<And>m. length (cr_sha256 cr m) = 32"
  shows "ds_digest_is_32_bytes cr g = ret ()"
proof -
  obtain key where key: "from_signing_key cr g = ret key"
    using assms(1) by (simp add: from_signing_key_eq sec1_points_def Let_def)
  have "length (concat (map hex_upper bs)) = 2 * length bs" for bs by (induction bs) (simp_all add: hex_upper_def)
  then show ?thesis
    by (simp add: ds_digest_is_32_bytes_def key ds_rdata_def ds_digest_hex_def hex_encode_eq subslice_def
        idx_def assms(2) Let_def be16_def del: length_concat)
qed

text \<open>
  The round trip through PEM passes unless the tag of the key happens to be 0, which a valid key
  may have.
\<close>

lemma pem_roundtrip_result:
  assumes "kg_to_pkcs8_pem kg secret = Some pem" and "from_private_key_str cr pem = ret (Inr key)"
  shows "pem_roundtrip cr kg secret = (if dk_key_tag key \<noteq> 0 then ret () else panic)"
  by (simp add: pem_roundtrip_def assms assert_that_def)

end
