(* ===== verification/Query_Tests.thy ===== *)
theory Query_Tests
  imports Validation Unit_Tests
begin

text \<open>
  The unit tests in \<open>query.rs\<close>, run against the model: each is a computation that panics when an
  assertion fails.  They pass whatever the crate, the clock and the generated key are, which follows
  from the closed forms of the replies; the one exception is described where it occurs.
\<close>

section \<open>The helpers of the tests\<close>

definition test_config :: "'k config exec" where
  "test_config = do {
     ip6 \<leftarrow> ipv6_from_str (lit ''2a01:4f9:c012:6a18::1'');
     ret \<lparr> cf_glue_name = lit ''nip.nu'', cf_glue_ip = Ipv4 37 27 198 249, cf_glue_ip6 = Some ip6,
       cf_soa_name = lit ''ns1.addr.se'', cf_ns_names = [lit ''ns.addr.se'', lit ''ns1.addr.se''],
       cf_hostmaster = lit ''hostmaster.nip.nu'', cf_serial = 1, cf_refresh = 3600, cf_retry = 1800,
       cf_expire = 604800, cf_minimum = 3600, cf_spf = lit ''v=spf1 -all'',
       cf_dmarc = lit ''v=DMARC1; p=reject;'', cf_version = lit ''1.8.1'', cf_rate_limit_seconds = 0,
       cf_rate_limit_requests = 0, cf_dnssec = None \<rparr>
   }"

definition dns_query_edns :: "rstr \<Rightarrow> u16 \<Rightarrow> u16 \<Rightarrow> bool \<Rightarrow> bool \<Rightarrow> bytes" where
  "dns_query_edns name qtype flags edns dnssec_ok =
     (let q = [0x12, 0x34];
          q = q @ be16 flags;
          q = q @ [0, 1, 0, 0, 0, 0];
          q = q @ (if edns then [0, 1] else [0, 0]);
          q = q @ encode_domain_name name;
          q = q @ be16 qtype;
          q = q @ be16 1
      in if edns then
           (let q = q @ [0];
                q = q @ be16 41;
                q = q @ be16 1232;
                q = q @ [0];
                q = q @ [0];
                opt_flags = (if dnssec_ok then 0x8000 else 0);
                q = q @ be16 opt_flags
            in q @ be16 0)
         else q)"

definition dns_query_with :: "rstr \<Rightarrow> u16 \<Rightarrow> u16 \<Rightarrow> bool \<Rightarrow> bytes" where
  "dns_query_with name qtype flags edns = dns_query_edns name qtype flags edns False"

definition dns_query :: "rstr \<Rightarrow> u16 \<Rightarrow> bytes" where
  "dns_query name qtype = dns_query_with name qtype 0x0100 False"

definition count_at :: "bytes \<Rightarrow> nat \<Rightarrow> u16 exec" where
  "count_at resp i = do { h \<leftarrow> idx resp i; l \<leftarrow> idx resp (i + 1); ret (of_be16 h l) }"

definition ancount :: "bytes \<Rightarrow> u16 exec" where "ancount resp = count_at resp 6"
definition nscount :: "bytes \<Rightarrow> u16 exec" where "nscount resp = count_at resp 8"
definition arcount :: "bytes \<Rightarrow> u16 exec" where "arcount resp = count_at resp 10"

definition test_aa :: "bytes \<Rightarrow> bool exec" where
  "test_aa resp = do { b \<leftarrow> idx resp 2; ret (b AND 0x04 \<noteq> 0) }"

definition test_ra :: "bytes \<Rightarrow> bool exec" where
  "test_ra resp = do { b \<leftarrow> idx resp 3; ret (b AND 0x80 \<noteq> 0) }"

definition test_rcode :: "bytes \<Rightarrow> byte exec" where
  "test_rcode resp = do { b \<leftarrow> idx resp 3; ret (b AND 0x0f) }"

text \<open>\<open>xs.windows(needle.len()).any(|w| w == needle)\<close>; windows of length 0 are a panic.\<close>

definition any_window :: "bytes \<Rightarrow> bytes \<Rightarrow> bool exec" where
  "any_window needle xs =
     (if needle = [] then panic
      else ret (list_ex (\<lambda>i. take (length needle) (drop i xs) = needle) [0..<Suc (length xs) - length needle]))"

definition contains_type :: "bytes \<Rightarrow> u16 \<Rightarrow> bool exec" where
  "contains_type resp typ = any_window (be16 typ) resp"

definition contains_name :: "bytes \<Rightarrow> rstr \<Rightarrow> bool exec" where
  "contains_name resp name = any_window (encode_domain_name name) resp"

text \<open>\<open>assert!\<close> and \<open>assert_eq!\<close> of a computed value, and \<open>&resp[resp.len() - n..]\<close> for an \<open>n\<close> of the data.\<close>

definition assert_eq :: "'a exec \<Rightarrow> 'a \<Rightarrow> unit exec" where
  "assert_eq c v = do { x \<leftarrow> c; assert_that (x = v) }"

definition last_bytes :: "bytes \<Rightarrow> nat \<Rightarrow> bytes exec" where
  "last_bytes resp n = (if n \<le> length resp then subslice resp (length resp - n) (length resp) else panic)"

section \<open>Zones and names\<close>

definition in_zone_exact_match :: "unit exec" where
  "in_zone_exact_match = do {
     _ \<leftarrow> assert_eq (is_in_zone (lit ''ns.addr.se'') (lit ''ns.addr.se'')) True;
     _ \<leftarrow> assert_eq (is_in_zone (lit ''NS.ADDR.SE'') (lit ''ns.addr.se'')) True;
     _ \<leftarrow> assert_eq (is_in_zone (lit ''ns.addr.se.'') (lit ''ns.addr.se'')) True;
     assert_eq (is_in_zone (lit ''ns.addr.se'') (lit ''ns.addr.se.'')) True
   }"

definition in_zone_subdomains :: "unit exec" where
  "in_zone_subdomains = do {
     _ \<leftarrow> assert_eq (is_in_zone (lit ''app.ns.addr.se'') (lit ''ns.addr.se'')) True;
     _ \<leftarrow> assert_eq (is_in_zone (lit ''a.b.c.ns.addr.se'') (lit ''ns.addr.se'')) True;
     assert_eq (is_in_zone (lit ''192-168-1-1.ns.addr.se'') (lit ''ns.addr.se'')) True
   }"

definition out_of_zone_is_rejected :: "unit exec" where
  "out_of_zone_is_rejected =
     (let zone = lit ''ns.addr.se'' in
      for_each (\<lambda>domain. assert_eq (is_in_zone domain zone) False)
       [lit ''version.bind'', lit ''id.server'', lit ''hostname.bind'', lit ''google.com'',
        lit ''cloudflare.com'', lit ''uu.nl'', lit ''longttl.aaexp1.research.syssec.cispa.de'',
        lit ''com'', lit ''example.com'', lit ''addr.se'', lit ''fakens.addr.se'', lit ''ns1.addr.se''])"

definition version_query_recognised :: "unit exec" where
  "version_query_recognised = do {
     _ \<leftarrow> assert_that (is_version_query (lit ''version''));
     _ \<leftarrow> assert_that (is_version_query (lit ''ver''));
     _ \<leftarrow> assert_that (is_version_query (lit ''v''));
     _ \<leftarrow> assert_that (is_version_query (lit ''VERSION''));
     _ \<leftarrow> assert_that (\<not> is_version_query (lit ''version.bind''));
     assert_that (\<not> is_version_query (lit ''verify''))
   }"

lemma in_zone_exact_match_passes: "in_zone_exact_match = ret ()"
  by code_simp

lemma in_zone_subdomains_passes: "in_zone_subdomains = ret ()"
  by code_simp

lemma out_of_zone_is_rejected_passes: "out_of_zone_is_rejected = ret ()"
  by code_simp

lemma version_query_recognised_passes: "version_query_recognised = ret ()"
  by code_simp

section \<open>What the helpers read from a reply\<close>

lemma any_window_found:
  assumes "needle \<noteq> []" and "xs = a @ needle @ b"
  shows "any_window needle xs = ret True"
proof -
  have "take (length needle) (drop (length a) xs) = needle" by (simp add: assms(2))
  moreover have "length a \<in> set [0..<Suc (length xs) - length needle]" by (simp add: assms(2))
  ultimately have "list_ex (\<lambda>i. take (length needle) (drop i xs) = needle) [0..<Suc (length xs) - length needle]"
    unfolding list_ex_iff by blast
  then show ?thesis using assms(1) by (simp only: any_window_def if_False)
qed

lemma any_window_sub:
  assumes "any_window (a @ needle @ b) xs = ret True" and "needle \<noteq> []"
  shows "any_window needle xs = ret True"
proof -
  let ?n = "a @ needle @ b"
  obtain i where "take (length ?n) (drop i xs) = ?n"
    using assms by (auto simp: any_window_def list_ex_iff split: if_splits)
  then have "xs = (take i xs @ a) @ needle @ b @ drop (length ?n) (drop i xs)"
    by (metis append_assoc append_take_drop_id)
  then show ?thesis by (rule any_window_found [OF assms(2)])
qed

text \<open>A reply with the flags \<open>f0\<close>, \<open>f1\<close>, the records of its sections, and \<open>extra\<close> records behind them.\<close>

definition reply_shape :: "bytes \<Rightarrow> byte \<Rightarrow> byte \<Rightarrow> nat \<Rightarrow> rr list \<Rightarrow> rr list \<Rightarrow> rr list \<Rightarrow> bool" where
  "reply_shape resp f0 f1 extra an ns ar \<longleftrightarrow>
     (\<exists>a b c d pre post. resp = [a, b, f0, f1, c, d] @ be16 (rr_count (length an)) @ be16 (rr_count (length ns)) @
        be16 (rr_count (length ar + extra)) @ pre @ wires (an @ ns @ ar) @ post \<and>
        (extra = 0 \<longrightarrow> post = []) \<and> (extra \<noteq> 0 \<longrightarrow> (\<exists>x. post = opt_wire x)))"

lemma shape_fields:
  assumes "reply_shape resp f0 f1 extra an ns ar"
  shows "idx resp 2 = ret f0" and "idx resp 3 = ret f1"
    and "ancount resp = ret (rr_count (length an))" and "nscount resp = ret (rr_count (length ns))"
    and "arcount resp = ret (rr_count (length ar + extra))"
  using assms
  by (auto simp: reply_shape_def idx_def ancount_def nscount_def arcount_def count_at_def be16_def)

lemma wires_split: "r \<in> set rrs \<Longrightarrow> \<exists>a b. wires rrs = a @ rr_wire r @ b"
proof -
  assume "r \<in> set rrs"
  then obtain xs ys where "rrs = xs @ r # ys" by (meson split_list)
  then have "wires rrs = wires xs @ rr_wire r @ wires ys" by simp
  then show ?thesis by blast
qed

lemma shape_window:
  assumes "reply_shape resp f0 f1 extra an ns ar" and "r \<in> set (an @ ns @ ar)"
    and "rr_wire r = u @ needle @ v" and "needle \<noteq> []"
  shows "any_window needle resp = ret True"
proof -
  from wires_split [OF assms(2)] obtain x y where "wires (an @ ns @ ar) = x @ rr_wire r @ y" by blast
  then have w: "wires (an @ ns @ ar) = (x @ u) @ needle @ v @ y" by (simp only: assms(3) append_assoc)
  obtain head post where "resp = head @ wires (an @ ns @ ar) @ post"
    using assms(1) unfolding reply_shape_def by (metis append_assoc)
  then have "resp = (head @ x @ u) @ needle @ v @ y @ post" by (simp only: w append_assoc)
  then show ?thesis by (rule any_window_found [OF assms(4)])
qed

lemma shape_type:
  assumes "reply_shape resp f0 f1 extra an ns ar" and "t \<in> rr_typ ` set (an @ ns @ ar)"
  shows "contains_type resp t = ret True"
proof -
  obtain r where r: "r \<in> set (an @ ns @ ar)" "rr_typ r = t" using assms(2) by blast
  have "rr_wire r = (case rr_owner r of Question \<Rightarrow> [0xC0, 0x0C] | Name name \<Rightarrow> encode_domain_name name) @
      be16 t @ be16 CLASS_IN @ be32 (rr_ttl r) @ be16 (of_nat (length (rr_rdata r))) @ rr_rdata r"
    by (simp add: rr_wire_def write_rr_def r(2))
  from shape_window [OF assms(1) r(1) this] show ?thesis by (simp add: contains_type_def be16_def)
qed

lemma rr_wire_rdata: "\<exists>u. rr_wire r = u @ rr_rdata r"
  unfolding rr_wire_def write_rr_def by (metis append_assoc)

lemma shape_rdata:
  assumes "reply_shape resp f0 f1 extra an ns ar" and "r \<in> set (an @ ns @ ar)"
    and "rr_rdata r = u @ needle" and "needle \<noteq> []"
  shows "any_window needle resp = ret True"
proof -
  from rr_wire_rdata [of r] obtain x where "rr_wire r = (x @ u) @ needle @ []" by (auto simp: assms(3))
  from shape_window [OF assms(1,2) this assms(4)] show ?thesis .
qed

lemma shape_last:
  assumes "reply_shape resp f0 f1 0 [r] [] []" and "length (rr_rdata r) = n"
  shows "last_bytes resp n = ret (rr_rdata r)"
proof -
  obtain x where x: "resp = x @ rr_wire r" using assms(1) unfolding reply_shape_def by (auto simp flip: append_assoc append_Cons)
  from rr_wire_rdata [of r] obtain u where "resp = (x @ u) @ rr_rdata r" by (auto simp: x)
  then show ?thesis using assms(2) by (simp add: last_bytes_def subslice_def)
qed

lemma shape_opt:
  assumes "reply_shape resp f0 f1 extra an ns ar" and "extra \<noteq> 0"
  shows "contains_type resp TYPE_OPT = ret True"
proof -
  obtain head x where "resp = head @ opt_wire x"
    using assms unfolding reply_shape_def by (metis append_assoc)
  then have "resp = (head @ [0]) @ [0, 41] @ [4, 208, 0, 0] @ be16 (if x then 0x8000 else 0) @ [0, 0]"
    by (simp add: opt_wire_def)
  from any_window_found [OF _ this] show ?thesis by (simp add: contains_type_def be16_def)
qed

section \<open>What the queries of the tests ask\<close>

text \<open>A name the tests ask for: its labels are short, UTF-8 and hold no zero byte.\<close>

definition test_name :: "rstr \<Rightarrow> bool" where
  "test_name n \<longleftrightarrow> labels n \<noteq> [] \<and>
     (\<forall>l \<in> set (map to_lower (labels n)). label_ok l \<and> 0 \<notin> set l \<and> utf8_valid l)"

definition asked_name :: "rstr \<Rightarrow> rstr" where
  "asked_name n = join_with [DOT] (map to_lower (labels n))"

text \<open>What the server sees of a query: its name, type, whether there is an OPT record and the DO bit.\<close>

definition asks :: "bytes \<Rightarrow> rstr \<Rightarrow> u16 \<Rightarrow> bool \<Rightarrow> bool \<Rightarrow> byte \<Rightarrow> bool" where
  "asks q d t edns dob f0 \<longleftrightarrow> qend q \<noteq> None \<and> opcode q = 0 \<and> query_domain q = Some d \<and> qtypes q = Some (t, 1) \<and>
     has_opt q = edns \<and> wants_dnssec q = dob \<and> response_flags q True 0 = [f0 OR 4, 0] \<and>
     response_flags q False RCODE_REFUSED = [f0, 5]"

definition test_hdr :: "u16 \<Rightarrow> bool \<Rightarrow> bytes" where
  "test_hdr flags edns = [0x12, 0x34] @ be16 flags @ [0, 1, 0, 0, 0, 0] @ (if edns then [0, 1] else [0, 0])"

definition test_opt :: "bool \<Rightarrow> bool \<Rightarrow> bytes" where
  "test_opt edns dob = (if edns then [0, 0, 41, 4, 208, 0, 0] @ be16 (if dob then 0x8000 else 0) @ [0, 0] else [])"

lemma dns_query_question:
  "dns_query_edns n t flags edns dob =
     question (test_hdr flags edns) (map to_lower (labels n)) t 1 (test_opt edns dob)"
proof -
  have "be16 41 = [0, 41]" "be16 1232 = [4, 208]" "be16 0 = [0, 0]" by code_simp+
  then show ?thesis
    by (simp add: dns_query_edns_def question_def test_hdr_def test_opt_def encode_domain_name_labels Let_def)
qed

lemma opt_of_question:
  assumes "length hdr = 12" and "qlabels_ok ls"
  shows "opt_of (question hdr ls t 1 (test_opt edns dob)) =
    (if of_be16 (hdr ! 10) (hdr ! 11) = 0 \<or> \<not> edns then None else Some (1232, dob))"
proof -
  have "drop (16 + length (enc_labels ls)) (question hdr ls t 1 rest) = rest" for rest
    using assms(1) by (simp add: question_def)
  moreover have "unat (of_be16 4 208) = 1232" "of_be16 0x80 0 AND 0x8000 \<noteq> 0" "of_be16 0 0 AND 0x8000 = 0" by code_simp+
  moreover have "be16 0x8000 = [0x80, 0]" "be16 0 = [0, 0]" by code_simp+
  moreover have "question hdr ls t 1 rest ! 10 = hdr ! 10" "question hdr ls t 1 rest ! 11 = hdr ! 11"
    "\<not> length (question hdr ls t 1 rest) < 12" for rest
    using assms(1) by (simp_all add: question_def nth_append)
  ultimately show ?thesis
    using qend_question [OF assms, of t 1]
    by (simp add: opt_of_def test_opt_def)
qed

lemma asks_query:
  assumes "test_name n" and "flags \<in> {0, 0x0100}"
  shows "asks (dns_query_edns n t flags edns dob) (asked_name n) t edns (edns \<and> dob)
    (if flags = 0 then 0x80 else 0x81)"
proof -
  let ?ls = "map to_lower (labels n)" and ?hdr = "test_hdr flags edns"
  have ls: "qlabels_ok ?ls" "utf8_labels ?ls" "?ls \<noteq> []"
    using assms(1) by (auto simp: test_name_def qlabels_ok_def utf8_labels_def)
  have hdr: "query_hdr ?hdr" "length ?hdr = 12"
    by (simp_all add: test_hdr_def query_hdr_def be16_def)
  have count: "of_be16 (?hdr ! 10) (?hdr ! 11) = (if edns then 1 else 0)"
  proof -
    have "of_be16 0 1 = 1" "of_be16 0 0 = 0" by code_simp+
    then show ?thesis by (simp add: test_hdr_def be16_def)
  qed
  have opt: "opt_of (question ?hdr ?ls t 1 (test_opt edns dob)) = (if edns then Some (1232, dob) else None)"
    by (simp add: opt_of_question [OF hdr(2) ls(1)] count)
  have b2: "question ?hdr ?ls t 1 rest ! 2 = (if flags = 0 then 0 else 1)"
    "2 < length (question ?hdr ?ls t 1 rest)" for rest
  proof -
    have "be16 0x0100 = [1, 0]" "be16 0 = [0, 0]" by code_simp+
    then show "question ?hdr ?ls t 1 rest ! 2 = (if flags = 0 then 0 else 1)"
      "2 < length (question ?hdr ?ls t 1 rest)"
      using assms(2) by (auto simp: question_def test_hdr_def)
  qed
  have words: "(0x80 OR ((0 :: byte) AND 0x78) OR 4 OR (0 AND 1)) = 0x80 OR 4"
    "(0x80 OR ((1 :: byte) AND 0x78) OR 4 OR (1 AND 1)) = 0x81 OR 4"
    "(0x80 OR ((0 :: byte) AND 0x78) OR 0 OR (0 AND 1)) = 0x80"
    "(0x80 OR ((1 :: byte) AND 0x78) OR 0 OR (1 AND 1)) = 0x81"
    "(drop_bit 3 (0 :: byte)) AND 0x0f = 0" "(drop_bit 3 (1 :: byte)) AND 0x0f = 0"
    "(0 :: byte) AND 0x0f = 0" "(5 :: byte) AND 0x0f = 5"
    by code_simp+
  show ?thesis
    using b2 words
    by (simp add: asks_def dns_query_question asked_name_def qend_question [OF hdr(2) ls(1)]
        query_domain_question [OF hdr(1) ls(2,3)] qtypes_question [OF hdr(2) ls(1)] has_opt_def wants_dnssec_def
        opt opcode_def response_flags_def get0_def Let_def)
qed

section \<open>What the server replies\<close>

lemma signed_runs_shape:
  assumes "\<forall>g \<in> set gs. uniform g \<and> rr_typ (hd g) \<noteq> TYPE_RRSIG"
  shows "length (fst (signed_runs cr clk n q p gs)) = length (concat gs) + (if sign p then length gs else 0)"
    and "rr_typ ` set (fst (signed_runs cr clk n q p gs)) =
      rr_typ ` set (concat gs) \<union> (if sign p \<and> gs \<noteq> [] then {TYPE_RRSIG} else {})"
proof -
  have types: "rr_typ ` set (sorted_run g) = rr_typ ` set g" if "uniform g" for g
  proof -
    have "g \<noteq> []" "\<forall>r \<in> set g. rr_typ r = rr_typ (hd g)" using that unfolding uniform_def by blast+
    then have "rr_typ ` set g = {rr_typ (hd g)}" by (cases g) auto
    then show ?thesis using \<open>g \<noteq> []\<close> by (simp add: sorted_run_def image_image image_constant_conv)
  qed
  show "length (fst (signed_runs cr clk n q p gs)) = length (concat gs) + (if sign p then length gs else 0)"
    using assms
    by (induction gs arbitrary: n) (auto simp: signed_run_def signing_key_def sign_def case_prod_unfold)
  show "rr_typ ` set (fst (signed_runs cr clk n q p gs)) =
      rr_typ ` set (concat gs) \<union> (if sign p \<and> gs \<noteq> [] then {TYPE_RRSIG} else {})"
    using assms
    by (induction gs arbitrary: n)
      (auto simp: signed_run_def signing_key_def sign_def case_prod_unfold types rrsig_of_def image_Un)
qed

lemma signed_runs_rdata: "rr_rdata ` set (concat gs) \<subseteq> rr_rdata ` set (fst (signed_runs cr clk n q p gs))"
proof (induction gs arbitrary: n)
  case (Cons g gs)
  have "rr_rdata ` set (sorted_run g) = rr_rdata ` set g" by (simp add: sorted_run_def image_image)
  moreover obtain sig where "fst (signed_runs cr clk n q p (g # gs)) =
      sorted_run g @ sig @ fst (signed_runs cr clk (next_reading p n g) q p gs)"
    by (simp add: signed_run_def case_prod_unfold)
  ultimately show ?case using Cons.IH [of "next_reading p n g"]
    by (simp only: concat.simps set_append image_Un) blast
qed simp

lemma signed_sections_shape:
  assumes "\<forall>r \<in> set (an @ ns @ ar). rr_typ r \<noteq> TYPE_RRSIG"
    and "signed_sections cr clk q p (an, ns, ar) = (an', ns', ar')"
  shows "length an' = length an + (if sign p then length (runs an) else 0)"
    and "length ns' = length ns + (if sign p then length (runs ns) else 0)"
    and "length ar' = length ar + (if sign p then length (runs ar) else 0)"
    and "rr_typ ` set (an' @ ns' @ ar') = rr_typ ` set (an @ ns @ ar) \<union>
      (if sign p \<and> an @ ns @ ar \<noteq> [] then {TYPE_RRSIG} else {})"
    and "rr_rdata ` set an \<subseteq> rr_rdata ` set an'"
proof -
  obtain n1 n2 n3 where s: "signed_runs cr clk 0 q p (runs an) = (an', n1)"
    "signed_runs cr clk n1 q p (runs ns) = (ns', n2)" "signed_runs cr clk n2 q p (runs ar) = (ar', n3)"
    using assms(2) by (auto simp: signed_sections_def split: prod.splits)
  have u: "\<forall>g \<in> set (runs rrs). uniform g \<and> rr_typ (hd g) \<noteq> TYPE_RRSIG"
    if "set rrs \<subseteq> set (an @ ns @ ar)" for rrs
    using runs_uniform runs_hd_typ [of _ rrs] that assms(1) by blast
  have empty: "runs rrs = [] \<longleftrightarrow> rrs = []" for rrs by (metis concat.simps(1) concat_runs runs_def foldl_Nil)
  have ua: "\<forall>g \<in> set (runs an). uniform g \<and> rr_typ (hd g) \<noteq> TYPE_RRSIG" by (rule u) auto
  have un: "\<forall>g \<in> set (runs ns). uniform g \<and> rr_typ (hd g) \<noteq> TYPE_RRSIG" by (rule u) auto
  have ur: "\<forall>g \<in> set (runs ar). uniform g \<and> rr_typ (hd g) \<noteq> TYPE_RRSIG" by (rule u) auto
  note shape = signed_runs_shape [where cr = cr and clk = clk and q = q and p = p]
  note shapes = shape [OF ua, of 0] shape [OF un, of n1] shape [OF ur, of n2]
  show "length an' = length an + (if sign p then length (runs an) else 0)"
    and "length ns' = length ns + (if sign p then length (runs ns) else 0)"
    and "length ar' = length ar + (if sign p then length (runs ar) else 0)"
    using shapes by (simp_all add: s)
  show "rr_typ ` set (an' @ ns' @ ar') = rr_typ ` set (an @ ns @ ar) \<union>
      (if sign p \<and> an @ ns @ ar \<noteq> [] then {TYPE_RRSIG} else {})"
    using shapes by (auto simp: s empty image_Un)
  show "rr_rdata ` set an \<subseteq> rr_rdata ` set an'"
    using signed_runs_rdata [of "runs an" cr clk 0 q p] by (simp add: s)
qed

lemma answered_shape:
  assumes "config_wf cr cf" and "asks q d t edns dob f0" and "outcome cr q cf = Answer sections"
    and "signed_sections cr clk q (zone_params_of cf dob) sections = (an, ns, ar)"
  obtains resp where "handle_query_internal cr clk q cf = ret resp"
    and "reply_shape resp (f0 OR 4) 0 (if edns then 1 else 0) an ns ar"
proof -
  let ?resp = "answer cr clk q (zone_params_of cf dob) sections"
  obtain e where e: "qend q = Some e" using assms(2) by (auto simp: asks_def)
  obtain a b where ab: "take 2 q = [a, b]" using length_2_exD [OF qend_slices(4) [OF e]] by blast
  obtain c d where cd: "take 2 (drop 4 q) = [c, d]" using length_2_exD [OF qend_slices(5) [OF e]] by blast
  let ?opt = "opt_part q (sign (zone_params_of cf dob))"
  have "?resp = [a, b, f0 OR 4, 0, c, d] @ be16 (rr_count (length an)) @ be16 (rr_count (length ns)) @
      be16 (rr_count (length ar + (if edns then 1 else 0))) @ qsection_of q @ wires (an @ ns @ ar) @ ?opt"
    using assms(2,4) e by (simp add: answer_def reply_def asks_def ab cd)
  moreover have "\<not> edns \<longrightarrow> ?opt = []" "edns \<longrightarrow> (\<exists>x. ?opt = opt_wire x)"
    using assms(2) by (auto simp: opt_part_def asks_def)
  ultimately have "reply_shape ?resp (f0 OR 4) 0 (if edns then 1 else 0) an ns ar"
    unfolding reply_shape_def
    by (intro exI [of _ a] exI [of _ b] exI [of _ c] exI [of _ d] exI [of _ "qsection_of q"] exI [of _ ?opt]) simp
  moreover have "handle_query_internal cr clk q cf = ret ?resp"
    using assms(2) by (simp add: handle_query_internal_eq [OF assms(1)] assms(3) outcome_bytes_def asks_def)
  ultimately show ?thesis by (rule that [rotated])
qed


text \<open>Everything the tests look at in the reply to one of their queries.\<close>

lemma flag_words:
  "(0x81 OR 4) AND 0x04 \<noteq> (0 :: byte)" "(0x80 OR 4) AND 0x04 \<noteq> (0 :: byte)" "(0x80 OR 4) AND 0x01 = (0 :: byte)"
  "(0 :: byte) AND 0x80 = 0" "(0 :: byte) AND 0x0f = 0" "(0x81 :: byte) AND 0x04 = 0" "(5 :: byte) AND 0x0f = 5"
  by code_simp+

lemma counts: "rr_count (Suc 0) = 1" "rr_count 1 = 1" "rr_count 2 = 2" "rr_count 4 = 4"
  "rr_count (Suc (Suc 0)) = 2" "rr_count (Suc (Suc (Suc (Suc 0)))) = 4"
  by code_simp+

definition ends_in :: "bytes \<Rightarrow> bytes \<Rightarrow> bool" where
  "ends_in xs needle \<longleftrightarrow> drop (length xs - length needle) xs = needle"

lemma ends_in_append: "ends_in xs needle \<Longrightarrow> \<exists>u. xs = u @ needle"
  unfolding ends_in_def by (metis append_take_drop_id)

lemma ends_in_simps [simp]: "ends_in xs xs" "ends_in (x # xs) xs"
  by (simp_all add: ends_in_def)

lemma test_reply:
  fixes cf :: "'k config"
  assumes "config_wf cr cf" and "test_name n \<and> asked_name n = n \<and> \<not> is_version_query n"
    and "flags \<in> {0, 0x0100}" and "in_zone n (cf_glue_name cf)"
    and "q = dns_query_edns n t flags edns dob" and "p = zone_params_of cf (edns \<and> dob)"
    and "zone_records cr q cf n t = (an, ns, ar)"
    and "\<forall>r \<in> set (an @ ns @ ar). rr_typ r \<noteq> TYPE_RRSIG"
  obtains resp where "handle_query_internal cr clk q cf = ret resp"
    and "test_aa resp = ret True" and "test_ra resp = ret False" and "test_rcode resp = ret 0"
    and "idx resp 2 = ret ((if flags = 0 then 0x80 else 0x81) OR 4)"
    and "ancount resp = ret (rr_count (length an + (if sign p then length (runs an) else 0)))"
    and "nscount resp = ret (rr_count (length ns + (if sign p then length (runs ns) else 0)))"
    and "arcount resp = ret (rr_count (length ar + (if sign p then length (runs ar) else 0) + (if edns then 1 else 0)))"
    and "\<And>u. u \<in> rr_typ ` set (an @ ns @ ar) \<Longrightarrow> contains_type resp u = ret True"
    and "sign p \<Longrightarrow> an @ ns @ ar \<noteq> [] \<Longrightarrow> contains_type resp TYPE_RRSIG = ret True"
    and "edns \<Longrightarrow> contains_type resp TYPE_OPT = ret True"
    and "\<And>needle. needle \<noteq> [] \<Longrightarrow> \<exists>r \<in> set an. ends_in (rr_rdata r) needle \<Longrightarrow> any_window needle resp = ret True"
    and "\<And>r k. an = [r] \<Longrightarrow> ns = [] \<Longrightarrow> ar = [] \<Longrightarrow> \<not> edns \<Longrightarrow> length (rr_rdata r) = k \<Longrightarrow>
      last_bytes resp k = ret (rr_rdata r)"
proof -
  let ?f0 = "if flags = 0 then 0x80 else 0x81"
  have a: "asks q n t edns (edns \<and> dob) ?f0"
    using asks_query [OF conjunct1 [OF assms(2)] assms(3), of t edns dob] assms(2) unfolding assms(5) by simp
  then have o: "outcome cr q cf = Answer (an, ns, ar)"
    using assms(2,4,7) by (simp add: asks_def outcome_def)
  obtain an' ns' ar' where s: "signed_sections cr clk q p (an, ns, ar) = (an', ns', ar')"
    by (metis prod_cases3)
  obtain resp where h: "handle_query_internal cr clk q cf = ret resp"
    and r: "reply_shape resp (?f0 OR 4) 0 (if edns then 1 else 0) an' ns' ar'"
    using answered_shape [OF assms(1) a o] s unfolding assms(6) by blast
  note fields = shape_fields [OF r] and types = shape_type [OF r]
  note sections = signed_sections_shape [OF assms(8) s]
  have last: "last_bytes resp k = ret (rr_rdata x)"
    if "an = [x]" "ns = []" "ar = []" "\<not> edns" "length (rr_rdata x) = k" for x k
  proof -
    have no: "\<not> sign p" using that(4) assms(6) by (simp add: sign_def zone_params_of_def)
    have "runs [x] = [[x]]" "runs [] = []" by (simp_all add: runs_def add_run_def)
    then have "an' = [x]" "ns' = []" "ar' = []"
      using s that(1-3) by (simp_all add: unsigned_sections [OF no] sorted_run_def)
    then show ?thesis using r that(4,5) by (intro shape_last) simp_all
  qed
  have rdata: "any_window needle resp = ret True"
    if x: "needle \<noteq> []" "\<exists>r \<in> set an. ends_in (rr_rdata r) needle" for needle
  proof -
    obtain v u where "v \<in> set an" "rr_rdata v = u @ needle" using x(2) ends_in_append by blast
    then have "u @ needle \<in> rr_rdata ` set an'" using sections(5) by (metis imageI subsetD)
    then obtain y where "y \<in> set an'" "rr_rdata y = u @ needle" by auto
    then show ?thesis using shape_rdata [OF r, of y u needle] x(1) by simp
  qed
  have c: "contains_type resp u = ret True" if "u \<in> rr_typ ` set (an' @ ns' @ ar')" for u
    using types that by blast
  have c1: "contains_type resp u = ret True" if "u \<in> rr_typ ` set (an @ ns @ ar)" for u
    using c [of u] that unfolding sections(4) by blast
  have c2: "contains_type resp TYPE_RRSIG = ret True" if "sign p" "an @ ns @ ar \<noteq> []"
    using c [of TYPE_RRSIG] that unfolding sections(4) by simp
  have opt: "contains_type resp TYPE_OPT = ret True" if "edns" using shape_opt [OF r] that by simp
  show ?thesis
    by (rule that [OF h _ _ _ fields(1) _ _ _ c1 c2 opt rdata last])
      (use fields flag_words in \<open>simp_all add: test_aa_def test_ra_def test_rcode_def sections(1-3)\<close>)
qed

text \<open>The configuration of the tests and its names.\<close>

definition test_zone :: "ipv6 \<Rightarrow> 'k config" where
  "test_zone ip6 = \<lparr> cf_glue_name = lit ''nip.nu'', cf_glue_ip = Ipv4 37 27 198 249, cf_glue_ip6 = Some ip6,
     cf_soa_name = lit ''ns1.addr.se'', cf_ns_names = [lit ''ns.addr.se'', lit ''ns1.addr.se''],
     cf_hostmaster = lit ''hostmaster.nip.nu'', cf_serial = 1, cf_refresh = 3600, cf_retry = 1800,
     cf_expire = 604800, cf_minimum = 3600, cf_spf = lit ''v=spf1 -all'',
     cf_dmarc = lit ''v=DMARC1; p=reject;'', cf_version = lit ''1.8.1'', cf_rate_limit_seconds = 0,
     cf_rate_limit_requests = 0, cf_dnssec = None \<rparr>"

lemma test_config_zone:
  obtains ip6 where "test_config = ret (test_zone ip6 :: 'k config)"
proof -
  have "ipv6_from_str (lit ''2a01:4f9:c012:6a18::1'') \<noteq> None" by code_simp
  then show ?thesis using that by (auto simp: test_config_def test_zone_def)
qed

lemma test_zone_wf:
  "config_wf cr (test_zone ip6)"
  "config_wf cr (test_zone ip6\<lparr>cf_dmarc := []\<rparr>)" "config_wf cr (test_zone ip6\<lparr>cf_spf := []\<rparr>)"
  "config_wf cr (test_zone ip6\<lparr>cf_soa_name := lit ''ns.nip.nu'', cf_ns_names := [lit ''ns.nip.nu'', lit ''ns2.nip.nu'']\<rparr>)"
  "key_wf cr key \<Longrightarrow> config_wf cr (test_zone ip6\<lparr>cf_dnssec := Some key\<rparr>)"
proof -
  have "list_all utf8_valid (map lit [''nip.nu'', ''ns1.addr.se'', ''ns.addr.se'', ''ns.nip.nu'', ''ns2.nip.nu'',
      ''hostmaster.nip.nu'', ''v=spf1 -all'', ''v=DMARC1; p=reject;'', ''1.8.1''])" by code_simp
  moreover have "utf8_valid []" by code_simp
  ultimately show "config_wf cr (test_zone ip6)"
    "config_wf cr (test_zone ip6\<lparr>cf_dmarc := []\<rparr>)" "config_wf cr (test_zone ip6\<lparr>cf_spf := []\<rparr>)"
    "config_wf cr (test_zone ip6\<lparr>cf_soa_name := lit ''ns.nip.nu'', cf_ns_names := [lit ''ns.nip.nu'', lit ''ns2.nip.nu'']\<rparr>)"
    "key_wf cr key \<Longrightarrow> config_wf cr (test_zone ip6\<lparr>cf_dnssec := Some key\<rparr>)"
    by (simp_all add: config_wf_def test_zone_def)
qed

lemma test_names_1:
  "\<forall>n \<in> set (map lit [''nip.nu'', ''127.0.0.1.nip.nu'', ''_dmarc.nip.nu'', ''not-an-ip.nip.nu'']).
     test_name n \<and> asked_name n = n"
  by code_simp

lemma test_names_2:
  "\<forall>n \<in> set (map lit [''ns.nip.nu'', ''ns2.nip.nu'', ''ns1.addr.se'']). test_name n \<and> asked_name n = n"
  "\<forall>n \<in> set (map lit [''nip.nu'', ''127.0.0.1.nip.nu'', ''_dmarc.nip.nu'', ''not-an-ip.nip.nu'', ''ns.nip.nu'',
      ''ns2.nip.nu'', ''ns1.addr.se'']). \<not> is_version_query n"
  by code_simp+

lemma test_names_in_zone:
  "\<forall>n \<in> set (map lit [''nip.nu'', ''127.0.0.1.nip.nu'', ''_dmarc.nip.nu'']). in_zone n (lit ''nip.nu'')"
  by code_simp

lemma test_names_zone:
  "\<forall>n \<in> set (map lit [''not-an-ip.nip.nu'', ''ns.nip.nu'', ''ns2.nip.nu'']). in_zone n (lit ''nip.nu'')"
  "\<not> in_zone (lit ''ns1.addr.se'') (lit ''nip.nu'')"
  by code_simp+

lemmas test_name_facts = test_names_1 [simplified] test_names_2 [simplified] test_names_in_zone [simplified]
  test_names_zone [simplified]

lemma test_names_eq:
  "\<forall>n \<in> set (map lit [''nip.nu'', ''127.0.0.1.nip.nu'', ''not-an-ip.nip.nu'', ''ns.nip.nu'', ''ns2.nip.nu'']).
     \<not> names_eq n (dmarc_owner (lit ''nip.nu''))"
  "\<forall>n \<in> set (map lit [''127.0.0.1.nip.nu'', ''_dmarc.nip.nu'', ''not-an-ip.nip.nu'', ''ns.nip.nu'', ''ns2.nip.nu'']).
     \<not> names_eq n (lit ''nip.nu'')"
  "\<forall>n \<in> set (map lit [''127.0.0.1.nip.nu'', ''_dmarc.nip.nu'', ''not-an-ip.nip.nu'']).
     \<not> names_eq n (lit ''ns.addr.se'') \<and> \<not> names_eq n (lit ''ns1.addr.se'')"
  "names_eq (lit ''_dmarc.nip.nu'') (dmarc_owner (lit ''nip.nu''))"
  "names_eq (lit ''nip.nu'') (lit ''nip.nu'')"
  "names_eq (lit ''ns.nip.nu'') (lit ''ns.nip.nu'')" "names_eq (lit ''ns2.nip.nu'') (lit ''ns2.nip.nu'')"
  by code_simp+

lemma test_bailiwick:
  "\<not> in_bailiwick (lit ''ns.addr.se'') (lit ''nip.nu'')" "\<not> in_bailiwick (lit ''ns1.addr.se'') (lit ''nip.nu'')"
  "in_bailiwick (lit ''ns.nip.nu'') (lit ''nip.nu'')" "in_bailiwick (lit ''ns2.nip.nu'') (lit ''nip.nu'')"
  by code_simp+

lemma test_labels:
  "labels_ip (split_on DOT (lit ''127.0.0.1.nip.nu'')) = Some (Some (Ipv4 127 0 0 1), None)"
  "labels_ip (split_on DOT (lit ''not-an-ip.nip.nu'')) = None"
  "labels_ip (split_on DOT (lit ''_dmarc.nip.nu'')) = None"
  "lit ''v=DMARC1; p=reject;'' \<noteq> []" "lit ''v=spf1 -all'' \<noteq> []"
  by code_simp+

lemmas test_eq_facts = test_names_eq [simplified] test_bailiwick test_labels

lemma sign_params [simp]: "sign (zone_params_of cf b) \<longleftrightarrow> cf_dnssec cf \<noteq> None \<and> b"
  by (auto simp: sign_def zone_params_of_def)

lemma params_fields [simp]:
  "zp_glue_ip (zone_params_of cf b) = cf_glue_ip cf" "zp_glue_ip6 (zone_params_of cf b) = cf_glue_ip6 cf"
  "zp_ns_names (zone_params_of cf b) = cf_ns_names cf" "zp_dnssec (zone_params_of cf b) = cf_dnssec cf"
  "zp_zone (zone_params_of cf b) = cf_glue_name cf"
  "zp_spf (zone_params_of cf b) = (if cf_spf cf \<noteq> [] then Some (cf_spf cf) else None)"
  by (simp_all add: zone_params_of_def)

lemma runs_single [simp]: "runs [r] = [[r]]" "runs [] = []"
  by (simp_all add: runs_def add_run_def)

lemma wants_do:
  "test_name n \<and> asked_name n = n \<and> \<not> is_version_query n \<Longrightarrow> wants_dnssec (dns_query_edns n t 0x0100 True True)"
  using asks_query [of n "0x0100" t True True] by (simp add: asks_def)

lemmas content_simps = zone_records_def Let_def test_zone_def test_name_facts test_eq_facts is_configured_ns_def
  apex_content_def apex_answers_def address_content_def address_answers_def nodata_content_def if_some_def
  ns_rrs_def glue_rrs_def glue_of_def

lemma txt_lengths: "take 255 (lit ''v=spf1 -all'') = lit ''v=spf1 -all''"
  "take 255 (lit ''v=DMARC1; p=reject;'') = lit ''v=DMARC1; p=reject;''"
  by code_simp+

lemma encode_domain_name_nonempty [simp]: "encode_domain_name n \<noteq> []"
  by (simp add: encode_domain_name_labels enc_labels_def)

lemmas query_simps = dns_query_def dns_query_with_def assert_eq_def counts flag_words question_records txt_lengths contains_name_def

section \<open>Queries\<close>

text \<open>
  The tests that send a query share their shape: a configuration, a query, the reply of
  \<open>handle_query_internal\<close>, and assertions on it.
\<close>

type_synonym 'k responder_test = "'k crypto \<Rightarrow> clock \<Rightarrow> unit exec"

definition ip_hostname_is_authoritative_a :: "'k responder_test" where
  "ip_hostname_is_authoritative_a cr clk = do {
     cfg \<leftarrow> test_config;
     let q = dns_query (lit ''127.0.0.1.nip.nu'') TYPE_A;
     resp \<leftarrow> handle_query_internal cr clk q cfg;
     _ \<leftarrow> assert_eq (test_aa resp) True;
     _ \<leftarrow> assert_eq (test_ra resp) False;
     _ \<leftarrow> assert_eq (test_rcode resp) 0;
     _ \<leftarrow> assert_eq (ancount resp) 1;
     _ \<leftarrow> assert_eq (contains_type resp TYPE_A) True;
     assert_eq (last_bytes resp 4) [127, 0, 0, 1]
   }"

definition ipv4_hostname_aaaa_is_nodata :: "'k responder_test" where
  "ipv4_hostname_aaaa_is_nodata cr clk = do {
     cfg \<leftarrow> test_config;
     let q = dns_query (lit ''127.0.0.1.nip.nu'') TYPE_AAAA;
     resp \<leftarrow> handle_query_internal cr clk q cfg;
     _ \<leftarrow> assert_eq (test_aa resp) True;
     _ \<leftarrow> assert_eq (test_rcode resp) 0;
     _ \<leftarrow> assert_eq (ancount resp) 0;
     _ \<leftarrow> assert_eq (nscount resp) 1;
     assert_eq (contains_type resp TYPE_SOA) True
   }"

definition apex_soa_is_in_answer :: "'k responder_test" where
  "apex_soa_is_in_answer cr clk = do {
     cfg \<leftarrow> test_config;
     let q = dns_query (lit ''nip.nu'') TYPE_SOA;
     resp \<leftarrow> handle_query_internal cr clk q cfg;
     _ \<leftarrow> assert_eq (test_aa resp) True;
     _ \<leftarrow> assert_eq (ancount resp) 1;
     _ \<leftarrow> assert_eq (contains_type resp TYPE_SOA) True;
     assert_eq (contains_type resp TYPE_NS) True
   }"

definition apex_ns_returns_full_ns_set :: "'k responder_test" where
  "apex_ns_returns_full_ns_set cr clk = do {
     cfg \<leftarrow> test_config;
     let q = dns_query (lit ''nip.nu'') TYPE_NS;
     resp \<leftarrow> handle_query_internal cr clk q cfg;
     _ \<leftarrow> assert_eq (test_aa resp) True;
     _ \<leftarrow> assert_eq (ancount resp) 2;
     _ \<leftarrow> assert_eq (nscount resp) 0;
     _ \<leftarrow> assert_eq (arcount resp) 0;
     _ \<leftarrow> assert_eq (contains_name resp (lit ''ns.addr.se'')) True;
     assert_eq (contains_name resp (lit ''ns1.addr.se'')) True
   }"

definition apex_a_returns_glue_ip :: "'k responder_test" where
  "apex_a_returns_glue_ip cr clk = do {
     cfg \<leftarrow> test_config;
     let q = dns_query (lit ''nip.nu'') TYPE_A;
     resp \<leftarrow> handle_query_internal cr clk q cfg;
     _ \<leftarrow> assert_eq (test_aa resp) True;
     _ \<leftarrow> assert_eq (ancount resp) 1;
     assert_eq (last_bytes resp 4) [37, 27, 198, 249]
   }"

definition apex_aaaa_returns_glue_ip6 :: "'k responder_test" where
  "apex_aaaa_returns_glue_ip6 cr clk = do {
     cfg \<leftarrow> test_config;
     let q = dns_query (lit ''nip.nu'') TYPE_AAAA;
     resp \<leftarrow> handle_query_internal cr clk q cfg;
     _ \<leftarrow> assert_eq (test_aa resp) True;
     _ \<leftarrow> assert_eq (ancount resp) 1;
     _ \<leftarrow> assert_eq (contains_type resp TYPE_AAAA) True;
     ip6 \<leftarrow> cf_glue_ip6 cfg;
     let expected = octets6 ip6;
     assert_eq (last_bytes resp 16) expected
   }"

definition out_of_zone_ns_hostname_is_refused :: "'k responder_test" where
  "out_of_zone_ns_hostname_is_refused cr clk = do {
     cfg \<leftarrow> test_config;
     let q = dns_query (lit ''ns1.addr.se'') TYPE_A;
     resp \<leftarrow> handle_query_internal cr clk q cfg;
     _ \<leftarrow> assert_eq (test_aa resp) False;
     assert_eq (test_rcode resp) 5
   }"

definition in_zone_nameserver_hostname_has_a_and_aaaa :: "'k responder_test" where
  "in_zone_nameserver_hostname_has_a_and_aaaa cr clk = do {
     cfg \<leftarrow> test_config;
     let cfg = cfg\<lparr>cf_soa_name := lit ''ns.nip.nu''\<rparr>;
     let cfg = cfg\<lparr>cf_ns_names := [lit ''ns.nip.nu'', lit ''ns2.nip.nu'']\<rparr>;
     let q = dns_query (lit ''ns.nip.nu'') TYPE_A;
     resp \<leftarrow> handle_query_internal cr clk q cfg;
     _ \<leftarrow> assert_eq (test_aa resp) True;
     _ \<leftarrow> assert_eq (ancount resp) 1;
     _ \<leftarrow> assert_eq (last_bytes resp 4) [37, 27, 198, 249];
     let q6 = dns_query (lit ''ns2.nip.nu'') TYPE_AAAA;
     resp6 \<leftarrow> handle_query_internal cr clk q6 cfg;
     _ \<leftarrow> assert_eq (test_aa resp6) True;
     _ \<leftarrow> assert_eq (ancount resp6) 1;
     assert_eq (contains_type resp6 TYPE_AAAA) True
   }"

definition in_bailiwick_ns_includes_glue :: "'k responder_test" where
  "in_bailiwick_ns_includes_glue cr clk = do {
     cfg \<leftarrow> test_config;
     let cfg = cfg\<lparr>cf_soa_name := lit ''ns.nip.nu''\<rparr>;
     let cfg = cfg\<lparr>cf_ns_names := [lit ''ns.nip.nu'', lit ''ns2.nip.nu'']\<rparr>;
     let q = dns_query (lit ''nip.nu'') TYPE_NS;
     resp \<leftarrow> handle_query_internal cr clk q cfg;
     _ \<leftarrow> assert_eq (ancount resp) 2;
     _ \<leftarrow> assert_eq (arcount resp) 4;
     _ \<leftarrow> assert_eq (contains_type resp TYPE_A) True;
     assert_eq (contains_type resp TYPE_AAAA) True
   }"

definition edns_opt_is_echoed :: "'k responder_test" where
  "edns_opt_is_echoed cr clk = do {
     cfg \<leftarrow> test_config;
     let q = dns_query_with (lit ''127.0.0.1.nip.nu'') TYPE_A 0x0100 True;
     resp \<leftarrow> handle_query_internal cr clk q cfg;
     _ \<leftarrow> assert_eq (arcount resp) 1;
     assert_eq (contains_type resp TYPE_OPT) True
   }"

definition rd_is_copied_from_query :: "'k responder_test" where
  "rd_is_copied_from_query cr clk = do {
     cfg \<leftarrow> test_config;
     let q = dns_query_with (lit ''127.0.0.1.nip.nu'') TYPE_A 0x0000 False;
     resp \<leftarrow> handle_query_internal cr clk q cfg;
     b2 \<leftarrow> idx resp 2;
     _ \<leftarrow> assert_that (b2 AND 0x01 = 0);
     assert_eq (test_aa resp) True
   }"

definition apex_spf_txt_is_published :: "'k responder_test" where
  "apex_spf_txt_is_published cr clk = do {
     cfg \<leftarrow> test_config;
     let q = dns_query (lit ''nip.nu'') TYPE_TXT;
     resp \<leftarrow> handle_query_internal cr clk q cfg;
     _ \<leftarrow> assert_eq (test_aa resp) True;
     _ \<leftarrow> assert_eq (ancount resp) 1;
     _ \<leftarrow> assert_eq (contains_type resp TYPE_TXT) True;
     assert_eq (any_window (cf_spf cfg) resp) True
   }"

definition dmarc_txt_is_published :: "'k responder_test" where
  "dmarc_txt_is_published cr clk = do {
     cfg \<leftarrow> test_config;
     let q = dns_query (lit ''_dmarc.nip.nu'') TYPE_TXT;
     resp \<leftarrow> handle_query_internal cr clk q cfg;
     _ \<leftarrow> assert_eq (test_aa resp) True;
     _ \<leftarrow> assert_eq (ancount resp) 1;
     _ \<leftarrow> assert_eq (contains_type resp TYPE_TXT) True;
     assert_eq (any_window (cf_dmarc cfg) resp) True
   }"

definition empty_dmarc_is_nodata :: "'k responder_test" where
  "empty_dmarc_is_nodata cr clk = do {
     cfg \<leftarrow> test_config;
     let cfg = cfg\<lparr>cf_dmarc := []\<rparr>;
     let q = dns_query (lit ''_dmarc.nip.nu'') TYPE_TXT;
     resp \<leftarrow> handle_query_internal cr clk q cfg;
     _ \<leftarrow> assert_eq (test_aa resp) True;
     _ \<leftarrow> assert_eq (ancount resp) 0;
     _ \<leftarrow> assert_eq (nscount resp) 1;
     assert_eq (contains_type resp TYPE_SOA) True
   }"

definition empty_spf_is_nodata :: "'k responder_test" where
  "empty_spf_is_nodata cr clk = do {
     cfg \<leftarrow> test_config;
     let cfg = cfg\<lparr>cf_spf := []\<rparr>;
     let q = dns_query (lit ''nip.nu'') TYPE_TXT;
     resp \<leftarrow> handle_query_internal cr clk q cfg;
     _ \<leftarrow> assert_eq (test_aa resp) True;
     _ \<leftarrow> assert_eq (ancount resp) 0;
     assert_eq (contains_type resp TYPE_SOA) True
   }"

definition udp_truncation_sets_tc :: "'k responder_test" where
  "udp_truncation_sets_tc cr clk = do {
     cfg \<leftarrow> test_config;
     let q = dns_query (lit ''nip.nu'') TYPE_ANY;
     full \<leftarrow> handle_query_internal cr clk q cfg;
     let oversized = full @ replicate 600 0;
     truncated \<leftarrow> maybe_truncate_udp oversized q;
     b2 \<leftarrow> idx truncated 2;
     _ \<leftarrow> assert_that (b2 AND 0x02 \<noteq> 0);
     _ \<leftarrow> assert_that (length truncated \<le> 512);
     assert_eq (ancount truncated) 0
   }"

definition dnskey_without_signing_is_nodata :: "'k responder_test" where
  "dnskey_without_signing_is_nodata cr clk = do {
     cfg \<leftarrow> test_config;
     let q = dns_query (lit ''nip.nu'') TYPE_DNSKEY;
     resp \<leftarrow> handle_query_internal cr clk q cfg;
     _ \<leftarrow> assert_eq (test_aa resp) True;
     _ \<leftarrow> assert_eq (ancount resp) 0;
     _ \<leftarrow> assert_eq (nscount resp) 1;
     assert_eq (contains_type resp TYPE_SOA) True
   }"

text \<open>They pass for any crate and clock.\<close>

lemma ip_hostname_is_authoritative_a_passes: "ip_hostname_is_authoritative_a cr clk = ret ()"
proof -
  obtain ip6 where c: "test_config = ret (test_zone ip6 :: 'a config)" by (rule test_config_zone)
  let ?cf = "test_zone ip6 :: 'a config"
  have z: "zone_records cr q ?cf (lit ''127.0.0.1.nip.nu'') TYPE_A = ([a_rr Question (Ipv4 127 0 0 1)], [], [])" for q
    by (simp add: content_simps)
  show ?thesis
    by (rule test_reply [where n = "lit ''127.0.0.1.nip.nu''" and t = TYPE_A and flags = "0x0100" and edns = False and dob = False
          and clk = clk, OF test_zone_wf(1) _ _ _ refl refl z])
      (simp_all add: ip_hostname_is_authoritative_a_def c query_simps content_simps)
qed

lemma ipv4_hostname_aaaa_is_nodata_passes: "ipv4_hostname_aaaa_is_nodata cr clk = ret ()"
proof -
  obtain ip6 where c: "test_config = ret (test_zone ip6 :: 'a config)" by (rule test_config_zone)
  let ?cf = "test_zone ip6 :: 'a config"
  have z: "zone_records cr q ?cf (lit ''127.0.0.1.nip.nu'') TYPE_AAAA = ([], [soa_rr (Name (lit ''nip.nu'')) (zone_params_of ?cf (wants_dnssec q))], [])" for q
    by (simp add: content_simps)
  show ?thesis
    by (rule test_reply [where n = "lit ''127.0.0.1.nip.nu''" and t = TYPE_AAAA and flags = "0x0100" and edns = False and dob = False
          and clk = clk, OF test_zone_wf(1) _ _ _ refl refl z])
      (simp_all add: ipv4_hostname_aaaa_is_nodata_def c query_simps content_simps)
qed

lemma apex_soa_is_in_answer_passes: "apex_soa_is_in_answer cr clk = ret ()"
proof -
  obtain ip6 where c: "test_config = ret (test_zone ip6 :: 'a config)" by (rule test_config_zone)
  let ?cf = "test_zone ip6 :: 'a config"
  have z: "zone_records cr q ?cf (lit ''nip.nu'') TYPE_SOA = ([soa_rr Question (zone_params_of ?cf (wants_dnssec q))], ns_rrs (zone_params_of ?cf (wants_dnssec q)), [])" for q
    by (simp add: content_simps)
  show ?thesis
    by (rule test_reply [where n = "lit ''nip.nu''" and t = TYPE_SOA and flags = "0x0100" and edns = False and dob = False
          and clk = clk, OF test_zone_wf(1) _ _ _ refl refl z])
      (simp_all add: apex_soa_is_in_answer_def c query_simps content_simps)
qed

lemma apex_a_returns_glue_ip_passes: "apex_a_returns_glue_ip cr clk = ret ()"
proof -
  obtain ip6 where c: "test_config = ret (test_zone ip6 :: 'a config)" by (rule test_config_zone)
  let ?cf = "test_zone ip6 :: 'a config"
  have z: "zone_records cr q ?cf (lit ''nip.nu'') TYPE_A = ([a_rr Question (Ipv4 37 27 198 249)], [], [])" for q
    by (simp add: content_simps)
  show ?thesis
    by (rule test_reply [where n = "lit ''nip.nu''" and t = TYPE_A and flags = "0x0100" and edns = False and dob = False
          and clk = clk, OF test_zone_wf(1) _ _ _ refl refl z])
      (simp_all add: apex_a_returns_glue_ip_def c query_simps content_simps)
qed

lemma apex_aaaa_returns_glue_ip6_passes: "apex_aaaa_returns_glue_ip6 cr clk = ret ()"
proof -
  obtain ip6 where c: "test_config = ret (test_zone ip6 :: 'a config)" by (rule test_config_zone)
  let ?cf = "test_zone ip6 :: 'a config"
  have z: "zone_records cr q ?cf (lit ''nip.nu'') TYPE_AAAA = ([aaaa_rr Question ip6], [], [])" for q
    by (simp add: content_simps)
  show ?thesis
    by (rule test_reply [where n = "lit ''nip.nu''" and t = TYPE_AAAA and flags = "0x0100" and edns = False and dob = False
          and clk = clk, OF test_zone_wf(1) _ _ _ refl refl z])
      (simp_all add: apex_aaaa_returns_glue_ip6_def c query_simps content_simps)
qed

lemma edns_opt_is_echoed_passes: "edns_opt_is_echoed cr clk = ret ()"
proof -
  obtain ip6 where c: "test_config = ret (test_zone ip6 :: 'a config)" by (rule test_config_zone)
  let ?cf = "test_zone ip6 :: 'a config"
  have z: "zone_records cr q ?cf (lit ''127.0.0.1.nip.nu'') TYPE_A = ([a_rr Question (Ipv4 127 0 0 1)], [], [])" for q
    by (simp add: content_simps)
  show ?thesis
    by (rule test_reply [where n = "lit ''127.0.0.1.nip.nu''" and t = TYPE_A and flags = "0x0100" and edns = True and dob = False
          and clk = clk, OF test_zone_wf(1) _ _ _ refl refl z])
      (simp_all add: edns_opt_is_echoed_def c query_simps content_simps)
qed

lemma rd_is_copied_from_query_passes: "rd_is_copied_from_query cr clk = ret ()"
proof -
  obtain ip6 where c: "test_config = ret (test_zone ip6 :: 'a config)" by (rule test_config_zone)
  let ?cf = "test_zone ip6 :: 'a config"
  have z: "zone_records cr q ?cf (lit ''127.0.0.1.nip.nu'') TYPE_A = ([a_rr Question (Ipv4 127 0 0 1)], [], [])" for q
    by (simp add: content_simps)
  show ?thesis
    by (rule test_reply [where n = "lit ''127.0.0.1.nip.nu''" and t = TYPE_A and flags = "0x0000" and edns = False and dob = False
          and clk = clk, OF test_zone_wf(1) _ _ _ refl refl z])
      (simp_all add: rd_is_copied_from_query_def c query_simps content_simps)
qed

lemma empty_dmarc_is_nodata_passes: "empty_dmarc_is_nodata cr clk = ret ()"
proof -
  obtain ip6 where c: "test_config = ret (test_zone ip6 :: 'a config)" by (rule test_config_zone)
  let ?cf = "test_zone ip6\<lparr>cf_dmarc := []\<rparr> :: 'a config"
  have z: "zone_records cr q ?cf (lit ''_dmarc.nip.nu'') TYPE_TXT = ([], [soa_rr (Name (lit ''nip.nu'')) (zone_params_of ?cf (wants_dnssec q))], [])" for q
    by (simp add: content_simps)
  show ?thesis
    by (rule test_reply [where n = "lit ''_dmarc.nip.nu''" and t = TYPE_TXT and flags = "0x0100" and edns = False and dob = False
          and clk = clk, OF test_zone_wf(2) _ _ _ refl refl z])
      (simp_all add: empty_dmarc_is_nodata_def c query_simps content_simps)
qed

lemma empty_spf_is_nodata_passes: "empty_spf_is_nodata cr clk = ret ()"
proof -
  obtain ip6 where c: "test_config = ret (test_zone ip6 :: 'a config)" by (rule test_config_zone)
  let ?cf = "test_zone ip6\<lparr>cf_spf := []\<rparr> :: 'a config"
  have z: "zone_records cr q ?cf (lit ''nip.nu'') TYPE_TXT = ([], [soa_rr (Name (lit ''nip.nu'')) (zone_params_of ?cf (wants_dnssec q))], [])" for q
    by (simp add: content_simps)
  show ?thesis
    by (rule test_reply [where n = "lit ''nip.nu''" and t = TYPE_TXT and flags = "0x0100" and edns = False and dob = False
          and clk = clk, OF test_zone_wf(3) _ _ _ refl refl z])
      (simp_all add: empty_spf_is_nodata_def c query_simps content_simps)
qed

lemma dnskey_without_signing_is_nodata_passes: "dnskey_without_signing_is_nodata cr clk = ret ()"
proof -
  obtain ip6 where c: "test_config = ret (test_zone ip6 :: 'a config)" by (rule test_config_zone)
  let ?cf = "test_zone ip6 :: 'a config"
  have z: "zone_records cr q ?cf (lit ''nip.nu'') TYPE_DNSKEY = ([], [soa_rr (Name (lit ''nip.nu'')) (zone_params_of ?cf (wants_dnssec q))], [])" for q
    by (simp add: content_simps)
  show ?thesis
    by (rule test_reply [where n = "lit ''nip.nu''" and t = TYPE_DNSKEY and flags = "0x0100" and edns = False and dob = False
          and clk = clk, OF test_zone_wf(1) _ _ _ refl refl z])
      (simp_all add: dnskey_without_signing_is_nodata_def c query_simps content_simps)
qed

lemma apex_ns_returns_full_ns_set_passes: "apex_ns_returns_full_ns_set cr clk = ret ()"
proof -
  obtain ip6 where c: "test_config = ret (test_zone ip6 :: 'a config)" by (rule test_config_zone)
  let ?cf = "test_zone ip6 :: 'a config"
  have z: "zone_records cr q ?cf (lit ''nip.nu'') TYPE_NS = (ns_rrs (zone_params_of ?cf (wants_dnssec q)), [], [])" for q
    by (simp add: content_simps)
  show ?thesis
    by (rule test_reply [where n = "lit ''nip.nu''" and t = TYPE_NS and flags = "0x0100" and edns = False and dob = False
          and clk = clk, OF test_zone_wf(1) _ _ _ refl refl z])
      (simp_all add: apex_ns_returns_full_ns_set_def c query_simps content_simps)
qed

lemma in_bailiwick_ns_includes_glue_passes: "in_bailiwick_ns_includes_glue cr clk = ret ()"
proof -
  obtain ip6 where c: "test_config = ret (test_zone ip6 :: 'a config)" by (rule test_config_zone)
  let ?cf = "test_zone ip6\<lparr>cf_soa_name := lit ''ns.nip.nu'', cf_ns_names := [lit ''ns.nip.nu'', lit ''ns2.nip.nu'']\<rparr> :: 'a config"
  have z: "zone_records cr q ?cf (lit ''nip.nu'') TYPE_NS = (ns_rrs (zone_params_of ?cf (wants_dnssec q)), [], [a_rr (Name (lit ''ns.nip.nu'')) (Ipv4 37 27 198 249), aaaa_rr (Name (lit ''ns.nip.nu'')) ip6, a_rr (Name (lit ''ns2.nip.nu'')) (Ipv4 37 27 198 249), aaaa_rr (Name (lit ''ns2.nip.nu'')) ip6])" for q
    by (simp add: content_simps)
  show ?thesis
    by (rule test_reply [where n = "lit ''nip.nu''" and t = TYPE_NS and flags = "0x0100" and edns = False and dob = False
          and clk = clk, OF test_zone_wf(4) _ _ _ refl refl z])
      (simp_all add: in_bailiwick_ns_includes_glue_def c query_simps content_simps)
qed

lemma apex_spf_txt_is_published_passes: "apex_spf_txt_is_published cr clk = ret ()"
proof -
  obtain ip6 where c: "test_config = ret (test_zone ip6 :: 'a config)" by (rule test_config_zone)
  let ?cf = "test_zone ip6 :: 'a config"
  have z: "zone_records cr q ?cf (lit ''nip.nu'') TYPE_TXT = ([txt_rr (lit ''v=spf1 -all'')], [], [])" for q
    by (simp add: content_simps)
  show ?thesis
    by (rule test_reply [where n = "lit ''nip.nu''" and t = TYPE_TXT and flags = "0x0100" and edns = False and dob = False
          and clk = clk, OF test_zone_wf(1) _ _ _ refl refl z])
      (simp_all add: apex_spf_txt_is_published_def c query_simps content_simps)
qed

lemma dmarc_txt_is_published_passes: "dmarc_txt_is_published cr clk = ret ()"
proof -
  obtain ip6 where c: "test_config = ret (test_zone ip6 :: 'a config)" by (rule test_config_zone)
  let ?cf = "test_zone ip6 :: 'a config"
  have z: "zone_records cr q ?cf (lit ''_dmarc.nip.nu'') TYPE_TXT = ([txt_rr (lit ''v=DMARC1; p=reject;'')], [], [])" for q
    by (simp add: content_simps)
  show ?thesis
    by (rule test_reply [where n = "lit ''_dmarc.nip.nu''" and t = TYPE_TXT and flags = "0x0100" and edns = False and dob = False
          and clk = clk, OF test_zone_wf(1) _ _ _ refl refl z])
      (simp_all add: dmarc_txt_is_published_def c query_simps content_simps)
qed

lemma out_of_zone_ns_hostname_is_refused_passes: "out_of_zone_ns_hostname_is_refused cr clk = ret ()"
proof -
  obtain ip6 where c: "test_config = ret (test_zone ip6 :: 'a config)" by (rule test_config_zone)
  let ?cf = "test_zone ip6 :: 'a config" and ?q = "dns_query_edns (lit ''ns1.addr.se'') 1 0x0100 False False"
  have a: "asks ?q (lit ''ns1.addr.se'') 1 False False 0x81"
    using asks_query [of "lit ''ns1.addr.se''" "0x0100" 1 False False] test_name_facts by simp
  then have o: "outcome cr ?q ?cf = Refuse"
    using test_name_facts by (simp add: asks_def outcome_def test_zone_def)
  obtain e where e: "qend ?q = Some e" using a by (auto simp: asks_def)
  obtain x y where xy: "take 2 ?q = [x, y]" using length_2_exD [OF qend_slices(4) [OF e]] by blast
  have "12 \<le> length ?q" using qend_bounds [OF e] by linarith
  then have h: "handle_query_internal cr clk ?q ?cf = ret (reply [0x81, 5] ?q False [] [] [])"
    using a by (simp add: handle_query_internal_eq [OF test_zone_wf(1)] o outcome_bytes_def asks_def)
  obtain tail where "reply [0x81, 5] ?q False [] [] [] = x # y # 0x81 # 5 # tail"
    by (simp add: reply_def xy)
  with h flag_words show ?thesis
    by (simp add: out_of_zone_ns_hostname_is_refused_def c dns_query_def dns_query_with_def
        assert_eq_def test_aa_def test_rcode_def idx_def)
qed

lemma in_zone_nameserver_hostname_has_a_and_aaaa_passes:
  "in_zone_nameserver_hostname_has_a_and_aaaa cr clk = ret ()"
proof -
  obtain ip6 where c: "test_config = ret (test_zone ip6 :: 'a config)" by (rule test_config_zone)
  let ?cf = "test_zone ip6\<lparr>cf_soa_name := lit ''ns.nip.nu'', cf_ns_names := [lit ''ns.nip.nu'', lit ''ns2.nip.nu'']\<rparr> :: 'a config"
  have z: "zone_records cr q ?cf (lit ''ns.nip.nu'') TYPE_A = ([a_rr Question (Ipv4 37 27 198 249)], [], [])"
    and z6: "zone_records cr q ?cf (lit ''ns2.nip.nu'') TYPE_AAAA = ([aaaa_rr Question ip6], [], [])" for q
    by (simp_all add: content_simps)
  show ?thesis
    by (rule test_reply [where n = "lit ''ns.nip.nu''" and t = TYPE_A and flags = "0x0100" and edns = False and dob = False
          and clk = clk, OF test_zone_wf(4) _ _ _ refl refl z], (simp add: content_simps question_records; fail)+,
        rule test_reply [where n = "lit ''ns2.nip.nu''" and t = TYPE_AAAA and flags = "0x0100" and edns = False
          and dob = False and clk = clk, OF test_zone_wf(4) _ _ _ refl refl z6])
      (simp_all add: in_zone_nameserver_hostname_has_a_and_aaaa_def c query_simps content_simps)
qed

lemma udp_truncation_sets_tc_passes: "udp_truncation_sets_tc cr clk = ret ()"
proof -
  obtain ip6 where c: "test_config = ret (test_zone ip6 :: 'a config)" by (rule test_config_zone)
  let ?q = "dns_query (lit ''nip.nu'') TYPE_ANY"
  obtain r where r: "handle_query_internal cr clk ?q (test_zone ip6) = ret r"
    by (simp add: handle_query_internal_eq [OF test_zone_wf(1)])
  have q: "qend ?q \<noteq> None" "\<not> has_opt ?q" "udp_limit ?q = 512" "length (qsection_of ?q) \<le> 500" by code_simp+
  have "512 < length (r @ replicate 600 0)" by simp
  from truncated_plain [OF q this] obtain t b2 b3 where
    t: "maybe_truncate_udp (r @ replicate 600 0) ?q = ret t" "length t \<le> 512" "idx t 2 = ret b2" "b2 AND 0x02 \<noteq> 0"
      "idx t 3 = ret b3" "idx t 6 = ret 0" "idx t 7 = ret 0" .
  have "of_be16 0 0 = 0" by code_simp
  then show ?thesis
    unfolding udp_truncation_sets_tc_def Let_def c
    using r t by (simp add: assert_eq_def ancount_def count_at_def)
qed

section \<open>Queries to a signed zone\<close>

text \<open>\<open>g\<close> is the key \<open>SigningKey::generate\<close> returns.\<close>

definition signed_test_config :: "'k crypto \<Rightarrow> 'k \<Rightarrow> 'k config exec" where
  "signed_test_config cr g = do {
     cfg \<leftarrow> test_config;
     key \<leftarrow> from_signing_key cr g;
     ret (cfg\<lparr>cf_dnssec := Some key\<rparr>)
   }"

definition dnskey_is_published_without_do_bit :: "'k crypto \<Rightarrow> clock \<Rightarrow> 'k \<Rightarrow> unit exec" where
  "dnskey_is_published_without_do_bit cr clk g = do {
     cfg \<leftarrow> signed_test_config cr g;
     let q = dns_query (lit ''nip.nu'') TYPE_DNSKEY;
     resp \<leftarrow> handle_query_internal cr clk q cfg;
     _ \<leftarrow> assert_eq (test_aa resp) True;
     _ \<leftarrow> assert_eq (ancount resp) 1;
     _ \<leftarrow> assert_eq (contains_type resp TYPE_DNSKEY) True;
     assert_eq (contains_type resp TYPE_RRSIG) False
   }"

definition dnskey_with_do_includes_rrsig :: "'k crypto \<Rightarrow> clock \<Rightarrow> 'k \<Rightarrow> unit exec" where
  "dnskey_with_do_includes_rrsig cr clk g = do {
     cfg \<leftarrow> signed_test_config cr g;
     let q = dns_query_edns (lit ''nip.nu'') TYPE_DNSKEY 0x0100 True True;
     resp \<leftarrow> handle_query_internal cr clk q cfg;
     _ \<leftarrow> assert_eq (test_aa resp) True;
     _ \<leftarrow> assert_eq (ancount resp) 2;
     _ \<leftarrow> assert_eq (contains_type resp TYPE_DNSKEY) True;
     _ \<leftarrow> assert_eq (contains_type resp TYPE_RRSIG) True;
     assert_eq (arcount resp) 1
   }"

definition cds_and_cdnskey_are_published :: "'k crypto \<Rightarrow> clock \<Rightarrow> 'k \<Rightarrow> unit exec" where
  "cds_and_cdnskey_are_published cr clk g = do {
     cfg \<leftarrow> signed_test_config cr g;
     for_each (\<lambda>typ. do {
        let q = dns_query (lit ''nip.nu'') typ;
        resp \<leftarrow> handle_query_internal cr clk q cfg;
        _ \<leftarrow> assert_eq (test_aa resp) True;
        _ \<leftarrow> assert_eq (ancount resp) 1;
        assert_eq (contains_type resp typ) True
     }) [TYPE_CDS, TYPE_CDNSKEY]
   }"

definition signed_a_record_includes_rrsig :: "'k crypto \<Rightarrow> clock \<Rightarrow> 'k \<Rightarrow> unit exec" where
  "signed_a_record_includes_rrsig cr clk g = do {
     cfg \<leftarrow> signed_test_config cr g;
     let q = dns_query_edns (lit ''127.0.0.1.nip.nu'') TYPE_A 0x0100 True True;
     resp \<leftarrow> handle_query_internal cr clk q cfg;
     _ \<leftarrow> assert_eq (test_aa resp) True;
     _ \<leftarrow> assert_eq (ancount resp) 2;
     _ \<leftarrow> assert_eq (contains_type resp TYPE_A) True;
     assert_eq (contains_type resp TYPE_RRSIG) True
   }"

definition signed_nodata_includes_nsec :: "'k crypto \<Rightarrow> clock \<Rightarrow> 'k \<Rightarrow> unit exec" where
  "signed_nodata_includes_nsec cr clk g = do {
     cfg \<leftarrow> signed_test_config cr g;
     let q = dns_query_edns (lit ''not-an-ip.nip.nu'') TYPE_A 0x0100 True True;
     resp \<leftarrow> handle_query_internal cr clk q cfg;
     _ \<leftarrow> assert_eq (test_aa resp) True;
     _ \<leftarrow> assert_eq (ancount resp) 0;
     _ \<leftarrow> assert_eq (contains_type resp TYPE_SOA) True;
     _ \<leftarrow> assert_eq (contains_type resp TYPE_NSEC) True;
     assert_eq (contains_type resp TYPE_RRSIG) True
   }"

text \<open>They pass for any clock and any key of a crate that encodes points as SEC1 says.\<close>

lemma signed_test_config_zone:
  fixes cr :: "'k crypto"
  assumes "sec1_points cr"
  obtains ip6 key where "signed_test_config cr g = ret (test_zone ip6\<lparr>cf_dnssec := Some key\<rparr>)"
    and "from_signing_key cr g = ret key" and "key_wf cr key"
proof -
  obtain key where key: "from_signing_key cr g = ret key"
    using assms by (simp add: from_signing_key_eq sec1_points_def Let_def)
  obtain ip6 where c: "test_config = ret (test_zone ip6 :: 'k config)" by (rule test_config_zone)
  have "signed_test_config cr g = ret (test_zone ip6\<lparr>cf_dnssec := Some key\<rparr>)"
    by (simp add: signed_test_config_def key c)
  then show ?thesis using key conjunct1 [OF from_signing_key_wf [OF key]] by (rule that)
qed

lemma dnskey_with_do_includes_rrsig_passes:
  assumes "sec1_points cr"
  shows "dnskey_with_do_includes_rrsig cr clk g = ret ()"
proof -
  obtain ip6 key where c: "signed_test_config cr g = ret (test_zone ip6\<lparr>cf_dnssec := Some key\<rparr>)" "key_wf cr key"
    using signed_test_config_zone [OF assms] .
  have z: "zone_records cr q (test_zone ip6\<lparr>cf_dnssec := Some key\<rparr>) (lit ''nip.nu'') TYPE_DNSKEY = ([dnskey_rr key], [], [])" for q
    by (simp add: content_simps)
  show ?thesis
    by (rule test_reply [where n = "lit ''nip.nu''" and t = TYPE_DNSKEY and flags = "0x0100" and edns = True and dob = True
          and clk = clk, OF test_zone_wf(5) [OF c(2)] _ _ _ refl refl z])
      (simp_all add: dnskey_with_do_includes_rrsig_def c query_simps content_simps)
qed

lemma cds_and_cdnskey_are_published_passes:
  assumes "sec1_points cr"
  shows "cds_and_cdnskey_are_published cr clk g = ret ()"
proof -
  obtain ip6 key where c: "signed_test_config cr g = ret (test_zone ip6\<lparr>cf_dnssec := Some key\<rparr>)" "key_wf cr key"
    using signed_test_config_zone [OF assms] .
  let ?cf = "test_zone ip6\<lparr>cf_dnssec := Some key\<rparr>"
  have z: "zone_records cr q ?cf (lit ''nip.nu'') TYPE_CDS = ([cds_rr cr (zone_params_of ?cf (wants_dnssec q)) key], [], [])"
    and z2: "zone_records cr q ?cf (lit ''nip.nu'') TYPE_CDNSKEY = ([cdnskey_rr key], [], [])" for q
    by (simp_all add: content_simps)
  show ?thesis
    by (rule test_reply [where n = "lit ''nip.nu''" and t = TYPE_CDS and flags = "0x0100" and edns = False and dob = False
          and clk = clk, OF test_zone_wf(5) [OF c(2)] _ _ _ refl refl z], (simp add: content_simps question_records; fail)+,
        rule test_reply [where n = "lit ''nip.nu''" and t = TYPE_CDNSKEY and flags = "0x0100" and edns = False
          and dob = False and clk = clk, OF test_zone_wf(5) [OF c(2)] _ _ _ refl refl z2])
      (simp_all add: cds_and_cdnskey_are_published_def for_each_def c query_simps content_simps)
qed

lemma signed_a_record_includes_rrsig_passes:
  assumes "sec1_points cr"
  shows "signed_a_record_includes_rrsig cr clk g = ret ()"
proof -
  obtain ip6 key where c: "signed_test_config cr g = ret (test_zone ip6\<lparr>cf_dnssec := Some key\<rparr>)" "key_wf cr key"
    using signed_test_config_zone [OF assms] .
  have z: "zone_records cr q (test_zone ip6\<lparr>cf_dnssec := Some key\<rparr>) (lit ''127.0.0.1.nip.nu'') TYPE_A =
      ([a_rr Question (Ipv4 127 0 0 1)], [], [])" for q
    by (simp add: content_simps)
  show ?thesis
    by (rule test_reply [where n = "lit ''127.0.0.1.nip.nu''" and t = TYPE_A and flags = "0x0100" and edns = True
          and dob = True and clk = clk, OF test_zone_wf(5) [OF c(2)] _ _ _ refl refl z])
      (simp_all add: signed_a_record_includes_rrsig_def c query_simps content_simps)
qed

lemma signed_nodata_includes_nsec_passes:
  assumes "sec1_points cr"
  shows "signed_nodata_includes_nsec cr clk g = ret ()"
proof -
  obtain ip6 key where c: "signed_test_config cr g = ret (test_zone ip6\<lparr>cf_dnssec := Some key\<rparr>)" "key_wf cr key"
    using signed_test_config_zone [OF assms] .
  let ?cf = "test_zone ip6\<lparr>cf_dnssec := Some key\<rparr>" and ?q = "dns_query_edns (lit ''not-an-ip.nip.nu'') TYPE_A 0x0100 True True"
  have "wants_dnssec ?q" by (rule wants_do) (simp add: test_name_facts)
  then have z: "zone_records cr ?q ?cf (lit ''not-an-ip.nip.nu'') TYPE_A =
      ([], [soa_rr (Name (lit ''nip.nu'')) (zone_params_of ?cf True), nsec_rr ?q (zone_params_of ?cf True) []], [])"
    by (simp add: content_simps)
  show ?thesis
    by (rule test_reply [where n = "lit ''not-an-ip.nip.nu''" and t = TYPE_A and flags = "0x0100" and edns = True
          and dob = True and clk = clk, OF test_zone_wf(5) [OF c(2)] _ _ _ refl refl z])
      (simp_all add: signed_nodata_includes_nsec_def c query_simps content_simps)
qed

text \<open>
  The test of a DNSKEY query without the DO bit asserts that the two bytes of the type RRSIG occur
  nowhere in the reply.  The reply holds the public key, so the test fails for the keys whose point
  contains these bytes.
\<close>

lemma dnskey_is_published_without_do_bit_fails:
  assumes "sec1_points cr" and "tl (cr_point cr g) = u @ [0, 46] @ v"
  shows "dnskey_is_published_without_do_bit cr clk g = panic"
proof -
  obtain ip6 key where c: "signed_test_config cr g = ret (test_zone ip6\<lparr>cf_dnssec := Some key\<rparr>)"
    "from_signing_key cr g = ret key" "key_wf cr key"
    using signed_test_config_zone [OF assms(1)] .
  have d: "dk_dnskey_rdata key = ([1, 1, 3, 13] @ u) @ [0, 46] @ v"
    using c(2) assms(2) by (auto simp: from_signing_key_eq Let_def split: if_splits)
  have z: "zone_records cr q (test_zone ip6\<lparr>cf_dnssec := Some key\<rparr>) (lit ''nip.nu'') TYPE_DNSKEY = ([dnskey_rr key], [], [])" for q
    by (simp add: content_simps)
  have found: "any_window (dk_dnskey_rdata key) resp = ret True \<Longrightarrow> any_window [0, 46] resp = ret True" for resp
    using any_window_sub [of "[1, 1, 3, 13] @ u" "[0, 46]" v resp] unfolding d by simp
  have ne: "dk_dnskey_rdata key \<noteq> []" by (simp add: d)
  have b: "be16 46 = [0, 46]" by code_simp
  have "\<exists>resp. handle_query_internal cr clk (dns_query_edns (lit ''nip.nu'') 48 0x0100 False False)
      (test_zone ip6\<lparr>cf_dnssec := Some key\<rparr>) = ret resp \<and> test_aa resp = ret True \<and> ancount resp = ret 1 \<and>
      contains_type resp 48 = ret True \<and> any_window (dk_dnskey_rdata key) resp = ret True"
    by (rule test_reply [where n = "lit ''nip.nu''" and t = 48 and flags = "0x0100" and edns = False and dob = False
          and clk = clk, OF test_zone_wf(5) [OF c(3)] _ _ _ refl refl z [simplified]])
      (simp_all add: query_simps content_simps ne)
  then obtain resp where r: "handle_query_internal cr clk (dns_query_edns (lit ''nip.nu'') 48 0x0100 False False)
      (test_zone ip6\<lparr>cf_dnssec := Some key\<rparr>) = ret resp" "test_aa resp = ret True" "ancount resp = ret 1"
    "contains_type resp 48 = ret True" "any_window (dk_dnskey_rdata key) resp = ret True"
    by blast
  have "contains_type resp 46 = ret True" using found [OF r(5)] by (simp add: contains_type_def b)
  with r show ?thesis
    by (simp add: dnskey_is_published_without_do_bit_def c(1) dns_query_def dns_query_with_def assert_eq_def assert_that_def)
qed

end
