(* ===== verification/Spec2Isabelle.thy ===== *)
theory Spec2Isabelle
  imports Server Denial Loops Query_Tests
begin

text \<open>
  A verification library for RustyAlias, a DNS server that answers address queries for one zone
  from the address that the host name itself spells (10-0-0-1.nip.nu, 10.0.0.1.nip.nu, 0a000001.nip.nu,
  2001-db8--1.nip.nu), over UDP and TCP, optionally signed, behind a rate limiter per source
  address.

  The parts and how they work together.  \<open>main\<close> (\<open>src/main.rs\<close>) reads the configuration from the
  environment (\<open>src/config.rs\<close>, with the signing key of \<open>src/dns/dnssec.rs\<close>), makes a limiter
  (\<open>src/rate_limit.rs\<close>) and runs two loops that share it: the UDP thread hands each admitted datagram
  to \<open>handle_query\<close>, the TCP loop each admitted frame to \<open>handle_query_internal\<close>
  (\<open>src/dns/query.rs\<close>).  The handler reads the question, tests the zone, reads an address out of
  the labels (\<open>src/dns/ip_parser.rs\<close>) and calls one of the builders of \<open>src/dns/response.rs\<close>, which
  sign what they write with \<open>src/dns/dnssec.rs\<close>.

  Conventions.  Every Rust function is a definition of the same name (\<open>foo_loop\<close>, \<open>foo_step\<close> for a
  loop or closure of it; record fields carry a prefix).  A byte string or \<open>Vec<u8>\<close> is a list of 8-bit
  words, a \<open>str\<close> the list of its UTF-8 bytes, integers are words of their width or, where the code
  only counts, natural numbers.  A computation that can panic has type \<open>'a exec\<close>: \<open>panic\<close> is a failed
  index, slice, \<open>unwrap\<close> or \<open>expect\<close>; \<open>None\<close> and \<open>Err\<close> of the source are values inside it.  The loops
  of the model are structural or have a measure; \<open>Loops\<close> has the \<open>while\<close> loops once more as loops
  that might not end, and gives the number of iterations that is enough.

  The theories.
  \<^item> \<open>Prelude\<close>: computations that can panic, checked indexing and slicing, big-endian words, the
    search interface (\<open>first_exec\<close> against \<open>first_some\<close>).
  \<^item> \<open>Rust_Str\<close>, \<open>Rust_Num\<close>, \<open>Rust_Trim\<close>, \<open>Net_Addr\<close>: what the program uses of the Rust standard
    library: UTF-8 validity, splitting, trimming, case, integer parsing and printing, \<open>Ipv4Addr\<close> and
    \<open>Ipv6Addr\<close> parsing.
  \<^item> \<open>Ip_Parser\<close>: \<open>src/dns/ip_parser.rs\<close>; \<open>interpret_ip\<close> equals a declarative specification on
    every byte string, each format is read back, what is returned is spelt in the label.
  \<^item> \<open>Wire\<close>: the query readers and name encoding of \<open>src/dns/response.rs\<close>; names decode to their
    labels, the end of the question section, the bounds of the UDP limit.
  \<^item> \<open>Dnssec\<close>: \<open>src/dns/dnssec.rs\<close>; the key tag equals the checksum of RFC 4034, type bitmaps and
    NSEC data decode to the types, an RRSIG verifies over the RFC 4034 data, key texts.
  \<^item> \<open>Response\<close>: the builders and the writer of \<open>src/dns/response.rs\<close>; \<open>reply\<close> is the closed form
    of a message, with one lemma per builder that it returns the reply to an abstract content
    (\<open>apex_content\<close>, \<open>address_content\<close>, \<open>nodata_content\<close>); a reader of the header flags by
    RFC 1035, in whose terms the properties state flags; truncation; signed sections.
  \<^item> \<open>Message\<close>: a reader of DNS messages and the theorem that a reply reads back.
  \<^item> \<open>Config\<close>: \<open>src/config.rs\<close>; a configuration is read back from the environment that writes it,
    and what is accepted is \<open>config_wf\<close>, which the handler relies on.
  \<^item> \<open>Query\<close>: \<open>src/dns/query.rs\<close>; \<open>outcome\<close> is the decision without bytes, which
    \<open>handle_query_internal\<close> implements; the end-to-end theorems read the reply with \<open>Message\<close>; every
    reply echoes its query; what labels with dots or zero bytes do.
  \<^item> \<open>Loops\<close>: the \<open>while\<close> loops of \<open>parse_query\<close>, \<open>label_count\<close> and \<open>lowercase_wire_name\<close>, run by
    \<open>while_option\<close> and with fuel under one contract (\<open>cursor_loop\<close>): they end within half the length
    of the message and compute the recursive definitions.
  \<^item> \<open>Validation\<close>: a validating resolver (RFC 4034, RFC 4035), written without the code: the reader
    of RRSIG data, the checks of a record set and its signature (the owner lies in the zone of the
    signer, too), complete sections; every answer inside the zone to a client with the DO bit
    passes it under the key of the zone, and the signed version answers outside the zone do not.
  \<^item> \<open>Denial\<close>: the list of types that exist at a name decides both what is answered and what is
    denied; a signed denial proves its claim and no more, except that one for NSEC or RRSIG lists
    the type it denies; the served DNSKEY record is the one the DS data of the parent names.
  \<^item> \<open>Machines\<close>: runs of deterministic machines, invariants and timed simulations as locales.
  \<^item> \<open>Rate_Limit\<close>: \<open>src/rate_limit.rs\<close>; the limiter with its pruned map simulates one that keeps
    every bucket, from which the quotas per address follow.
  \<^item> \<open>Server\<close>: \<open>src/main.rs\<close>; the start, and a step relation over UDP and TCP events;
    an address query is answered end to end over both transports, every well-formed query that the
    limiter admits gets a reply that echoes it, no panic in any execution, the quota over both
    transports, a generated key comes up serving, when the process ends.
  \<^item> \<open>Keygen\<close>: \<open>--generate-dnssec-key\<close>; a printed key is accepted back.
  \<^item> \<open>Unit_Tests\<close>, \<open>Query_Tests\<close>: the test modules of the sources as computations over the model;
    each passes, for every crate, clock and key where it has them, with the conditions on clock
    readings a test needs; two tests on random keys can fail, and it is shown for which keys.

  Bounds.  The end-to-end theorems ask for queries of at most 60000 bytes and for \<open>config_fit\<close>: names,
  texts and signatures short enough for their 16-bit lengths.  Those about signatures ask that the
  verification accepts what the crate signs, that the clocks of signer and resolver agree within the
  validity of a signature, that the labels of the question end in those of the zone, and that no two
  name servers are the same name.  The statements about every byte
  string (no panic, the decision, sizes) have no such bound.

  Not modelled: log messages; binding the sockets; the p256 and sha2 crates, the random key, the
  clocks, the environment and what the operating system delivers, all of which are parameters or
  events; a datagram longer than the buffer arrives cut to 4096 bytes.  The two threads are
  interleaved by loop iteration, because they share the limiter only and its lock covers a whole
  call of \<open>check\<close>.  The quota and window theorems of the limiter ask for instants in the order of the
  lock; two threads may read the clock in one order and take the lock in the other.
\<close>

end
